(* ===== verification/TS_Prelude.thy ===== *)
theory TS_Prelude
  imports Main "HOL-Library.AList" "HOL-Library.Sublist" "HOL-Library.Multiset"
begin

text \<open>
  Shared vocabulary of the development. The TinyServe sources are Python, so this
  theory fixes how the Python values they use are represented:

  \<^item> an exception is a value of \<open>py_error\<close>; an operation that may raise returns a value of
    \<open>'a res\<close>, \<open>Inl\<close> for the exception and \<open>Inr\<close> for the result, and \<open>res_bind\<close> sequences
    such operations the way a raise leaves a function;
  \<^item> a \<open>dict\<close> is an association list in insertion order with distinct keys (\<open>dict_wf\<close>):
    storing under a known key keeps its place, a new key goes to the end;
  \<^item> an unbounded Python integer is an \<open>int\<close>; a slice clamps its bounds and reads a negative
    bound from the end (\<open>py_take\<close>, \<open>py_drop\<close>);
  \<^item> a Python string is the list of its code points (\<open>ustring\<close>), a \<open>bytes\<close> object a list of
    naturals below 256, and an identifier or label a HOL \<open>string\<close>.

  The lemmas are the facts on dictionaries, slices and sequencing that the component theories
  share; they are simplification rules or members of the collection \<open>dict_simps\<close>.
\<close>

named_theorems dict_simps
named_theorems res_splits

section \<open>Exceptions as values\<close>

datatype py_error =
    ValueError
  | KeyError
  | IndexError
  | ZeroDivisionError
  | RuntimeError int
  | OSError
  | AttributeError
  | UnicodeDecodeError
  | CancelledError
  | MemoryFault

type_synonym 'a res = "py_error + 'a"

definition res_bind :: "'e + 'a \<Rightarrow> ('a \<Rightarrow> 'e + 'b) \<Rightarrow> 'e + 'b" where
  "res_bind m f = (case m of Inl e \<Rightarrow> Inl e | Inr x \<Rightarrow> f x)"

lemma res_bind_Inl [simp]: "res_bind (Inl e) f = Inl e"
  and res_bind_Inr [simp]: "res_bind (Inr x) f = f x"
  by (simp_all add: res_bind_def)

lemma res_bind_eq_Inr: "res_bind m f = Inr y \<longleftrightarrow> (\<exists>x. m = Inr x \<and> f x = Inr y)"
  by (cases m) auto

lemma res_bind_assoc: "res_bind (res_bind m f) g = res_bind m (\<lambda>x. res_bind (f x) g)"
  by (cases m) auto

text \<open>A \<open>for\<close> loop whose body may raise: it stops at the first exception.\<close>

fun res_fold :: "('a \<Rightarrow> 's \<Rightarrow> 'e + 's) \<Rightarrow> 'a list \<Rightarrow> 's \<Rightarrow> 'e + 's" where
  "res_fold f [] s = Inr s"
| "res_fold f (x # xs) s = res_bind (f x s) (res_fold f xs)"

lemma res_fold_append:
  "res_fold f (xs @ ys) s = res_bind (res_fold f xs s) (res_fold f ys)"
  by (induction xs arbitrary: s) (auto simp: res_bind_def split: sum.split)

text \<open>The loop rule: an invariant indexed by the elements still to be visited.\<close>

lemma res_fold_invariant:
  assumes "I xs s"
    and "\<And>x ys s. I (x # ys) s \<Longrightarrow> \<exists>s'. f x s = Inr s' \<and> I ys s'"
  shows "\<exists>s'. res_fold f xs s = Inr s' \<and> I [] s'"
  using assms(1)
proof (induction xs arbitrary: s)
  case Nil
  then show ?case by simp
next
  case (Cons x xs)
  then obtain s1 where "f x s = Inr s1" "I xs s1" using assms(2) by blast
  with Cons.IH show ?case by simp
qed

section \<open>32-bit integers\<close>

text \<open>The range of a C \<open>int32_t\<close>, which the two native libraries use for tokens, sequences and counts.\<close>

definition int32 :: "int \<Rightarrow> bool" where
  "int32 x \<longleftrightarrow> - (2 ^ 31) \<le> x \<and> x < 2 ^ 31"

section \<open>Dictionaries\<close>

type_synonym ('k, 'v) dict = "('k \<times> 'v) list"

abbreviation dict_get :: "('k, 'v) dict \<Rightarrow> 'k \<Rightarrow> 'v option" where
  "dict_get \<equiv> map_of"

abbreviation dict_set :: "'k \<Rightarrow> 'v \<Rightarrow> ('k, 'v) dict \<Rightarrow> ('k, 'v) dict" where
  "dict_set \<equiv> AList.update"

abbreviation dict_del :: "'k \<Rightarrow> ('k, 'v) dict \<Rightarrow> ('k, 'v) dict" where
  "dict_del \<equiv> AList.delete"

abbreviation keys :: "('k, 'v) dict \<Rightarrow> 'k list" where
  "keys d \<equiv> map fst d"

abbreviation vals :: "('k, 'v) dict \<Rightarrow> 'v list" where
  "vals d \<equiv> map snd d"

definition dict_wf :: "('k, 'v) dict \<Rightarrow> bool" where
  "dict_wf d \<longleftrightarrow> distinct (keys d)"

text \<open>Subscription \<open>d[k]\<close> and \<open>d.pop(k)\<close> without a default raise on a missing key.\<close>

definition dict_item :: "('k, 'v) dict \<Rightarrow> 'k \<Rightarrow> 'v res" where
  "dict_item d k = (case dict_get d k of None \<Rightarrow> Inl KeyError | Some v \<Rightarrow> Inr v)"

definition dict_pop :: "('k, 'v) dict \<Rightarrow> 'k \<Rightarrow> ('v \<times> ('k, 'v) dict) res" where
  "dict_pop d k = (case dict_get d k of None \<Rightarrow> Inl KeyError | Some v \<Rightarrow> Inr (v, dict_del k d))"

lemma dict_wf_Nil [simp]: "dict_wf []"
  by (simp add: dict_wf_def)

lemma dict_wf_set [simp, intro]: "dict_wf d \<Longrightarrow> dict_wf (dict_set k v d)"
  by (simp add: dict_wf_def distinct_update)

lemma dict_wf_del [simp, intro]: "dict_wf d \<Longrightarrow> dict_wf (dict_del k d)"
  by (simp add: dict_wf_def distinct_delete)

lemma dict_get_set [simp, dict_simps]:
  "dict_get (dict_set k v d) k' = (if k' = k then Some v else dict_get d k')"
  by (simp add: update_conv')

lemma dict_get_del [dict_simps]:
  "dict_get (dict_del k d) k' = (if k' = k then None else dict_get d k')"
  by (simp add: delete_conv')

lemma keys_set_new [dict_simps]: "k \<notin> set (keys d) \<Longrightarrow> dict_set k v d = d @ [(k, v)]"
  by (induction d) auto

lemma keys_set_old [dict_simps]: "k \<in> set (keys d) \<Longrightarrow> keys (dict_set k v d) = keys d"
  by (simp add: update_keys)

lemma keys_del [dict_simps]: "keys (dict_del k d) = filter (\<lambda>k'. k' \<noteq> k) (keys d)"
  by (simp add: delete_keys removeAll_filter_not_eq) (metis (mono_tags, lifting))

lemma set_keys_del [dict_simps]: "set (keys (dict_del k d)) = set (keys d) - {k}"
  by (auto simp: keys_del)

lemma set_keys_set [dict_simps]: "set (keys (dict_set k v d)) = insert k (set (keys d))"
  by (simp add: dom_update)

lemma dict_get_eq_None: "dict_get d k = None \<longleftrightarrow> k \<notin> set (keys d)"
  by (simp add: map_of_eq_None_iff)

lemma dict_getD: "dict_get d k = Some v \<Longrightarrow> (k, v) \<in> set d"
  by (rule map_of_SomeD)

lemma dict_get_in: "dict_wf d \<Longrightarrow> (k, v) \<in> set d \<Longrightarrow> dict_get d k = Some v"
  by (simp add: dict_wf_def)

lemma dict_get_iff: "dict_wf d \<Longrightarrow> dict_get d k = Some v \<longleftrightarrow> (k, v) \<in> set d"
  by (auto dest: dict_getD dict_get_in)

lemma dict_item_Inr [simp]: "dict_item d k = Inr v \<longleftrightarrow> dict_get d k = Some v"
  by (auto simp: dict_item_def split: option.splits)

lemma dict_pop_Inr [simp]:
  "dict_pop d k = Inr (v, d') \<longleftrightarrow> dict_get d k = Some v \<and> d' = dict_del k d"
  by (auto simp: dict_pop_def split: option.splits)

lemma set_dict_del: "set (dict_del k d) = {e \<in> set d. fst e \<noteq> k}"
  by (auto simp: AList.delete_eq)

lemma dict_del_fst_filter: "dict_del k d = filter (\<lambda>e. fst e \<noteq> k) d"
  by (auto simp: AList.delete_eq intro!: filter_cong)

text \<open>Sums over a dictionary split at a key.\<close>

lemma sum_list_dict_del:
  fixes f :: "'v \<Rightarrow> 'a::comm_monoid_add"
  assumes "dict_wf d" and "dict_get d k = Some v"
  shows "(\<Sum>e\<leftarrow>d. f (snd e)) = f v + (\<Sum>e\<leftarrow>dict_del k d. f (snd e))"
  using assms
proof (induction d)
  case Nil
  then show ?case by simp
next
  case (Cons e d)
  show ?case
  proof (cases "fst e = k")
    case True
    with Cons.prems have "k \<notin> fst ` set d" "snd e = v" by (auto simp: dict_wf_def)
    with True show ?thesis by (cases e) simp
  next
    case False
    with Cons have "(\<Sum>e\<leftarrow>d. f (snd e)) = f v + (\<Sum>e\<leftarrow>dict_del k d. f (snd e))"
      by (cases e) (simp add: dict_wf_def)
    with False show ?thesis by (cases e) (simp add: algebra_simps)
  qed
qed

section \<open>Slices\<close>

text \<open>\<open>xs[:n]\<close> and \<open>xs[n:]\<close>, negative bounds counting from the end.\<close>

definition slice_bound :: "'a list \<Rightarrow> int \<Rightarrow> nat" where
  "slice_bound xs n = nat (if n < 0 then int (length xs) + n else n)"

definition py_take :: "int \<Rightarrow> 'a list \<Rightarrow> 'a list" where
  "py_take n xs = take (slice_bound xs n) xs"

definition py_drop :: "int \<Rightarrow> 'a list \<Rightarrow> 'a list" where
  "py_drop n xs = drop (slice_bound xs n) xs"

lemma py_take_nonneg [simp]: "0 \<le> n \<Longrightarrow> py_take n xs = take (nat n) xs"
  by (simp add: py_take_def slice_bound_def)

lemma py_drop_nonneg [simp]: "0 \<le> n \<Longrightarrow> py_drop n xs = drop (nat n) xs"
  by (simp add: py_drop_def slice_bound_def)

lemma py_take_drop: "py_take n xs @ py_drop n xs = xs"
  by (simp add: py_take_def py_drop_def)

section \<open>Stable sorting and minima\<close>

text \<open>
  \<open>sorted(xs, key=f)\<close> is stable, as the library's \<open>sort_key\<close> is; the facts used about it.
\<close>

lemma sort_key_perm: "mset (sort_key f xs) = mset xs"
  by simp

lemma distinct_sort_key [simp]: "distinct (sort_key f xs) = distinct xs"
  by (simp add: distinct_sort)

lemma take_sort_key_subset: "set (take n (sort_key f xs)) \<subseteq> set xs"
  by (metis set_sort set_take_subset)

lemma mset_take_subset [simp]: "mset (take n xs) \<subseteq># mset xs"
  by (metis append_take_drop_id mset_append mset_subset_eq_add_left)

lemma mset_take_sort_key [simp]: "mset (take n (sort_key f xs)) \<subseteq># mset xs"
  by (metis mset_sort mset_take_subset)

lemma distinct_submset:
  assumes "mset xs \<subseteq># mset ys" "distinct ys"
  shows "distinct xs"
proof -
  obtain zs where "mset ys = mset xs + mset zs" using assms(1) by (metis ex_mset subset_mset.le_iff_add)
  then have "mset ys = mset (xs @ zs)" by simp
  with assms(2) have "distinct (xs @ zs)" by (metis mset_eq_imp_distinct_iff)
  then show ?thesis by simp
qed

text \<open>\<open>min(xs, key=f)\<close>: the first element with the least key.\<close>

fun min_by :: "('a \<Rightarrow> 'k::linorder) \<Rightarrow> 'a \<Rightarrow> 'a list \<Rightarrow> 'a" where
  "min_by f b [] = b"
| "min_by f b (x # xs) = (if f x < f b then min_by f x xs else min_by f b xs)"

lemma min_by_in: "min_by f b xs \<in> insert b (set xs)"
  by (induction xs arbitrary: b) auto

lemma min_by_le: "x \<in> insert b (set xs) \<Longrightarrow> f (min_by f b xs) \<le> f x"
proof (induction xs arbitrary: b x)
  case Nil
  then show ?case by simp
next
  case (Cons y xs)
  have y: "f (min_by f y xs) \<le> f y" and b: "f (min_by f b xs) \<le> f b"
    using Cons.IH by auto
  have xs: "f (min_by f c xs) \<le> f x" if "x \<in> set xs" for c using Cons.IH that by auto
  show ?case
  proof (cases "f y < f b")
    case True
    then have "f (min_by f y xs) \<le> f b" using y by (meson less_imp_le order_trans)
    with True Cons.prems y xs show ?thesis by auto
  next
    case False
    then have "f (min_by f b xs) \<le> f y" using b by (meson not_less order_trans)
    with False Cons.prems b xs show ?thesis by auto
  qed
qed

type_synonym ustring = "nat list"
type_synonym bytes = "nat list"

end
