(* ===== verification/TS_Float.thy ===== *)
theory TS_Float
  imports TS_Prelude Complex_Main "HOL-Library.Log_Nat"
begin

text \<open>
  Python's \<open>float\<close> is IEEE binary64, and three computations of the program depend on it: the
  block count \<open>math.ceil(n / block_size)\<close> of the KV accounting, the virtual finish times of the
  weighted fair queue, and differences of clock readings. A float is modelled by the rational
  number it denotes, and each arithmetic operation by the exact operation followed by \<open>fl\<close>,
  rounding to nearest with ties to even at 53 bits of precision. The exponent range is not
  bounded: infinities, NaN and subnormals do not occur in the model.

  The lemmas give what the component proofs use: rounding is monotone and idempotent, it is the
  identity on values of at most 53 bits, and it has relative error at most \<open>2 powi -53\<close>.
\<close>

type_synonym float64 = rat

section \<open>Round half to even\<close>

definition rhe :: "rat \<Rightarrow> int" where
  "rhe x = (let f = \<lfloor>x\<rfloor>; d = x - of_int f
            in if d < 1/2 then f else if d > 1/2 then f + 1
            else if even f then f else f + 1)"

lemma rhe_cases: "rhe x = \<lfloor>x\<rfloor> \<or> rhe x = \<lfloor>x\<rfloor> + 1"
  by (auto simp: rhe_def Let_def)

lemma rhe_of_int [simp]: "rhe (of_int n) = n"
  by (simp add: rhe_def)

lemma rhe_error: "\<bar>of_int (rhe x) - x\<bar> \<le> 1/2"
proof -
  have "of_int \<lfloor>x\<rfloor> \<le> x" "x < of_int \<lfloor>x\<rfloor> + 1" by linarith+
  then show ?thesis unfolding rhe_def Let_def by (simp split: if_split)
qed

lemma rhe_mono:
  assumes "x \<le> y"
  shows "rhe x \<le> rhe y"
proof (cases "\<lfloor>x\<rfloor> = \<lfloor>y\<rfloor>")
  case True
  with assms show ?thesis by (auto simp: rhe_def Let_def)
next
  case False
  with floor_mono[OF assms] have "\<lfloor>x\<rfloor> + 1 \<le> \<lfloor>y\<rfloor>" by simp
  with rhe_cases[of x] rhe_cases[of y] show ?thesis by linarith
qed

section \<open>The binary exponent\<close>

definition ilog2 :: "rat \<Rightarrow> int" where
  "ilog2 x = (case quotient_of x of (p, q) \<Rightarrow>
     let k = bitlen p - bitlen q in if 2 powi k \<le> x then k else k - 1)"

lemma powi_two_pos [simp]: "(0::rat) < 2 powi k"
  by (simp add: zero_less_power_int)

lemma powi_two_le: "i \<le> j \<Longrightarrow> (2::rat) powi i \<le> 2 powi j"
  by (rule power_int_increasing) auto

lemma powi_two_less: "i < j \<Longrightarrow> (2::rat) powi i < 2 powi j"
  by (rule power_int_strict_increasing) auto

lemma powi_two_less_iff: "(2::rat) powi i < 2 powi j \<longleftrightarrow> i < j"
  by (metis linorder_not_less powi_two_le powi_two_less)

lemma powi_two_le_iff: "(2::rat) powi i \<le> 2 powi j \<longleftrightarrow> i \<le> j"
  by (metis linorder_not_less powi_two_less_iff)

lemma powi_two_add: "(2::rat) powi (i + j) = 2 powi i * 2 powi j"
  by (simp add: power_int_add)

lemma powi_two_nat: "0 \<le> k \<Longrightarrow> (2::rat) powi k = of_int (2 ^ nat k)"
  by (simp add: power_int_nonneg_exp)

lemma bitlen_powi:
  assumes "0 < p"
  shows "2 powi (bitlen p - 1) \<le> (of_int p :: rat)" "(of_int p :: rat) < 2 powi (bitlen p)"
proof -
  from bitlen_bounds[OF assms]
  have b: "2 ^ nat (bitlen p - 1) \<le> p" "p < 2 ^ nat (bitlen p)" by auto
  have "1 \<le> bitlen p" using assms bitlen_nonneg[of p] bitlen_eq_zero_iff[of p] by linarith
  then have "2 powi (bitlen p - 1) = (of_int (2 ^ nat (bitlen p - 1)) :: rat)"
    "2 powi (bitlen p) = (of_int (2 ^ nat (bitlen p)) :: rat)"
    by (simp_all add: power_int_nonneg_exp)
  with b show "2 powi (bitlen p - 1) \<le> (of_int p :: rat)" "(of_int p :: rat) < 2 powi (bitlen p)"
    by (simp_all only: of_int_le_iff of_int_less_iff)
qed

lemma ilog2_bounds:
  assumes "0 < x"
  shows "2 powi (ilog2 x) \<le> x" "x < 2 powi (ilog2 x + 1)"
proof -
  obtain p q where pq: "quotient_of x = (p, q)" by force
  then have q: "0 < q" and x: "x = of_int p / of_int q"
    by (auto simp: quotient_of_denom_pos quotient_of_div)
  with assms have p: "0 < p" by (simp add: zero_less_divide_iff)
  let ?k = "bitlen p - bitlen q"
  note P = bitlen_powi[OF p] and Q = bitlen_powi[OF q]
  have "x < 2 powi (?k + 1)"
  proof -
    have "(of_int p :: rat) < 2 powi (?k + 1) * 2 powi (bitlen q - 1)"
      using P(2) by (simp flip: powi_two_add)
    also have "\<dots> \<le> 2 powi (?k + 1) * of_int q" using Q(1) by (simp add: mult_left_mono)
    finally show ?thesis using q by (simp add: x divide_less_eq)
  qed
  moreover have "2 powi (?k - 1) \<le> x"
  proof -
    have "2 powi (?k - 1) * rat_of_int q \<le> 2 powi (?k - 1) * 2 powi (bitlen q)"
      using Q(2) by (simp add: mult_left_mono)
    also have "\<dots> = 2 powi (bitlen p - 1)" by (simp flip: powi_two_add)
    also have "\<dots> \<le> (of_int p :: rat)" by (rule P(1))
    finally show ?thesis using q by (simp add: x le_divide_eq)
  qed
  ultimately show "2 powi (ilog2 x) \<le> x" "x < 2 powi (ilog2 x + 1)"
    by (auto simp: ilog2_def pq Let_def)
qed

lemma ilog2_mono:
  assumes "0 < x" "x \<le> y"
  shows "ilog2 x \<le> ilog2 y"
proof -
  have "(2::rat) powi (ilog2 x) < 2 powi (ilog2 y + 1)"
    using ilog2_bounds[of x] ilog2_bounds[of y] assms by linarith
  then show ?thesis by (simp add: powi_two_less_iff)
qed

section \<open>Rounding to binary64\<close>

definition ulp :: "rat \<Rightarrow> rat" where
  "ulp x = 2 powi (ilog2 \<bar>x\<bar> - 52)"

definition fl :: "rat \<Rightarrow> float64" where
  "fl x = (if x = 0 then 0 else of_int (rhe (x / ulp x)) * ulp x)"

lemma ulp_pos [simp]: "0 < ulp x"
  by (simp add: ulp_def)

lemma ulp_nonzero [simp]: "ulp x \<noteq> 0"
  using ulp_pos[of x] by linarith

lemma ulp_nonneg [simp]: "0 \<le> ulp x"
  using ulp_pos[of x] by linarith

lemma fl_zero [simp]: "fl 0 = 0"
  by (simp add: fl_def)

lemma fl_error:
  "\<bar>fl x - x\<bar> \<le> \<bar>x\<bar> * 2 powi (-53)"
proof (cases "x = 0")
  case False
  have "x = (x / ulp x) * ulp x" by simp
  then have "fl x - x = (of_int (rhe (x / ulp x)) - x / ulp x) * ulp x"
    using False by (simp add: fl_def left_diff_distrib)
  then have "\<bar>fl x - x\<bar> = \<bar>of_int (rhe (x / ulp x)) - x / ulp x\<bar> * ulp x"
    by (simp add: abs_mult abs_of_pos)
  also have "\<dots> \<le> 1/2 * ulp x" using rhe_error by (simp add: mult_right_mono)
  also have "\<dots> = 2 powi (ilog2 \<bar>x\<bar>) * 2 powi (-53)"
    by (simp add: ulp_def power_int_diff power_int_minus)
  also have "\<dots> \<le> \<bar>x\<bar> * 2 powi (-53)"
    using ilog2_bounds(1)[of "\<bar>x\<bar>"] False by (simp add: mult_right_mono)
  finally show ?thesis .
qed simp

text \<open>A value of at most 53 significant bits is a float.\<close>

lemma fl_exact:
  assumes k: "\<bar>k\<bar> \<le> 2 ^ 53"
  shows "fl (of_int k * 2 powi j) = of_int k * 2 powi j"
proof (cases "k = 0")
  case False
  define x where "x = (of_int k * 2 powi j :: rat)"
  define e where "e = ilog2 \<bar>x\<bar>"
  have x0: "x \<noteq> 0" using False by (simp add: x_def)
  have ax: "\<bar>x\<bar> = of_int \<bar>k\<bar> * 2 powi j" by (simp add: x_def abs_mult)
  have "\<exists>m::int. x / ulp x = of_int m"
  proof (cases "\<bar>k\<bar> = 2 ^ 53")
    case True
    then have "\<bar>x\<bar> = 2 powi (53 + j)" by (simp add: ax powi_two_add)
    moreover have "2 powi e \<le> \<bar>x\<bar>" "\<bar>x\<bar> < 2 powi (e + 1)"
      using ilog2_bounds[of "\<bar>x\<bar>"] x0 by (auto simp: e_def)
    ultimately have "e = 53 + j" by (simp add: powi_two_less_iff powi_two_le_iff)
    then have "ulp x = 2 powi (j + 1)" by (simp add: ulp_def e_def algebra_simps)
    then have "ulp x = 2 powi j * 2" by (simp add: powi_two_add)
    moreover have "k = 2 * (sgn k * 2 ^ 52)" using True by (auto simp: sgn_if abs_if split: if_splits)
    then have "(of_int k :: rat) = 2 * of_int (sgn k * 2 ^ 52)"
      by (metis of_int_mult of_int_numeral)
    ultimately have "x / ulp x = of_int (sgn k * 2 ^ 52)" by (simp add: x_def)
    then show ?thesis by blast
  next
    case False
    with k have "(of_int \<bar>k\<bar> :: rat) < of_int (2 ^ 53)" by (simp only: of_int_less_iff)
    then have "\<bar>x\<bar> < 2 ^ 53 * 2 powi j" by (simp add: ax)
    also have "\<dots> = 2 powi (53 + j)" by (simp add: powi_two_add)
    finally have "2 powi e < (2::rat) powi (53 + j)"
      using ilog2_bounds(1)[of "\<bar>x\<bar>"] x0 by (simp add: e_def)
    then have "0 \<le> j - (e - 52)" by (simp add: powi_two_less_iff)
    then obtain n :: nat where n: "j = (e - 52) + int n" by (metis add.commute diff_add_cancel nonneg_int_cases)
    have "ulp x = 2 powi (e - 52)" by (simp add: ulp_def e_def)
    then have "x = of_int (k * 2 ^ n) * ulp x" by (simp add: x_def n powi_two_add)
    then show ?thesis by (metis ulp_nonzero nonzero_mult_div_cancel_right)
  qed
  then have "fl x = x" using x0 by (auto simp: fl_def) (metis ulp_nonzero nonzero_eq_divide_eq)
  then show ?thesis by (simp add: x_def)
qed simp

lemma fl_of_int: "\<bar>k\<bar> \<le> 2 ^ 53 \<Longrightarrow> fl (of_int k) = of_int k"
  using fl_exact[of k 0] by simp

lemma rhe_scaled_bound:
  assumes "x \<noteq> 0"
  shows "\<bar>rhe (x / ulp x)\<bar> \<le> 2 ^ 53"
proof -
  have "\<bar>x\<bar> < 2 powi (ilog2 \<bar>x\<bar> + 1)" using ilog2_bounds(2)[of "\<bar>x\<bar>"] assms by simp
  also have "\<dots> = of_int (2 ^ 53) * ulp x" 
  proof -
    have "(2::rat) powi (ilog2 \<bar>x\<bar> + 1) = 2 powi (53 + (ilog2 \<bar>x\<bar> - 52))"
      by (simp add: add.commute)
    also have "\<dots> = 2 powi 53 * ulp x" by (simp only: powi_two_add ulp_def)
    finally show ?thesis by simp
  qed
  finally have "\<bar>x / ulp x\<bar> < of_int (2 ^ 53)" by (simp add: abs_div_pos[symmetric] divide_less_eq)
  then have "x / ulp x \<le> of_int (2 ^ 53)" "of_int (- (2 ^ 53)) \<le> x / ulp x"
    unfolding of_int_minus by linarith+
  then have "rhe (x / ulp x) \<le> rhe (of_int (2 ^ 53))" "rhe (of_int (- (2 ^ 53))) \<le> rhe (x / ulp x)"
    by (blast intro: rhe_mono)+
  then show ?thesis unfolding rhe_of_int by linarith
qed

text \<open>Rounding a positive number stays within its binade.\<close>

lemma fl_binade:
  assumes "0 < x"
  shows "2 powi (ilog2 x) \<le> fl x" "fl x \<le> 2 powi (ilog2 x + 1)"
proof -
  let ?e = "ilog2 x"
  have u: "ulp x = 2 powi (?e - 52)" using assms by (simp add: ulp_def)
  have lo: "(2::rat) powi ?e = of_int (2 ^ 52) * ulp x"
    by (simp add: u power_int_diff)
  have hi: "(2::rat) powi (?e + 1) = of_int (2 ^ 53) * ulp x"
    by (simp add: u power_int_diff power_int_add)
  have "of_int (2 ^ 52) \<le> x / ulp x" "x / ulp x \<le> of_int (2 ^ 53)"
    using ilog2_bounds[OF assms] unfolding lo hi by (simp_all add: le_divide_eq divide_le_eq)
  then have "rhe (of_int (2 ^ 52)) \<le> rhe (x / ulp x)" "rhe (x / ulp x) \<le> rhe (of_int (2 ^ 53))"
    by (blast intro: rhe_mono)+
  then have "of_int (2 ^ 52) \<le> rat_of_int (rhe (x / ulp x))"
    "rat_of_int (rhe (x / ulp x)) \<le> of_int (2 ^ 53)"
    by (simp_all only: rhe_of_int of_int_le_iff)
  then show "2 powi ?e \<le> fl x" "fl x \<le> 2 powi (?e + 1)"
    using assms unfolding lo hi by (simp_all add: fl_def)
qed

lemma rhe_minus: "rhe (- x) = - rhe x"
proof (cases "x = of_int \<lfloor>x\<rfloor>")
  case True
  then show ?thesis by (metis of_int_minus rhe_of_int)
next
  case False
  then have "\<lfloor>- x\<rfloor> = - \<lfloor>x\<rfloor> - 1" by linarith
  then show ?thesis by (auto simp: rhe_def Let_def)
qed

lemma fl_minus: "fl (- x) = - fl x"
  by (simp add: fl_def ulp_def rhe_minus)

lemma fl_pos_mono:
  assumes "0 < x" "x \<le> y"
  shows "fl x \<le> fl y"
proof (cases "ilog2 x = ilog2 y")
  case True
  then have "ulp x = ulp y" using assms by (simp add: ulp_def)
  moreover have "x / ulp y \<le> y / ulp y" using assms by (intro divide_right_mono) auto
  ultimately show ?thesis using assms by (simp add: fl_def rhe_mono mult_right_mono)
next
  case False
  with ilog2_mono[OF assms] have "ilog2 x + 1 \<le> ilog2 y" by simp
  then have "(2::rat) powi (ilog2 x + 1) \<le> 2 powi (ilog2 y)" by (rule powi_two_le)
  with fl_binade(2)[of x] fl_binade(1)[of y] assms show ?thesis by linarith
qed

lemma fl_nonneg: "0 \<le> x \<Longrightarrow> 0 \<le> fl x"
proof (cases "x = 0")
  case False
  assume "0 \<le> x"
  with False have "2 powi ilog2 x \<le> fl x" by (intro fl_binade) simp
  with powi_two_pos[of "ilog2 x"] show ?thesis by linarith
qed simp

lemma fl_pos: "0 < x \<Longrightarrow> 0 < fl x"
  using fl_binade(1)[of x] powi_two_pos[of "ilog2 x"] by linarith

lemma fl_mono:
  assumes "x \<le> y"
  shows "fl x \<le> fl y"
proof -
  consider "0 < x" | "x \<le> 0" "0 \<le> y" | "y < 0" by linarith
  then show ?thesis
  proof cases
    case 1
    then show ?thesis using assms by (rule fl_pos_mono)
  next
    case 2
    then show ?thesis using fl_nonneg[of "- x"] fl_nonneg[of y] by (simp add: fl_minus)
  next
    case 3
    then show ?thesis using fl_pos_mono[of "- y" "- x"] assms by (simp add: fl_minus)
  qed
qed

lemma fl_fl [simp]: "fl (fl x) = fl x"
  using fl_exact[OF rhe_scaled_bound, of x] by (cases "x = 0") (auto simp: fl_def ulp_def)

section \<open>Arithmetic\<close>

definition fadd :: "float64 \<Rightarrow> float64 \<Rightarrow> float64" where
  "fadd x y = fl (x + y)"

definition fsub :: "float64 \<Rightarrow> float64 \<Rightarrow> float64" where
  "fsub x y = fl (x - y)"

lemma fsub_pos: "b < a \<Longrightarrow> 0 < fsub a b"
  by (simp add: fsub_def fl_pos)

text \<open>\<open>a / b\<close> on two integers or floats raises on a zero divisor.\<close>

definition fdiv :: "rat \<Rightarrow> rat \<Rightarrow> float64 res" where
  "fdiv x y = (if y = 0 then Inl ZeroDivisionError else Inr (fl (x / y)))"

definition is_float :: "rat \<Rightarrow> bool" where
  "is_float x \<longleftrightarrow> fl x = x"

lemma is_float_ops [simp]: "is_float (fl x)" "is_float (fadd x y)" "is_float (fsub x y)"
  by (simp_all add: is_float_def fadd_def fsub_def)

lemma is_float_0 [simp]: "is_float 0"
  by (simp add: is_float_def)

lemma fadd_mono: "a \<le> b \<Longrightarrow> fadd a c \<le> fadd b c"
  by (simp add: fadd_def fl_mono)

lemma fadd_ge: "is_float a \<Longrightarrow> 0 \<le> c \<Longrightarrow> a \<le> fadd a c"
  using fl_mono[of a "a + c"] by (simp add: fadd_def is_float_def)

text \<open>
  \<open>math.ceil(n / b)\<close> is the exact ceiling for every count below \<open>2 ^ 53\<close>: the rounded quotient
  can neither pass the next integer nor fall to the previous one.
\<close>

lemma ceiling_fl_divide:
  assumes n: "0 \<le> n" "n < 2 ^ 53" and b: "0 < b"
  shows "\<lceil>fl (of_int n / of_int b)\<rceil> = \<lceil>rat_of_int n / of_int b\<rceil>"
proof -
  define x where "x = rat_of_int n / of_int b"
  define q where "q = \<lceil>x\<rceil>"
  have x0: "0 \<le> x" using n b by (simp add: x_def)
  have "x \<le> of_int n" using n b by (simp add: x_def divide_le_eq mult_le_cancel_left1 flip: of_int_0_le_iff)
  then have q53: "0 \<le> q" "q \<le> 2 ^ 53" using n x0 by (auto simp: q_def ceiling_le_iff)
  have hi: "fl x \<le> of_int q"
  proof -
    have "fl x \<le> fl (of_int q)" by (rule fl_mono) (simp add: q_def)
    then show ?thesis using q53 by (simp add: fl_of_int)
  qed
  have lo: "of_int (q - 1) < fl x"
  proof (cases "n = 0")
    case True
    then show ?thesis by (simp add: x_def q_def)
  next
    case False
    have "of_int (q - 1) < x" unfolding q_def by linarith
    then have "of_int (q - 1) * rat_of_int b < of_int n" using b by (simp add: x_def less_divide_eq)
    then have "(q - 1) * b < n" by (metis of_int_less_iff of_int_mult)
    then have "rat_of_int ((q - 1) * b + 1) \<le> of_int n" by (simp only: of_int_le_iff)
    then have "(of_int (q - 1) + 1 / of_int b) * rat_of_int b \<le> of_int n"
      using b by (simp add: distrib_right)
    then have step: "of_int (q - 1) + 1 / of_int b \<le> x" using b by (simp add: x_def le_divide_eq)
    have "rat_of_int n < of_int (2 ^ 53)" using n by (simp only: of_int_less_iff)
    then have "x * 2 powi (-53) < 1 / of_int b"
      using b by (simp add: x_def power_int_minus field_simps)
    moreover have "x - x * 2 powi (-53) \<le> fl x" 
      using fl_error[of x] unfolding abs_of_nonneg[OF x0] by linarith
    ultimately show ?thesis using step by linarith
  qed
  from hi lo have "\<lceil>fl x\<rceil> = q" by (simp add: ceiling_eq_iff)
  then show ?thesis by (simp add: x_def q_def)
qed

end
