(* ===== verification/KV_Cache.thy ===== *)
theory KV_Cache
  imports TS_Float
begin

text \<open>
  The logical KV-cache accounting of \<^verbatim>\<open>tinyserve/kv_cache/manager.py\<close> and its only client for
  reservations, the admission controller of \<^verbatim>\<open>tinyserve/admission/controller.py\<close>. The state is the
  record \<open>kv_cache_manager\<close> with the four attributes of the class; each method is one definition.
  \<open>kv_inv\<close> is the accounting invariant: free and reserved blocks add up to the total.
  The lemmas show that every operation keeps it, what each branch returns, that a reservation
  always covers its tokens and that all reservations together fit the token budget.
\<close>

section \<open>KVCacheManager\<close>

record kv_cache_manager =
  block_size :: int
  total_blocks_f :: int
  free_blocks :: int
  block_table :: "(string, int) dict"

definition kv_init :: "int \<Rightarrow> int \<Rightarrow> kv_cache_manager res" where
  "kv_init total_tokens bs =
     (if bs = 0 then Inl ZeroDivisionError
      else Inr \<lparr>block_size = bs, total_blocks_f = total_tokens div bs,
                free_blocks = total_tokens div bs, block_table = []\<rparr>)"

definition blocks_needed :: "kv_cache_manager \<Rightarrow> int \<Rightarrow> int res" where
  "blocks_needed kv n_tokens =
     res_bind (fdiv (of_int n_tokens) (of_int (block_size kv))) (\<lambda>q. Inr \<lceil>q\<rceil>)"

definition reserve :: "string \<Rightarrow> int \<Rightarrow> kv_cache_manager \<Rightarrow> (bool \<times> kv_cache_manager) res" where
  "reserve seq_id n_tokens kv =
     (if seq_id \<in> set (keys (block_table kv)) then Inl ValueError
      else res_bind (blocks_needed kv n_tokens) (\<lambda>needed.
        if needed > free_blocks kv then Inr (False, kv)
        else Inr (True, kv\<lparr>free_blocks := free_blocks kv - needed,
                          block_table := dict_set seq_id needed (block_table kv)\<rparr>)))"

definition release :: "string \<Rightarrow> kv_cache_manager \<Rightarrow> kv_cache_manager" where
  "release seq_id kv =
     (case dict_get (block_table kv) seq_id of
        None \<Rightarrow> kv
      | Some blocks \<Rightarrow> kv\<lparr>block_table := dict_del seq_id (block_table kv),
                         free_blocks := free_blocks kv + blocks\<rparr>)"

definition available_blocks :: "kv_cache_manager \<Rightarrow> int" where
  "available_blocks kv = free_blocks kv"

definition total_blocks :: "kv_cache_manager \<Rightarrow> int" where
  "total_blocks kv = total_blocks_f kv"

section \<open>The accounting invariant\<close>

definition kv_inv :: "kv_cache_manager \<Rightarrow> bool" where
  "kv_inv kv \<longleftrightarrow> 0 < block_size kv \<and> 0 \<le> free_blocks kv \<and> dict_wf (block_table kv)
     \<and> (\<forall>e \<in> set (block_table kv). 0 \<le> snd e)
     \<and> free_blocks kv + (\<Sum>e\<leftarrow>block_table kv. snd e) = total_blocks_f kv"

text \<open>The number of blocks that cover \<open>n\<close> tokens.\<close>

definition cover :: "int \<Rightarrow> int \<Rightarrow> int" where
  "cover bs n = (n + bs - 1) div bs"

lemma cover_bounds:
  assumes "0 < bs"
  shows "n \<le> bs * cover bs n" "bs * cover bs n < n + bs"
proof -
  have "bs * cover bs n + (n + bs - 1) mod bs = n + bs - 1" by (simp add: cover_def)
  moreover have "0 \<le> (n + bs - 1) mod bs" "(n + bs - 1) mod bs < bs" using assms by auto
  ultimately show "n \<le> bs * cover bs n" "bs * cover bs n < n + bs" by linarith+
qed

lemma cover_ceiling:
  assumes "0 < bs"
  shows "\<lceil>rat_of_int n / of_int bs\<rceil> = cover bs n"
proof -
  have "rat_of_int n \<le> of_int (bs * cover bs n)" "rat_of_int (bs * (cover bs n - 1)) < of_int n"
    using cover_bounds[OF assms, of n] by (simp_all only: of_int_le_iff of_int_less_iff)
      (simp_all add: algebra_simps)
  then have "rat_of_int n / of_int bs \<le> of_int (cover bs n)"
    "of_int (cover bs n) - 1 < rat_of_int n / of_int bs"
    using assms by (simp_all add: divide_le_eq less_divide_eq mult.commute)
  then show ?thesis by (simp add: ceiling_eq_iff)
qed

lemma less_cover_iff:
  assumes "0 < bs"
  shows "k * bs < n \<longleftrightarrow> k < cover bs n"
proof
  assume "k * bs < n"
  then have "bs * k < bs * cover bs n" using cover_bounds(1)[OF assms, of n] by (simp add: mult.commute)
  then show "k < cover bs n" using assms by simp
next
  assume "k < cover bs n"
  then have "bs * k \<le> bs * (cover bs n - 1)" using assms by simp
  also have "\<dots> < n" using cover_bounds(2)[OF assms, of n] by (simp add: algebra_simps)
  finally show "k * bs < n" by (simp add: mult.commute)
qed

lemma cover_nonneg: "0 < bs \<Longrightarrow> 0 \<le> n \<Longrightarrow> 0 \<le> cover bs n"
  by (simp add: cover_def pos_imp_zdiv_nonneg_iff)

text \<open>The counts the accounting handles: non-negative and exactly representable.\<close>

abbreviation token_count :: "int \<Rightarrow> bool" where
  "token_count n \<equiv> 0 \<le> n \<and> n < 2 ^ 53"

lemma blocks_needed_cover:
  assumes "0 < block_size kv" "token_count n"
  shows "blocks_needed kv n = Inr (cover (block_size kv) n)"
  using assms by (simp add: blocks_needed_def fdiv_def ceiling_fl_divide cover_ceiling)

lemma kv_invD:
  assumes "kv_inv kv"
  shows "0 < block_size kv" "0 \<le> free_blocks kv" "dict_wf (block_table kv)"
    "e \<in> set (block_table kv) \<Longrightarrow> 0 \<le> snd e"
    "free_blocks kv + (\<Sum>e\<leftarrow>block_table kv. snd e) = total_blocks_f kv"
  using assms by (auto simp: kv_inv_def)

lemma kv_init_inv:
  assumes "0 < bs" "0 \<le> n" "kv_init n bs = Inr kv"
  shows "kv_inv kv" "block_table kv = []" "block_size kv = bs" "total_blocks_f kv = n div bs"
  using assms by (auto simp: kv_init_def kv_inv_def pos_imp_zdiv_nonneg_iff split: if_splits)

text \<open>
  A count too large to be exact as a float is rejected all the same when the whole cache is smaller:
  rounding is monotone.
\<close>

lemma blocks_needed_exceeds:
  assumes "kv_inv kv" "total_blocks_f kv * block_size kv < 2 ^ 53 - 1" "0 \<le> n"
  shows "\<exists>k. blocks_needed kv n = Inr k \<and> (k > free_blocks kv \<longleftrightarrow> cover (block_size kv) n > free_blocks kv)
     \<and> (k \<le> free_blocks kv \<longrightarrow> k = cover (block_size kv) n)"
proof (cases "n < 2 ^ 53")
  case True
  with assms show ?thesis by (simp add: blocks_needed_cover kv_invD(1))
next
  case False
  let ?bs = "block_size kv" and ?free = "free_blocks kv"
  have b: "0 < ?bs" by (rule kv_invD(1)[OF assms(1)])
  have "0 \<le> (\<Sum>e\<leftarrow>block_table kv. snd e)" using kv_invD(4)[OF assms(1)] by (intro sum_list_nonneg) auto
  then have "?free \<le> total_blocks_f kv" using kv_invD(5)[OF assms(1)] by linarith
  then have "?free * ?bs \<le> total_blocks_f kv * ?bs" using b by (intro mult_right_mono) auto
  then have lim: "?free * ?bs < 2 ^ 53 - 1" using assms(2) by linarith
  have "rat_of_int (2 ^ 53 - 1) \<le> of_int n" unfolding of_int_le_iff using False by simp
  then have "rat_of_int (2 ^ 53 - 1) / of_int ?bs \<le> of_int n / of_int ?bs" using b by (intro divide_right_mono) simp_all
  then have "\<lceil>fl (rat_of_int (2 ^ 53 - 1) / of_int ?bs)\<rceil> \<le> \<lceil>fl (of_int n / of_int ?bs)\<rceil>" by (intro ceiling_mono fl_mono)
  moreover have "\<lceil>fl (rat_of_int (2 ^ 53 - 1) / of_int ?bs)\<rceil> = cover ?bs (2 ^ 53 - 1)"
    using ceiling_fl_divide[of "2 ^ 53 - 1" ?bs] b cover_ceiling[OF b, of "2 ^ 53 - 1"] by simp
  moreover have "?free < cover ?bs (2 ^ 53 - 1)" using less_cover_iff[OF b, of ?free "2 ^ 53 - 1"] lim by simp
  moreover have "?free < cover ?bs n" using less_cover_iff[OF b, of ?free n] lim False by simp
  ultimately show ?thesis using b by (simp add: blocks_needed_def fdiv_def)
qed

lemma reserve_duplicate:
  "s \<in> set (keys (block_table kv)) \<Longrightarrow> reserve s n kv = Inl ValueError"
  by (simp add: reserve_def)

lemma reserve_eq:
  assumes "kv_inv kv" "token_count n" "s \<notin> set (keys (block_table kv))"
  shows "reserve s n kv =
     (if cover (block_size kv) n > free_blocks kv then Inr (False, kv)
      else Inr (True, kv\<lparr>free_blocks := free_blocks kv - cover (block_size kv) n,
                        block_table := block_table kv @ [(s, cover (block_size kv) n)]\<rparr>))"
  using assms by (simp add: reserve_def blocks_needed_cover kv_invD keys_set_new)

lemma reserve_bounded:
  assumes "kv_inv kv" "total_blocks_f kv * block_size kv < 2 ^ 53 - 1" "0 \<le> n" "s \<notin> set (keys (block_table kv))"
  shows "reserve s n kv =
     (if cover (block_size kv) n > free_blocks kv then Inr (False, kv)
      else Inr (True, kv\<lparr>free_blocks := free_blocks kv - cover (block_size kv) n,
                        block_table := block_table kv @ [(s, cover (block_size kv) n)]\<rparr>))"
  using blocks_needed_exceeds[OF assms(1-3)] assms(4) by (auto simp: reserve_def keys_set_new)

lemma reserve_inv:
  assumes inv: "kv_inv kv" and n: "token_count n" and r: "reserve s n kv = Inr (ok, kv')"
  shows "kv_inv kv'"
proof -
  have new: "s \<notin> set (keys (block_table kv))" using r reserve_duplicate by fastforce
  have "0 \<le> cover (block_size kv) n" using inv n by (simp add: cover_nonneg kv_invD)
  with inv r new show ?thesis
    unfolding reserve_eq[OF inv n new] by (auto simp: kv_inv_def dict_wf_def split: if_splits)
qed

lemma reserve_static:
  "reserve s n kv = Inr (ok, kv') \<Longrightarrow> block_size kv' = block_size kv \<and> total_blocks_f kv' = total_blocks_f kv"
  by (auto simp: reserve_def res_bind_eq_Inr split: if_splits)

lemma release_static:
  "block_size (release s kv) = block_size kv" "total_blocks_f (release s kv) = total_blocks_f kv"
  by (auto simp: release_def split: option.splits)

lemma release_table: "block_table (release s kv) = dict_del s (block_table kv)"
proof (cases "dict_get (block_table kv) s")
  case None
  then have "dict_del s (block_table kv) = block_table kv" by (auto simp: dict_get_eq_None)
  with None show ?thesis by (simp add: release_def)
qed (simp add: release_def)

lemma release_free:
  assumes "dict_get (block_table kv) s = Some b"
  shows "free_blocks (release s kv) = free_blocks kv + b"
  using assms by (simp add: release_def)

lemma release_inv:
  assumes "kv_inv kv"
  shows "kv_inv (release s kv)"
proof (cases "dict_get (block_table kv) s")
  case None
  with assms show ?thesis by (simp add: release_def)
next
  case (Some b)
  have "(\<Sum>e\<leftarrow>block_table kv. snd e) = b + (\<Sum>e\<leftarrow>dict_del s (block_table kv). snd e)"
    by (rule sum_list_dict_del[where f = "\<lambda>x. x", OF kv_invD(3)[OF assms] Some])
  moreover have "0 \<le> b" using kv_invD(4)[OF assms dict_getD[OF Some]] by simp
  ultimately show ?thesis
    using assms Some by (auto simp: kv_inv_def release_def set_dict_del)
qed

lemma release_reserve:
  assumes "kv_inv kv" "token_count n" "reserve s n kv = Inr (True, kv')"
  shows "release s kv' = kv"
proof -
  have new: "s \<notin> set (keys (block_table kv))" using assms(3) reserve_duplicate by fastforce
  then have "dict_get (block_table kv) s = None" by (simp add: dict_get_eq_None)
  moreover have "dict_del s (block_table kv) = block_table kv" using new by simp
  ultimately show ?thesis using assms new
    by (auto simp: reserve_eq release_def map_add_def AList.delete_eq split: if_splits)
qed

text \<open>All reservations together stay inside the token budget.\<close>

lemma reserved_le_total: "kv_inv kv \<Longrightarrow> (\<Sum>e\<leftarrow>block_table kv. snd e) \<le> total_blocks_f kv"
  using kv_invD(2,5)[of kv] by linarith

section \<open>AdmissionController\<close>

record admission_result =
  accepted :: bool
  reason :: "string option"

definition admit_request ::
  "int \<Rightarrow> string \<Rightarrow> int \<Rightarrow> int \<Rightarrow> int \<Rightarrow> kv_cache_manager
     \<Rightarrow> (admission_result \<times> kv_cache_manager) res" where
  "admit_request max_queue_depth seq_id prompt_tokens max_tokens queue_depth kv =
     (if queue_depth \<ge> max_queue_depth
      then Inr (\<lparr>accepted = False, reason = Some ''queue_full''\<rparr>, kv)
      else let worst_case_tokens = prompt_tokens + max_tokens in
        res_bind (reserve seq_id worst_case_tokens kv) (\<lambda>(ok, kv').
          if ok then Inr (\<lparr>accepted = True, reason = None\<rparr>, kv')
          else Inr (\<lparr>accepted = False, reason = Some ''kv_cache_full''\<rparr>, kv')))"

lemma admit_request_cases:
  assumes "kv_inv kv" "token_count (p + m)" "s \<notin> set (keys (block_table kv))"
  shows "admit_request mx s p m d kv =
     (if mx \<le> d then Inr (\<lparr>accepted = False, reason = Some ''queue_full''\<rparr>, kv)
      else if cover (block_size kv) (p + m) > free_blocks kv
        then Inr (\<lparr>accepted = False, reason = Some ''kv_cache_full''\<rparr>, kv)
      else Inr (\<lparr>accepted = True, reason = None\<rparr>,
        kv\<lparr>free_blocks := free_blocks kv - cover (block_size kv) (p + m),
           block_table := block_table kv @ [(s, cover (block_size kv) (p + m))]\<rparr>))"
  using assms by (simp add: admit_request_def reserve_eq Let_def)

lemma admit_request_inv:
  assumes "kv_inv kv" "token_count (p + m)" "admit_request mx s p m d kv = Inr (r, kv')"
  shows "kv_inv kv'"
proof -
  have "kv' = kv \<or> (\<exists>ok. reserve s (p + m) kv = Inr (ok, kv'))"
    using assms(3) by (auto simp: admit_request_def Let_def res_bind_eq_Inr split: if_splits)
  then show ?thesis using assms reserve_inv by auto
qed

section \<open>Properties\<close>

text \<open>Histories of calls: a call that raises leaves the manager as it was.\<close>

datatype kv_call = CallReserve string int | CallRelease string

fun kv_call_step :: "kv_call \<Rightarrow> kv_cache_manager \<Rightarrow> kv_cache_manager" where
  "kv_call_step (CallReserve s n) kv = (case reserve s n kv of Inl _ \<Rightarrow> kv | Inr (_, kv') \<Rightarrow> kv')"
| "kv_call_step (CallRelease s) kv = release s kv"

fun kv_call_ok :: "kv_call \<Rightarrow> bool" where
  "kv_call_ok (CallReserve s n) = token_count n"
| "kv_call_ok (CallRelease s) = True"

lemma kv_call_step_inv:
  assumes "kv_inv kv" "kv_call_ok x"
  shows "kv_inv (kv_call_step x kv) \<and> block_size (kv_call_step x kv) = block_size kv
     \<and> total_blocks_f (kv_call_step x kv) = total_blocks_f kv"
  using assms by (cases x) (auto split: sum.split simp: reserve_inv release_inv release_static dest: reserve_static)

lemma kv_run_inv:
  assumes "kv_inv kv" "list_all kv_call_ok xs"
  shows "kv_inv (fold kv_call_step xs kv) \<and> block_size (fold kv_call_step xs kv) = block_size kv
     \<and> total_blocks_f (fold kv_call_step xs kv) = total_blocks_f kv"
  using assms
proof (induction xs arbitrary: kv)
  case (Cons x xs)
  with kv_call_step_inv[OF Cons.prems(1), of x] Cons.IH[of "kv_call_step x kv"] show ?case by simp
qed simp

text \<open>
  C22. Accounting. After any history of \<open>reserve\<close> and \<open>release\<close> calls, failed and raising ones
  included, the free count is between zero and the total, free and reserved blocks add up to the
  total, and all reservations together stay inside the token budget the manager was built for.
\<close>

theorem kv_accounting:
  assumes "kv_init n bs = Inr kv0" "0 < bs" "0 \<le> n" "list_all kv_call_ok xs"
    and "kv = fold kv_call_step xs kv0"
  shows "0 \<le> available_blocks kv \<and> available_blocks kv \<le> total_blocks kv
     \<and> available_blocks kv + (\<Sum>e\<leftarrow>block_table kv. snd e) = n div bs
     \<and> bs * (\<Sum>e\<leftarrow>block_table kv. snd e) \<le> n"
proof -
  note I = kv_init_inv[OF assms(2,3,1)]
  have inv: "kv_inv kv" and tot: "total_blocks_f kv = n div bs"
    using kv_run_inv[OF I(1) assms(4)] I(4) assms(5) by auto
  have nn: "0 \<le> (\<Sum>e\<leftarrow>block_table kv. snd e)" using kv_invD(4)[OF inv] by (intro sum_list_nonneg) auto
  have "bs * (\<Sum>e\<leftarrow>block_table kv. snd e) \<le> bs * (n div bs)"
    using reserved_le_total[OF inv] tot assms(2) by simp
  also have "\<dots> \<le> n" using mult_div_mod_eq[of bs n] pos_mod_sign[OF assms(2), of n] by linarith
  finally show ?thesis using kv_invD(2,5)[OF inv] tot nn by (simp add: available_blocks_def total_blocks_def)
qed

theorem kv_accounting_witness:
  "\<exists>kv0. kv_init 64 16 = Inr kv0 \<and>
     available_blocks (fold kv_call_step [CallReserve ''a'' 20, CallReserve ''b'' 60, CallRelease ''a''] kv0) \<le> 4"
proof -
  obtain kv0 where k: "kv_init 64 16 = Inr kv0" by (simp add: kv_init_def)
  let ?xs = "[CallReserve ''a'' 20, CallReserve ''b'' 60, CallRelease ''a'']"
  have "list_all kv_call_ok ?xs" by simp
  from kv_accounting[OF k _ _ this refl] have
    "available_blocks (fold kv_call_step ?xs kv0) \<le> total_blocks (fold kv_call_step ?xs kv0)" by simp
  moreover have "total_blocks (fold kv_call_step ?xs kv0) = 4"
    using kv_run_inv[OF kv_init_inv(1)[OF _ _ k] \<open>list_all kv_call_ok ?xs\<close>] kv_init_inv(4)[OF _ _ k]
    by (simp add: total_blocks_def del: fold.simps)
  ultimately show ?thesis using k by auto
qed

text \<open>
  \<open>_blocks_needed\<close> goes through floating-point division and \<open>math.ceil\<close>. For every count below
  \<open>2 ^ 53\<close> the result is the exact integer ceiling: the blocks cover the tokens, and one block less
  would not.
\<close>

theorem blocks_needed_exact:
  assumes "0 < block_size kv" "0 \<le> n" "n < 2 ^ 53"
  shows "\<exists>k. blocks_needed kv n = Inr k \<and> n \<le> k * block_size kv \<and> (k - 1) * block_size kv < n"
  using blocks_needed_cover[OF assms(1)] cover_bounds[OF assms(1), of n] assms(2,3)
  by (simp add: algebra_simps)

theorem blocks_needed_exact_witness:
  "\<exists>k. blocks_needed \<lparr>block_size = 16, total_blocks_f = 4, free_blocks = 4, block_table = []\<rparr> 33 = Inr k
     \<and> 33 \<le> k * 16 \<and> (k - 1) * 16 < 33"
  using blocks_needed_exact[of "\<lparr>block_size = 16, total_blocks_f = 4, free_blocks = 4, block_table = []\<rparr>" 33]
  by simp

text \<open>
  The admission decision, branch by branch: a full queue rejects before any reservation is
  tried, a shortage of blocks rejects and changes nothing, and otherwise exactly the blocks that
  cover prompt plus completion are reserved under the request's identifier.
\<close>

theorem admission_decision:
  assumes "kv_inv kv" "0 \<le> p + m" "p + m < 2 ^ 53" "s \<notin> set (keys (block_table kv))"
  shows "admit_request mx s p m d kv =
     (if mx \<le> d then Inr (\<lparr>accepted = False, reason = Some ''queue_full''\<rparr>, kv)
      else if free_blocks kv * block_size kv < p + m
        then Inr (\<lparr>accepted = False, reason = Some ''kv_cache_full''\<rparr>, kv)
      else Inr (\<lparr>accepted = True, reason = None\<rparr>,
        kv\<lparr>free_blocks := free_blocks kv - cover (block_size kv) (p + m),
           block_table := block_table kv @ [(s, cover (block_size kv) (p + m))]\<rparr>))"
proof -
  have "free_blocks kv * block_size kv < p + m \<longleftrightarrow> free_blocks kv < cover (block_size kv) (p + m)"
    by (rule less_cover_iff[OF kv_invD(1)[OF assms(1)]])
  with admit_request_cases[OF assms(1) _ assms(4), of p m mx d] assms(2,3) show ?thesis by simp
qed

theorem admission_decision_witness:
  "admit_request 8 ''r'' 20 13 0 \<lparr>block_size = 16, total_blocks_f = 2, free_blocks = 2, block_table = []\<rparr>
     = Inr (\<lparr>accepted = False, reason = Some ''kv_cache_full''\<rparr>,
            \<lparr>block_size = 16, total_blocks_f = 2, free_blocks = 2, block_table = []\<rparr>)"
  using admission_decision[of "\<lparr>block_size = 16, total_blocks_f = 2, free_blocks = 2, block_table = []\<rparr>" 20 13 "''r''" 8 0]
  by (simp add: kv_inv_def)

text \<open>
  Releasing a successful reservation gives back exactly the state before it, and releasing a
  second time changes nothing.
\<close>

theorem release_undoes_reserve:
  assumes "kv_inv kv" "0 \<le> n" "n < 2 ^ 53" "reserve s n kv = Inr (True, kv')"
  shows "release s kv' = kv \<and> release s (release s kv') = kv"
proof -
  have "s \<notin> set (keys (block_table kv))" using assms(4) reserve_duplicate by fastforce
  then have "release s kv = kv" by (simp add: release_def dict_get_eq_None [THEN iffD2])
  with release_reserve[OF assms(1) _ assms(4)] assms(2,3) show ?thesis by simp
qed

theorem release_undoes_reserve_witness:
  "\<exists>kv'. reserve ''a'' 20 \<lparr>block_size = 16, total_blocks_f = 4, free_blocks = 4, block_table = []\<rparr> = Inr (True, kv')
     \<and> release ''a'' kv' = \<lparr>block_size = 16, total_blocks_f = 4, free_blocks = 4, block_table = []\<rparr>"
proof -
  let ?kv = "\<lparr>block_size = 16, total_blocks_f = 4, free_blocks = 4, block_table = []\<rparr>"
  have inv: "kv_inv ?kv" by (simp add: kv_inv_def)
  obtain kv' where r: "reserve ''a'' 20 ?kv = Inr (True, kv')"
    using reserve_eq[OF inv, of 20 "''a''"] by (simp add: cover_def)
  from release_undoes_reserve[OF inv _ _ r] r show ?thesis by auto
qed

end
