(* ===== verification/Prefix_Spec.thy ===== *)
theory Prefix_Spec
  imports TS_Prelude
begin

text \<open>
  What a prefix cache promises. \<^verbatim>\<open>tinyserve/prefix/cache.py\<close> has one interface, \<open>PrefixCacheBase\<close>,
  and two interchangeable backends. Its abstract state here is the list of \<^emph>\<open>claims\<close>: which sequence
  published which blocks, in the order of publication. The locale \<open>prefix_index\<close> states what every
  backend does to the claims; the clamping rule \<open>match_for_reuse\<close> of the base class is the client,
  and its guarantees are proved once, inside the locale.
\<close>

type_synonym block = "int list"
type_synonym claim = "int \<times> block list"

record prefix_match =
  n_tokens :: int
  match_seq_id :: int

definition NO_SEQ :: int where
  "NO_SEQ = -1"

abbreviation PrefixMatch :: "int \<Rightarrow> int \<Rightarrow> prefix_match" where
  "PrefixMatch n s \<equiv> \<lparr>n_tokens = n, match_seq_id = s\<rparr>"

text \<open>\<open>PrefixMatch.__bool__\<close>.\<close>

definition is_hit :: "prefix_match \<Rightarrow> bool" where
  "is_hit m \<longleftrightarrow> n_tokens m > 0"

section \<open>Blocks of a prompt\<close>

definition blocks :: "int \<Rightarrow> int list \<Rightarrow> block list" where
  "blocks bs tokens =
     map (\<lambda>i. py_drop (int i * bs) (py_take ((int i + 1) * bs) tokens))
         [0..<nat (int (length tokens) div bs)]"

lemma length_blocks: "length (blocks bs t) = nat (int (length t) div bs)"
  by (simp add: blocks_def)

lemma nth_blocks:
  assumes "0 < bs" "i < length (blocks bs t)"
  shows "blocks bs t ! i = take (nat bs) (drop (i * nat bs) t)"
proof -
  have 1: "nat ((int i + 1) * bs) = i * nat bs + nat bs" "nat (int i * bs) = i * nat bs"
    using assms(1) by (simp_all add: nat_mult_distrib nat_add_distrib)
  have "0 \<le> (int i + 1) * bs" "0 \<le> int i * bs" using assms(1) by simp_all
  with assms show ?thesis by (simp add: blocks_def 1 drop_take)
qed

lemma blocks_extent:
  assumes "0 < bs" "k \<le> length (blocks bs t)"
  shows "k * nat bs \<le> length t"
proof -
  have "0 \<le> int (length t) div bs" using assms(1) by (simp add: pos_imp_zdiv_nonneg_iff)
  with assms(2) have "int k \<le> int (length t) div bs" by (simp add: length_blocks le_nat_iff)
  then have "int k * bs \<le> int (length t) div bs * bs" using assms(1) by (simp add: mult_right_mono)
  also have "\<dots> \<le> int (length t)" using assms(1) by (simp add: minus_mod_eq_div_mult [symmetric])
  finally have "int (k * nat bs) \<le> int (length t)" using assms(1) by simp
  then show ?thesis by (simp only: of_nat_le_iff)
qed

lemma concat_take_blocks:
  assumes "0 < bs" "k \<le> length (blocks bs t)"
  shows "concat (take k (blocks bs t)) = take (k * nat bs) t"
  using assms(2)
proof (induction k)
  case (Suc k)
  then have "take (Suc k) (blocks bs t) = take k (blocks bs t) @ [take (nat bs) (drop (k * nat bs) t)]"
    by (simp add: take_Suc_conv_app_nth nth_blocks[OF assms(1)])
  with Suc have "concat (take (Suc k) (blocks bs t)) = take (k * nat bs) t @ take (nat bs) (drop (k * nat bs) t)"
    by simp
  also have "\<dots> = take (Suc k * nat bs) t" 
    by (metis add.commute mult_Suc take_add)
  finally show ?case .
qed simp

lemma blocks_eq_Nil:
  assumes "0 < bs"
  shows "blocks bs t = [] \<longleftrightarrow> int (length t) < bs"
proof -
  have "blocks bs t = [] \<longleftrightarrow> \<not> 0 < int (length t) div bs"
    by (simp add: blocks_def not_less)
  also have "\<dots> \<longleftrightarrow> int (length t) < bs" using assms by (simp add: pos_imp_zdiv_pos_iff not_le)
  finally show ?thesis .
qed

section \<open>Claims\<close>

definition claims_wf :: "claim list \<Rightarrow> bool" where
  "claims_wf cl \<longleftrightarrow> distinct (map fst cl) \<and> (\<forall>c \<in> set cl. snd c \<noteq> [])"

definition spec_evict :: "int \<Rightarrow> claim list \<Rightarrow> claim list" where
  "spec_evict s cl = filter (\<lambda>c. fst c \<noteq> s) cl"

definition spec_insert :: "int \<Rightarrow> int list \<Rightarrow> int \<Rightarrow> claim list \<Rightarrow> claim list" where
  "spec_insert bs t s cl =
     (if int (length t) < bs then cl else spec_evict s cl @ [(s, blocks bs t)])"

text \<open>The claims that share a path, and the length in blocks of the longest shared prefix.\<close>

definition sharing :: "block list \<Rightarrow> claim list \<Rightarrow> claim list" where
  "sharing p cl = filter (\<lambda>c. prefix p (snd c)) cl"

definition spec_depth :: "claim list \<Rightarrow> block list \<Rightarrow> nat" where
  "spec_depth cl ks = foldr max (map (\<lambda>c. length (longest_common_prefix ks (snd c))) cl) 0"

definition spec_match :: "int \<Rightarrow> int list \<Rightarrow> claim list \<Rightarrow> prefix_match" where
  "spec_match bs t cl =
     (let d = spec_depth cl (blocks bs t)
      in if d = 0 then PrefixMatch 0 NO_SEQ
         else PrefixMatch (int d * bs) (fst (last (sharing (take d (blocks bs t)) cl))))"

definition paths :: "claim list \<Rightarrow> block list set" where
  "paths cl = {p. p = [] \<or> (\<exists>c \<in> set cl. prefix p (snd c))}"

lemma paths_Nil [simp]: "[] \<in> paths cl"
  by (simp add: paths_def)

lemma paths_prefix: "q \<in> paths cl \<Longrightarrow> prefix p q \<Longrightarrow> p \<in> paths cl"
  by (auto simp: paths_def intro: prefix_order.trans)

lemma finite_paths [simp]: "finite (paths cl)"
proof -
  have "paths cl \<subseteq> insert [] (\<Union>c\<in>set cl. set (prefixes (snd c)))" by (auto simp: paths_def)
  then show ?thesis by (rule finite_subset) auto
qed

lemma paths_sharing: "p \<noteq> [] \<Longrightarrow> p \<in> paths cl \<longleftrightarrow> sharing p cl \<noteq> []"
  by (auto simp: paths_def sharing_def filter_empty_conv)

lemma le_foldr_max: "d \<le> foldr max xs (0::nat) \<longleftrightarrow> d = 0 \<or> (\<exists>x \<in> set xs. d \<le> x)"
  by (induction xs) (auto simp: le_max_iff_disj)

lemma take_le_lcp:
  assumes "d \<le> length ks"
  shows "d \<le> length (longest_common_prefix ks b) \<longleftrightarrow> prefix (take d ks) b"
proof
  assume d: "d \<le> length (longest_common_prefix ks b)"
  have "take d (longest_common_prefix ks b) = take d ks"
    using longest_common_prefix_prefix1[of ks b] d by (metis prefixE take_append diff_is_0_eq' take0 append_Nil2)
  moreover have "prefix (take d (longest_common_prefix ks b)) b"
    using longest_common_prefix_prefix2 take_is_prefix prefix_order.trans by blast
  ultimately show "prefix (take d ks) b" by simp
next
  assume "prefix (take d ks) b"
  then have "prefix (take d ks) (longest_common_prefix ks b)"
    by (simp add: longest_common_prefix_max_prefix take_is_prefix)
  with assms show "d \<le> length (longest_common_prefix ks b)" by (auto dest: prefix_length_le)
qed

lemma le_spec_depth:
  assumes "d \<le> length ks"
  shows "d \<le> spec_depth cl ks \<longleftrightarrow> take d ks \<in> paths cl"
  using assms by (auto simp: spec_depth_def le_foldr_max take_le_lcp paths_def)

lemma spec_depth_le: "spec_depth cl ks \<le> length ks"
proof -
  have "length (longest_common_prefix ks b) \<le> length ks" for b
    using longest_common_prefix_prefix1 prefix_length_le by blast
  then have "x \<le> length ks" if "x \<in> set (map (\<lambda>c. length (longest_common_prefix ks (snd c))) cl)" for x
    using that by auto
  then show ?thesis
    unfolding spec_depth_def using le_foldr_max[of "Suc (length ks)"] by (metis not_less_eq_eq old.nat.distinct(2))
qed

text \<open>The donor of a match is the most recent claim with the whole matched path.\<close>

lemma spec_match_claim:
  assumes "spec_depth cl (blocks bs t) = d" "d \<noteq> 0"
  shows "\<exists>b. (match_seq_id (spec_match bs t cl), b) \<in> set cl \<and> prefix (take d (blocks bs t)) b"
proof -
  let ?p = "take d (blocks bs t)"
  have d: "d \<le> length (blocks bs t)" using spec_depth_le assms(1) by metis
  with assms have "?p \<in> paths cl" using le_spec_depth by blast
  moreover have "?p \<noteq> []" using assms(2) d by auto
  ultimately have "sharing ?p cl \<noteq> []" by (simp add: paths_sharing)
  then have "last (sharing ?p cl) \<in> set (sharing ?p cl)" by (rule last_in_set)
  then have l: "last (sharing ?p cl) \<in> set cl" "prefix ?p (snd (last (sharing ?p cl)))"
    by (auto simp: sharing_def)
  have "match_seq_id (spec_match bs t cl) = fst (last (sharing ?p cl))"
    using assms by (simp add: spec_match_def Let_def)
  with l show ?thesis by (metis prod.collapse)
qed

lemma spec_evict_wf: "claims_wf cl \<Longrightarrow> claims_wf (spec_evict s cl)"
  by (auto simp: claims_wf_def spec_evict_def distinct_map_filter)

lemma spec_insert_wf: "0 < bs \<Longrightarrow> claims_wf cl \<Longrightarrow> claims_wf (spec_insert bs t s cl)"
  using spec_evict_wf[of cl s] by (auto simp: claims_wf_def spec_insert_def spec_evict_def blocks_eq_Nil)

section \<open>The interface and its client\<close>

text \<open>\<open>PrefixCacheBase.match_for_reuse\<close>, for the backend's \<open>match\<close>.\<close>

definition match_for_reuse :: "(int list \<Rightarrow> 'c \<Rightarrow> prefix_match) \<Rightarrow> int \<Rightarrow> int list \<Rightarrow> 'c \<Rightarrow> prefix_match" where
  "match_for_reuse match bs tokens c =
     (let usable = ((int (length tokens) - 1) div bs) * bs in
      if usable \<le> 0 then PrefixMatch 0 NO_SEQ
      else let hit = match tokens c in
        if n_tokens hit \<le> usable then hit
        else PrefixMatch usable (match_seq_id hit))"

text \<open>The same method on a backend whose \<open>match\<close> may fail and changes the object.\<close>

definition reuse_call :: "(int list \<Rightarrow> 'c \<Rightarrow> 'e + prefix_match \<times> 'c) \<Rightarrow> int \<Rightarrow> int list \<Rightarrow> 'c \<Rightarrow> 'e + prefix_match \<times> 'c" where
  "reuse_call match bs tokens c =
     (let usable = ((int (length tokens) - 1) div bs) * bs in
      if usable \<le> 0 then Inr (PrefixMatch 0 NO_SEQ, c)
      else res_bind (match tokens c) (\<lambda>(hit, c').
        Inr (if n_tokens hit \<le> usable then hit else PrefixMatch usable (match_seq_id hit), c')))"

text \<open>
  What the clamp makes of a match on the claims. A hit names a claim, covers a block-aligned proper prefix
  of the prompt, and the claimed blocks spell the same tokens there.
\<close>

definition spec_reuse :: "int \<Rightarrow> int list \<Rightarrow> claim list \<Rightarrow> prefix_match" where
  "spec_reuse bs t cl = match_for_reuse (spec_match bs) bs t cl"

lemma spec_match_tokens:
  assumes "0 < n_tokens (spec_match bs t cl)"
  shows "\<exists>b d. (match_seq_id (spec_match bs t cl), b) \<in> set cl \<and> n_tokens (spec_match bs t cl) = int d * bs
     \<and> 0 < d \<and> d \<le> length (blocks bs t) \<and> prefix (take d (blocks bs t)) b"
proof -
  let ?d = "spec_depth cl (blocks bs t)"
  have d: "?d \<noteq> 0" using assms by (cases "?d = 0") (simp_all add: spec_match_def)
  then have "n_tokens (spec_match bs t cl) = int ?d * bs" by (simp add: spec_match_def Let_def)
  with d spec_match_claim[OF refl d] spec_depth_le[of cl] show ?thesis by (metis neq0_conv)
qed

lemma spec_reuse_sound:
  assumes bs: "0 < bs" and hit: "is_hit (spec_reuse bs t cl)"
  defines "m \<equiv> spec_reuse bs t cl"
  shows "\<exists>b. (match_seq_id m, b) \<in> set cl \<and> n_tokens m < int (length t) \<and> bs dvd n_tokens m
     \<and> nat (n_tokens m) \<le> length (concat b)
     \<and> take (nat (n_tokens m)) (concat b) = take (nat (n_tokens m)) t"
proof -
  let ?usable = "((int (length t) - 1) div bs) * bs"
  from hit have u: "0 < ?usable" by (auto simp: is_hit_def spec_reuse_def match_for_reuse_def Let_def split: if_splits)
  then have m: "n_tokens m = min (n_tokens (spec_match bs t cl)) ?usable" "match_seq_id m = match_seq_id (spec_match bs t cl)"
    by (auto simp: m_def spec_reuse_def match_for_reuse_def Let_def)
  with hit have "0 < n_tokens (spec_match bs t cl)" by (auto simp: is_hit_def m_def)
  from spec_match_tokens[OF this] obtain b d where
    b: "(match_seq_id (spec_match bs t cl), b) \<in> set cl" and n: "n_tokens (spec_match bs t cl) = int d * bs"
    and d: "0 < d" "d \<le> length (blocks bs t)" and p: "prefix (take d (blocks bs t)) b"
    by blast
  define k where "k = nat (n_tokens m)"
  have "n_tokens m \<le> int (d * nat bs)" using m(1) n bs by simp
  then have kd: "k \<le> d * nat bs" unfolding k_def by linarith
  have "concat (take d (blocks bs t)) = take (d * nat bs) t" by (rule concat_take_blocks[OF bs d(2)])
  moreover obtain z where "b = take d (blocks bs t) @ z" using p by (auto simp: prefix_def)
  ultimately have cb: "concat b = take (d * nat bs) t @ concat z" by simp
  have len: "d * nat bs \<le> length t" by (rule blocks_extent[OF bs d(2)])
  have "take k (concat b) = take k t" "k \<le> length (concat b)" using cb len kd by (auto simp: min_def)
  moreover have "n_tokens m < int (length t)"
  proof -
    have "0 \<le> (int (length t) - 1) mod bs" using bs by simp
    then have "?usable \<le> int (length t) - 1" unfolding minus_mod_eq_div_mult [symmetric] by linarith
    with m(1) show ?thesis by linarith
  qed
  moreover have "bs dvd n_tokens m" using m(1) n by (simp add: min_def)
  ultimately show ?thesis using b m(2) unfolding k_def by metis
qed

text \<open>The clamp never gives up more than it must: no claim shares a longer usable prefix.\<close>

lemma spec_reuse_maximal:
  assumes bs: "0 < bs" and "(s, b) \<in> set cl" "k \<le> length (blocks bs t)"
    and "prefix (take k (blocks bs t)) b" "int k * bs < int (length t)"
  shows "int k * bs \<le> n_tokens (spec_reuse bs t cl)"
proof (cases "k = 0")
  case True
  then show ?thesis using bs
    by (auto simp: spec_reuse_def match_for_reuse_def spec_match_def Let_def)
next
  case False
  let ?usable = "((int (length t) - 1) div bs) * bs"
  have "int k \<le> (int (length t) - 1) div bs" 
    using zdiv_mono1[of "int k * bs" "int (length t) - 1" bs] assms(5) bs by simp
  then have u: "int k * bs \<le> ?usable" using bs by (simp add: mult_right_mono)
  have "take k (blocks bs t) \<in> paths cl" using assms(2,4) by (force simp: paths_def)
  then have "k \<le> spec_depth cl (blocks bs t)" using le_spec_depth[OF assms(3)] by blast
  then have "int k * bs \<le> n_tokens (spec_match bs t cl)"
    using False bs by (auto simp: spec_match_def Let_def mult_right_mono)
  moreover have "0 < int k * bs" using False bs by simp
  ultimately show ?thesis using u by (auto simp: spec_reuse_def match_for_reuse_def Let_def)
qed

text \<open>
  An index whose operations may fail. What it can hold is part of the interface: it promises the
  effect on the claims for the tokens, sequences and sets of claims it accepts. A lookup may change the
  index, but not its claims.
\<close>

locale prefix_backend =
  fixes bsize :: "'c \<Rightarrow> int"
    and match :: "int list \<Rightarrow> 'c \<Rightarrow> 'e + prefix_match \<times> 'c"
    and insert_op :: "int list \<Rightarrow> int \<Rightarrow> 'c \<Rightarrow> 'e + int \<times> 'c"
    and evict_op :: "int \<Rightarrow> 'c \<Rightarrow> 'e + 'c"
    and rep :: "'c \<Rightarrow> claim list \<Rightarrow> bool"
    and tokens_ok :: "int list \<Rightarrow> bool"
    and seq_ok :: "int \<Rightarrow> bool"
    and fits :: "claim list \<Rightarrow> bool"
  assumes rep_wf: "rep c cl \<Longrightarrow> 0 < bsize c \<and> claims_wf cl"
    and match_rep: "rep c cl \<Longrightarrow> tokens_ok t \<Longrightarrow>
      \<exists>c'. match t c = Inr (spec_match (bsize c) t cl, c') \<and> rep c' cl \<and> bsize c' = bsize c"
    and insert_rep: "rep c cl \<Longrightarrow> tokens_ok t \<Longrightarrow> seq_ok s \<Longrightarrow> fits (spec_insert (bsize c) t s cl) \<Longrightarrow>
      \<exists>c'. insert_op t s c = Inr (int (length t) div bsize c * bsize c, c')
         \<and> rep c' (spec_insert (bsize c) t s cl) \<and> bsize c' = bsize c"
    and evict_rep: "rep c cl \<Longrightarrow> seq_ok s \<Longrightarrow>
      \<exists>c'. evict_op s c = Inr c' \<and> rep c' (spec_evict s cl) \<and> bsize c' = bsize c"
begin

lemma reuse_rep:
  assumes "rep c cl" "tokens_ok t"
  shows "\<exists>c'. reuse_call match (bsize c) t c = Inr (spec_reuse (bsize c) t cl, c') \<and> rep c' cl \<and> bsize c' = bsize c"
proof -
  obtain c' where "match t c = Inr (spec_match (bsize c) t cl, c')" "rep c' cl" "bsize c' = bsize c"
    using match_rep[OF assms] by blast
  with assms show ?thesis by (auto simp: reuse_call_def spec_reuse_def match_for_reuse_def Let_def)
qed

text \<open>What a client does when it starts to serve a prompt: look it up, then publish it.\<close>

lemma claim_rep:
  assumes "rep c cl" "tokens_ok t" "seq_ok s" "fits (spec_insert (bsize c) t s cl)"
  shows "\<exists>c1 n c2. reuse_call match (bsize c) t c = Inr (spec_reuse (bsize c) t cl, c1) \<and> insert_op t s c1 = Inr (n, c2)
     \<and> rep c2 (spec_insert (bsize c) t s cl) \<and> bsize c2 = bsize c"
proof -
  obtain c1 where c1: "reuse_call match (bsize c) t c = Inr (spec_reuse (bsize c) t cl, c1)" "rep c1 cl" "bsize c1 = bsize c"
    using reuse_rep[OF assms(1,2)] by blast
  with insert_rep[OF c1(2) assms(2,3)] assms(4) show ?thesis by auto
qed

end

text \<open>An index that always succeeds and accepts everything.\<close>

locale prefix_index =
  fixes bsize :: "'c \<Rightarrow> int"
    and match :: "int list \<Rightarrow> 'c \<Rightarrow> prefix_match"
    and insert_op :: "int list \<Rightarrow> int \<Rightarrow> 'c \<Rightarrow> int \<times> 'c"
    and evict_op :: "int \<Rightarrow> 'c \<Rightarrow> 'c"
    and rep :: "'c \<Rightarrow> claim list \<Rightarrow> bool"
  assumes rep_wf: "rep c cl \<Longrightarrow> 0 < bsize c \<and> claims_wf cl"
    and match_rep: "rep c cl \<Longrightarrow> match t c = spec_match (bsize c) t cl"
    and insert_rep: "rep c cl \<Longrightarrow> rep (snd (insert_op t s c)) (spec_insert (bsize c) t s cl)"
    and insert_count: "rep c cl \<Longrightarrow> fst (insert_op t s c) = int (length t) div bsize c * bsize c"
    and insert_bsize: "rep c cl \<Longrightarrow> bsize (snd (insert_op t s c)) = bsize c"
    and evict_rep: "rep c cl \<Longrightarrow> rep (evict_op s c) (spec_evict s cl)"
    and evict_bsize: "rep c cl \<Longrightarrow> bsize (evict_op s c) = bsize c"
begin

lemma reuse_eq: "rep c cl \<Longrightarrow> match_for_reuse match (bsize c) t c = spec_reuse (bsize c) t cl"
  by (simp add: spec_reuse_def match_for_reuse_def match_rep Let_def)

lemma reuse_sound:
  assumes "rep c cl" "is_hit (match_for_reuse match (bsize c) t c)"
  shows "\<exists>b. (match_seq_id (match_for_reuse match (bsize c) t c), b) \<in> set cl
     \<and> n_tokens (match_for_reuse match (bsize c) t c) < int (length t) \<and> bsize c dvd n_tokens (match_for_reuse match (bsize c) t c)
     \<and> nat (n_tokens (match_for_reuse match (bsize c) t c)) \<le> length (concat b)
     \<and> take (nat (n_tokens (match_for_reuse match (bsize c) t c))) (concat b)
         = take (nat (n_tokens (match_for_reuse match (bsize c) t c))) t"
  using spec_reuse_sound[of "bsize c" t cl] assms(2) rep_wf[OF assms(1)] unfolding reuse_eq[OF assms(1)] by blast

lemma reuse_maximal:
  assumes "rep c cl" "(s, b) \<in> set cl" "k \<le> length (blocks (bsize c) t)"
    and "prefix (take k (blocks (bsize c) t)) b" "int k * bsize c < int (length t)"
  shows "int k * bsize c \<le> n_tokens (match_for_reuse match (bsize c) t c)"
  using spec_reuse_maximal[OF _ assms(2-)] rep_wf[OF assms(1)] unfolding reuse_eq[OF assms(1)] by blast

end

sublocale prefix_index \<subseteq> total: prefix_backend bsize "\<lambda>t c. Inr (match t c, c)" "\<lambda>t s c. Inr (insert_op t s c)"
    "\<lambda>s c. Inr (evict_op s c)" rep "\<lambda>_. True" "\<lambda>_. True" "\<lambda>_. True"
  by unfold_locales (auto simp: rep_wf match_rep insert_rep insert_bsize evict_rep evict_bsize prod_eq_iff insert_count)

end
