(* ===== verification/Prefix_Cache.thy ===== *)
theory Prefix_Cache
  imports Prefix_Spec
begin

text \<open>
  The pure-Python backend of \<^verbatim>\<open>tinyserve/prefix/cache.py\<close>. Its radix tree is made of mutable dict
  nodes that point to their children and to their parent, and \<open>_seq_nodes\<close> aliases the same nodes a
  second time, so the model keeps an explicit store: \<open>heap\<close> maps an address to a node and \<open>next_addr\<close>
  is the next free address. Every method of \<open>PythonPrefixCache\<close> is one definition.

  The refinement is relational: \<open>pc_rep c cl\<close> says that the store of \<open>c\<close> holds exactly the tree of
  the claims \<open>cl\<close>, where \<open>loc\<close> gives the address of each path. Both loops keep this relation block
  by block: inserting extends the newest claim by one block, evicting shortens a claim from its deep
  end. The final interpretation shows that the class implements the interface \<open>prefix_index\<close>.
\<close>

section \<open>State\<close>

record pnode =
  children :: "(block, nat) dict"
  owners :: "int list"
  parent :: "nat option"
  node_key :: "block option"
  depth :: int

definition new_node :: "nat option \<Rightarrow> block option \<Rightarrow> int \<Rightarrow> pnode" where
  "new_node p k d = \<lparr>children = [], owners = [], parent = p, node_key = k, depth = d\<rparr>"

record py_cache =
  pc_block_size :: int
  heap :: "nat \<Rightarrow> pnode"
  next_addr :: nat
  root :: nat
  seq_nodes :: "(int, nat list) dict"
  pc_node_count :: int

definition pc_init :: "int \<Rightarrow> py_cache res" where
  "pc_init bs =
     (if bs < 1 then Inl ValueError
      else Inr \<lparr>pc_block_size = bs, heap = (\<lambda>_. new_node None None 0), next_addr = 1, root = 0,
                seq_nodes = [], pc_node_count = 0\<rparr>)"

section \<open>Operations\<close>

text \<open>The descent loop of \<open>match\<close>.\<close>

fun walk :: "(nat \<Rightarrow> pnode) \<Rightarrow> nat \<Rightarrow> int \<Rightarrow> block list \<Rightarrow> nat \<times> int" where
  "walk h node matched [] = (node, matched)"
| "walk h node matched (key # ks) =
     (case dict_get (children (h node)) key of
        None \<Rightarrow> (node, matched)
      | Some child \<Rightarrow> walk h child (matched + 1) ks)"

definition pc_match :: "int list \<Rightarrow> py_cache \<Rightarrow> prefix_match" where
  "pc_match tokens c =
     (if int (length tokens) < pc_block_size c then PrefixMatch 0 NO_SEQ
      else case walk (heap c) (root c) 0 (blocks (pc_block_size c) tokens) of (node, matched) \<Rightarrow>
        if matched = 0 then PrefixMatch 0 NO_SEQ
        else let os = owners (heap c node);
                 donor = (if os \<noteq> [] then last os else NO_SEQ)
             in PrefixMatch (matched * pc_block_size c) donor)"

text \<open>One iteration of the loop of \<open>evict\<close>, at the node \<open>a\<close>.\<close>

definition evict_node :: "int \<Rightarrow> nat \<Rightarrow> py_cache \<Rightarrow> py_cache" where
  "evict_node sid a c =
     (let n = heap c a;
          os = (if sid \<in> set (owners n) then remove1 sid (owners n) else owners n);
          h1 = (heap c)(a := n\<lparr>owners := os\<rparr>)
      in if os \<noteq> [] \<or> children n \<noteq> [] then c\<lparr>heap := h1\<rparr>
         else let h2 = (case parent n of
                 None \<Rightarrow> h1
               | Some p \<Rightarrow> h1(p := (h1 p)\<lparr>children :=
                   (case node_key n of None \<Rightarrow> children (h1 p) | Some k \<Rightarrow> dict_del k (children (h1 p)))\<rparr>))
              in c\<lparr>heap := h2, pc_node_count := pc_node_count c - 1\<rparr>)"

definition pc_evict :: "int \<Rightarrow> py_cache \<Rightarrow> py_cache" where
  "pc_evict sid c =
     (case dict_get (seq_nodes c) sid of
        None \<Rightarrow> c
      | Some owned \<Rightarrow>
          fold (evict_node sid) (sort_key (\<lambda>a. - depth (heap c a)) owned)
               (c\<lparr>seq_nodes := dict_del sid (seq_nodes c)\<rparr>))"

text \<open>The loop of \<open>insert\<close>: it descends, creating nodes where needed, and records what it owns.\<close>

fun insert_path :: "int \<Rightarrow> nat \<Rightarrow> nat list \<Rightarrow> block list \<Rightarrow> py_cache \<Rightarrow> py_cache \<times> nat list" where
  "insert_path sid node owned [] c = (c, owned)"
| "insert_path sid node owned (key # ks) c =
     (let (child, c1) =
        (case dict_get (children (heap c node)) key of
           Some a \<Rightarrow> (a, c)
         | None \<Rightarrow>
             let a = next_addr c;
                 h1 = (heap c)(a := new_node (Some node) (Some key) (depth (heap c node) + 1));
                 h2 = h1(node := (h1 node)\<lparr>children := dict_set key a (children (h1 node))\<rparr>)
             in (a, c\<lparr>heap := h2, next_addr := a + 1, pc_node_count := pc_node_count c + 1\<rparr>));
        c2 = c1\<lparr>heap := (heap c1)(child := (heap c1 child)\<lparr>owners := owners (heap c1 child) @ [sid]\<rparr>)\<rparr>
      in insert_path sid child (owned @ [child]) ks c2)"

definition pc_insert :: "int list \<Rightarrow> int \<Rightarrow> py_cache \<Rightarrow> int \<times> py_cache" where
  "pc_insert tokens sid c =
     (if int (length tokens) < pc_block_size c then (0, c)
      else let c1 = pc_evict sid c;
               bl = blocks (pc_block_size c1) tokens;
               (c2, owned) = insert_path sid (root c1) [] bl c1
           in (int (length bl) * pc_block_size c2, c2\<lparr>seq_nodes := dict_set sid owned (seq_nodes c2)\<rparr>))"

definition node_count :: "py_cache \<Rightarrow> int" where
  "node_count c = pc_node_count c"

definition seq_count :: "py_cache \<Rightarrow> int" where
  "seq_count c = int (length (seq_nodes c))"

definition pc_close :: "py_cache \<Rightarrow> py_cache" where
  "pc_close c =
     (let a = next_addr c
      in c\<lparr>heap := (heap c)(a := new_node None None 0), root := a, next_addr := a + 1,
           seq_nodes := [], pc_node_count := 0\<rparr>)"

section \<open>The tree of a list of claims\<close>

text \<open>The owners recorded at a path: the root never records any.\<close>

definition own :: "claim list \<Rightarrow> block list \<Rightarrow> int list" where
  "own cl p = (if p = [] then [] else map fst (sharing p cl))"

definition node_ok :: "(block list \<Rightarrow> nat) \<Rightarrow> claim list \<Rightarrow> block list \<Rightarrow> pnode \<Rightarrow> bool" where
  "node_ok loc cl p n \<longleftrightarrow>
     owners n = own cl p \<and> depth n = int (length p)
     \<and> parent n = (if p = [] then None else Some (loc (butlast p)))
     \<and> node_key n = (if p = [] then None else Some (last p))
     \<and> dict_wf (children n)
     \<and> (\<forall>k. dict_get (children n) k = (if p @ [k] \<in> paths cl then Some (loc (p @ [k])) else None))"

definition tree_rep :: "(nat \<Rightarrow> pnode) \<Rightarrow> nat \<Rightarrow> nat \<Rightarrow> (block list \<Rightarrow> nat) \<Rightarrow> claim list \<Rightarrow> bool" where
  "tree_rep h r nxt loc cl \<longleftrightarrow>
     loc [] = r \<and> inj_on loc (paths cl)
     \<and> (\<forall>p \<in> paths cl. loc p < nxt \<and> node_ok loc cl p (h (loc p)))"

definition claim_nodes :: "(block list \<Rightarrow> nat) \<Rightarrow> block list \<Rightarrow> nat list" where
  "claim_nodes loc b = map (\<lambda>i. loc (take i b)) [1..<Suc (length b)]"

definition pc_rep_at :: "(block list \<Rightarrow> nat) \<Rightarrow> py_cache \<Rightarrow> claim list \<Rightarrow> bool" where
  "pc_rep_at loc c cl \<longleftrightarrow>
     tree_rep (heap c) (root c) (next_addr c) loc cl
     \<and> pc_node_count c = int (card (paths cl - {[]}))"

definition pc_rep :: "py_cache \<Rightarrow> claim list \<Rightarrow> bool" where
  "pc_rep c cl \<longleftrightarrow> 0 < pc_block_size c \<and> claims_wf cl
     \<and> (\<exists>loc. pc_rep_at loc c cl
          \<and> seq_nodes c = map (\<lambda>(s, b). (s, claim_nodes loc b)) cl)"

lemma own_append [simp]: "own (cl @ cl') p = own cl p @ own cl' p"
  by (simp add: own_def sharing_def)

lemma own_Cons: "own ((s, b) # cl) p = (if p \<noteq> [] \<and> prefix p b then [s] else []) @ own cl p"
  by (simp add: own_def sharing_def)

lemma own_Nil [simp]: "own [] p = []"
  by (simp add: own_def sharing_def)

lemma own_empty_iff: "p \<noteq> [] \<Longrightarrow> own cl p = [] \<longleftrightarrow> p \<notin> paths cl"
  by (simp add: own_def paths_sharing)

lemma set_own: "set (own cl p) \<subseteq> fst ` set cl"
  by (auto simp: own_def sharing_def)

lemma paths_append: "paths (cl @ cl') = paths cl \<union> paths cl'"
  by (auto simp: paths_def)

lemma paths_Cons: "paths ((s, b) # cl) = {p. prefix p b} \<union> paths cl"
  by (auto simp: paths_def)

lemma paths_snoc: "paths (cl1 @ (s, p @ [k]) # cl2) = insert (p @ [k]) (paths (cl1 @ (s, p) # cl2))"
  by (auto simp: paths_append paths_Cons)

lemma tree_repD:
  assumes "tree_rep h r nxt loc cl" "p \<in> paths cl"
  shows "loc p < nxt" "owners (h (loc p)) = own cl p" "depth (h (loc p)) = int (length p)"
    "parent (h (loc p)) = (if p = [] then None else Some (loc (butlast p)))"
    "node_key (h (loc p)) = (if p = [] then None else Some (last p))"
    "dict_wf (children (h (loc p)))"
    "dict_get (children (h (loc p))) k = (if p @ [k] \<in> paths cl then Some (loc (p @ [k])) else None)"
  using assms by (auto simp: tree_rep_def node_ok_def)

lemma tree_rep_eq_iff:
  assumes "tree_rep h r nxt loc cl" "p \<in> paths cl" "q \<in> paths cl"
  shows "loc p = loc q \<longleftrightarrow> p = q"
  using assms by (auto simp: tree_rep_def inj_on_def)

section \<open>Matching\<close>

lemma walk_tree:
  assumes "tree_rep h r nxt loc cl" "p \<in> paths cl"
  shows "\<exists>d \<le> length ks. walk h (loc p) m ks = (loc (p @ take d ks), m + int d)
     \<and> p @ take d ks \<in> paths cl \<and> (d < length ks \<longrightarrow> p @ take (Suc d) ks \<notin> paths cl)"
  using assms(2)
proof (induction ks arbitrary: p m)
  case Nil
  then show ?case by simp
next
  case (Cons k ks)
  show ?case
  proof (cases "p @ [k] \<in> paths cl")
    case True
    then have w: "walk h (loc p) m (k # ks) = walk h (loc (p @ [k])) (m + 1) ks"
      using tree_repD(7)[OF assms(1) Cons.prems] by simp
    from Cons.IH[OF True, of "m + 1"] obtain d where d: "d \<le> length ks"
      "walk h (loc (p @ [k])) (m + 1) ks = (loc ((p @ [k]) @ take d ks), m + 1 + int d)"
      "(p @ [k]) @ take d ks \<in> paths cl"
      "d < length ks \<longrightarrow> (p @ [k]) @ take (Suc d) ks \<notin> paths cl" by blast
    then show ?thesis by (intro exI[of _ "Suc d"]) (simp add: w del: walk.simps)
  next
    case False
    then show ?thesis using tree_repD(7)[OF assms(1) Cons.prems] Cons.prems
      by (intro exI[of _ 0]) simp
  qed
qed

lemma walk_depth:
  assumes "tree_rep h r nxt loc cl"
  shows "walk h r 0 ks = (loc (take (spec_depth cl ks) ks), int (spec_depth cl ks))"
proof -
  have r: "loc [] = r" using assms by (simp add: tree_rep_def)
  from walk_tree[OF assms paths_Nil, of ks 0] obtain d where d: "d \<le> length ks"
    "walk h r 0 ks = (loc (take d ks), int d)" "take d ks \<in> paths cl"
    "d < length ks \<longrightarrow> take (Suc d) ks \<notin> paths cl" by (auto simp: r)
  have "d \<le> spec_depth cl ks" using d le_spec_depth by blast
  moreover have "\<not> Suc d \<le> spec_depth cl ks" if "d < length ks"
    using that d(4) le_spec_depth[of "Suc d" ks cl] by auto
  ultimately have "spec_depth cl ks = d"
    using d(1) spec_depth_le[of cl ks] by (cases "d < length ks") auto
  with d show ?thesis by simp
qed

lemma last_own:
  assumes "p \<noteq> []" "p \<in> paths cl"
  shows "own cl p \<noteq> []" "last (own cl p) = fst (last (sharing p cl))"
  using assms by (auto simp: own_def paths_sharing last_map)

lemma pc_match_spec:
  assumes "0 < pc_block_size c" "pc_rep_at loc c cl"
  shows "pc_match t c = spec_match (pc_block_size c) t cl"
proof -
  let ?ks = "blocks (pc_block_size c) t"
  let ?d = "spec_depth cl ?ks"
  have tr: "tree_rep (heap c) (root c) (next_addr c) loc cl" using assms(2) by (simp add: pc_rep_at_def)
  have short: "?d = 0" if "int (length t) < pc_block_size c"
    using that blocks_eq_Nil[OF assms(1), of t] spec_depth_le[of cl ?ks] by simp
  have donor: "owners (heap c (loc (take ?d ?ks))) \<noteq> []
     \<and> last (owners (heap c (loc (take ?d ?ks)))) = fst (last (sharing (take ?d ?ks) cl))" if "?d \<noteq> 0"
  proof -
    have p: "take ?d ?ks \<in> paths cl" using le_spec_depth[OF spec_depth_le] by blast
    have "take ?d ?ks \<noteq> []" using that spec_depth_le[of cl ?ks] by auto
    with last_own[OF this p] tree_repD(2)[OF tr p] show ?thesis by simp
  qed
  show ?thesis
    using short donor by (auto simp: pc_match_def spec_match_def walk_depth[OF tr] Let_def)
qed

section \<open>Inserting a block\<close>

lemma own_snoc:
  "own (cl1 @ (s, p @ [k]) # cl2) q =
     (if q = p @ [k] then own cl1 q @ [s] @ own cl2 q else own (cl1 @ (s, p) # cl2) q)"
  by (auto simp: own_Cons)

lemma own_unextended: "own (cl1 @ (s, p) # cl2) (p @ [k]) = own cl1 (p @ [k]) @ own cl2 (p @ [k])"
  by (auto simp: own_Cons)

lemma tree_add_owner:
  assumes tr: "tree_rep h r nxt loc (cl @ [(s, p)])" and pk: "p @ [k] \<in> paths (cl @ [(s, p)])"
  defines "a \<equiv> loc (p @ [k])"
  shows "tree_rep (h(a := (h a)\<lparr>owners := owners (h a) @ [s]\<rparr>)) r nxt loc (cl @ [(s, p @ [k])])"
proof -
  have pa: "paths (cl @ [(s, p @ [k])]) = paths (cl @ [(s, p)])"
    using pk by (simp add: paths_snoc insert_absorb)
  have "node_ok loc (cl @ [(s, p @ [k])]) q ((h(a := (h a)\<lparr>owners := owners (h a) @ [s]\<rparr>)) (loc q))"
    if q: "q \<in> paths (cl @ [(s, p)])" for q
  proof (cases "q = p @ [k]")
    case True
    then show ?thesis using tree_repD[OF tr pk] own_unextended[of cl s p "[]" k] own_snoc[of cl s p k "[]"]
      by (simp add: node_ok_def a_def pa)
  next
    case False
    then have "loc q \<noteq> a" using tree_rep_eq_iff[OF tr q pk] by (simp add: a_def)
    with False show ?thesis using tree_repD[OF tr q] own_snoc[of cl s p k "[]" q]
      by (simp add: node_ok_def pa)
  qed
  with tr show ?thesis by (simp add: tree_rep_def pa)
qed

text \<open>A path keeps its address when a fresh one is given an address above all others.\<close>

lemma tree_new_child:
  assumes tr: "tree_rep h r nxt loc (cl @ [(s, p)])" and pk: "p @ [k] \<notin> paths (cl @ [(s, p)])"
  defines "h1 \<equiv> h(nxt := new_node (Some (loc p)) (Some k) (depth (h (loc p)) + 1))"
  defines "h2 \<equiv> h1(loc p := (h1 (loc p))\<lparr>children := dict_set k nxt (children (h1 (loc p)))\<rparr>)"
  shows "tree_rep (h2(nxt := (h2 nxt)\<lparr>owners := owners (h2 nxt) @ [s]\<rparr>)) r (Suc nxt)
           (loc(p @ [k] := nxt)) (cl @ [(s, p @ [k])])"
proof -
  let ?cl = "cl @ [(s, p)]" and ?cl' = "cl @ [(s, p @ [k])]"
  let ?loc = "loc(p @ [k] := nxt)" and ?h = "h2(nxt := (h2 nxt)\<lparr>owners := owners (h2 nxt) @ [s]\<rparr>)"
  have pa: "paths ?cl' = insert (p @ [k]) (paths ?cl)" by (rule paths_snoc)
  have p: "p \<in> paths ?cl" by (simp add: paths_append paths_Cons)
  have lt: "loc q < nxt" if "q \<in> paths ?cl" for q using tree_repD(1)[OF tr that] .
  have ne: "q \<noteq> p @ [k]" if "q \<in> paths ?cl" for q using that pk by auto
  have ext: "p @ [k, k'] \<notin> paths ?cl" for k'
    using pk paths_prefix[of "p @ [k, k']" ?cl "p @ [k]"] by auto
  have new: "node_ok ?loc ?cl' (p @ [k]) (?h nxt)"
  proof -
    have "own cl (p @ [k]) = []" using pk own_empty_iff[of "p @ [k]" cl] by (simp add: paths_append)
    then have "own ?cl' (p @ [k]) = [s]" by (simp add: own_Cons)
    then show ?thesis using lt[OF p] ext tree_repD(3)[OF tr p]
      by (auto simp: node_ok_def h2_def h1_def new_node_def pa simp del: own_append)
  qed
  have old: "node_ok ?loc ?cl' q (?h (loc q))" if q: "q \<in> paths ?cl" for q
  proof -
    have bl: "butlast q \<noteq> p @ [k]"
    proof
      assume eq: "butlast q = p @ [k]"
      then have "prefix (p @ [k]) q" by (metis butlast_conv_take take_is_prefix)
      with q pk paths_prefix show False by blast
    qed
    have hq: "?h (loc q) = (if q = p then (h (loc p))\<lparr>children := dict_set k nxt (children (h (loc p)))\<rparr> else h (loc q))"
      using lt[OF q] lt[OF p] tree_rep_eq_iff[OF tr q p] by (auto simp: h2_def h1_def)
    show ?thesis
      unfolding hq using tree_repD[OF tr q] own_snoc[of cl s p k "[]" q] ne[OF q] bl pk
      by (auto simp: node_ok_def pa)
  qed
  have "inj_on ?loc (paths ?cl')"
  proof -
    have "inj_on loc (paths ?cl)" using tr by (simp add: tree_rep_def)
    moreover have "nxt \<notin> loc ` paths ?cl" using lt by fastforce
    ultimately show ?thesis using pk unfolding pa by (auto simp: inj_on_def)
  qed
  moreover have "?loc [] = r" using tr by (simp add: tree_rep_def)
  moreover have "?loc q < Suc nxt \<and> node_ok ?loc ?cl' q (?h (?loc q))" if "q \<in> paths ?cl'" for q
  proof (cases "q = p @ [k]")
    case True
    with new show ?thesis by simp
  next
    case False
    with that pa have q: "q \<in> paths ?cl" by simp
    with False have "?loc q = loc q" by simp
    with old[OF q] lt[OF q] show ?thesis by (simp only: less_SucI simp_thms)
  qed
  ultimately show ?thesis unfolding tree_rep_def by blast
qed

text \<open>
  One round of the insertion loop. The count of live nodes grows exactly when the path is new, and
  addresses of existing paths do not move.
\<close>

lemma insert_round:
  assumes rep: "pc_rep_at loc c (cl @ [(s, p)])"
  shows "\<exists>c' loc'. insert_path s (loc p) owned (k # ks) c
        = insert_path s (loc' (p @ [k])) (owned @ [loc' (p @ [k])]) ks c'
     \<and> pc_rep_at loc' c' (cl @ [(s, p @ [k])])
     \<and> (\<forall>q \<in> paths (cl @ [(s, p)]). loc' q = loc q)
     \<and> seq_nodes c' = seq_nodes c \<and> pc_block_size c' = pc_block_size c \<and> root c' = root c"
proof -
  let ?cl = "cl @ [(s, p)]" and ?cl' = "cl @ [(s, p @ [k])]"
  have tr: "tree_rep (heap c) (root c) (next_addr c) loc ?cl"
    and cnt: "pc_node_count c = int (card (paths ?cl - {[]}))" using rep by (auto simp: pc_rep_at_def)
  have p: "p \<in> paths ?cl" by (simp add: paths_append paths_Cons)
  have pa: "paths ?cl' = insert (p @ [k]) (paths ?cl)" by (rule paths_snoc)
  show ?thesis
  proof (cases "p @ [k] \<in> paths ?cl")
    case True
    let ?a = "loc (p @ [k])"
    let ?c = "c\<lparr>heap := (heap c)(?a := (heap c ?a)\<lparr>owners := owners (heap c ?a) @ [s]\<rparr>)\<rparr>"
    have "dict_get (children (heap c (loc p))) k = Some ?a" using tree_repD(7)[OF tr p] True by simp
    then have "insert_path s (loc p) owned (k # ks) c = insert_path s ?a (owned @ [?a]) ks ?c" by simp
    moreover have "pc_rep_at loc ?c ?cl'"
      using tree_add_owner[OF tr True] cnt True by (simp add: pc_rep_at_def pa insert_absorb)
    ultimately show ?thesis by (intro exI[of _ ?c] exI[of _ loc]) simp
  next
    case False
    let ?a = "next_addr c"
    let ?h1 = "(heap c)(?a := new_node (Some (loc p)) (Some k) (depth (heap c (loc p)) + 1))"
    let ?h2 = "?h1(loc p := (?h1 (loc p))\<lparr>children := dict_set k ?a (children (?h1 (loc p)))\<rparr>)"
    let ?c1 = "c\<lparr>heap := ?h2, next_addr := ?a + 1, pc_node_count := pc_node_count c + 1\<rparr>"
    let ?c = "?c1\<lparr>heap := ?h2(?a := (?h2 ?a)\<lparr>owners := owners (?h2 ?a) @ [s]\<rparr>)\<rparr>"
    let ?loc = "loc(p @ [k] := ?a)"
    have "dict_get (children (heap c (loc p))) k = None" using tree_repD(7)[OF tr p] False by simp
    then have "insert_path s (loc p) owned (k # ks) c = insert_path s ?a (owned @ [?a]) ks ?c"
      by (simp only: insert_path.simps Let_def option.case prod.case) simp
    moreover have "paths ?cl' - {[]} = insert (p @ [k]) (paths ?cl - {[]})" by (auto simp: pa)
    then have "pc_rep_at ?loc ?c ?cl'"
      using tree_new_child[OF tr False] cnt False by (simp add: pc_rep_at_def)
    moreover have "\<forall>q \<in> paths ?cl. ?loc q = loc q" using False by auto
    ultimately show ?thesis by (intro exI[of _ ?c] exI[of _ ?loc]) simp
  qed
qed

lemma insert_path_rep:
  assumes "pc_rep_at loc c (cl @ [(s, p)])"
  shows "\<exists>c' loc'. insert_path s (loc p) owned ks c
        = (c', owned @ map (\<lambda>i. loc' (p @ take i ks)) [1..<Suc (length ks)])
     \<and> pc_rep_at loc' c' (cl @ [(s, p @ ks)])
     \<and> (\<forall>q \<in> paths (cl @ [(s, p)]). loc' q = loc q)
     \<and> seq_nodes c' = seq_nodes c \<and> pc_block_size c' = pc_block_size c \<and> root c' = root c"
  using assms
proof (induction ks arbitrary: p owned c loc)
  case Nil
  then show ?case by (intro exI[of _ c] exI[of _ loc]) simp
next
  case (Cons k ks)
  from insert_round[OF Cons.prems, of owned k ks] obtain c1 loc1 where r:
    "insert_path s (loc p) owned (k # ks) c
       = insert_path s (loc1 (p @ [k])) (owned @ [loc1 (p @ [k])]) ks c1"
    "pc_rep_at loc1 c1 (cl @ [(s, p @ [k])])" "\<forall>q \<in> paths (cl @ [(s, p)]). loc1 q = loc q"
    "seq_nodes c1 = seq_nodes c" "pc_block_size c1 = pc_block_size c" "root c1 = root c" by blast
  from Cons.IH[OF r(2), of "owned @ [loc1 (p @ [k])]"] obtain c2 loc2 where r2:
    "insert_path s (loc1 (p @ [k])) (owned @ [loc1 (p @ [k])]) ks c1
       = (c2, (owned @ [loc1 (p @ [k])]) @ map (\<lambda>i. loc2 ((p @ [k]) @ take i ks)) [1..<Suc (length ks)])"
    "pc_rep_at loc2 c2 (cl @ [(s, (p @ [k]) @ ks)])" "\<forall>q \<in> paths (cl @ [(s, p @ [k])]). loc2 q = loc1 q"
    "seq_nodes c2 = seq_nodes c1" "pc_block_size c2 = pc_block_size c1" "root c2 = root c1" by blast
  have "loc2 (p @ [k]) = loc1 (p @ [k])" using r2(3) by (simp add: paths_append paths_Cons)
  then have "(owned @ [loc1 (p @ [k])]) @ map (\<lambda>i. loc2 ((p @ [k]) @ take i ks)) [1..<Suc (length ks)]
      = owned @ map (\<lambda>i. loc2 (p @ take i (k # ks))) [1..<Suc (length (k # ks))]"
    by (simp add: upt_conv_Cons map_Suc_upt[symmetric] del: upt_Suc)
  moreover have "\<forall>q \<in> paths (cl @ [(s, p)]). loc2 q = loc q"
    using r(3) r2(3) by (auto simp: paths_snoc)
  ultimately show ?case using r r2 by (intro exI[of _ c2] exI[of _ loc2]) simp
qed

section \<open>Evicting a block\<close>

lemma children_Nil_iff: "children n = [] \<longleftrightarrow> (\<forall>k. dict_get (children n) k = None)"
  by (cases "children n") (auto simp: dict_get_eq_None)

lemma evict_owners:
  assumes tr: "tree_rep h r nxt loc (cl1 @ (s, p @ [k]) # cl2)" and s: "s \<notin> fst ` set (cl1 @ cl2)"
  shows "remove1 s (owners (h (loc (p @ [k])))) = own (cl1 @ (s, p) # cl2) (p @ [k])"
    "own (cl1 @ (s, p) # cl2) (p @ [k]) = [] \<longleftrightarrow> p @ [k] \<notin> paths (cl1 @ (s, p) # cl2)"
    "own (cl1 @ (s, p) # cl2) (p @ [k]) = [] \<Longrightarrow> children (h (loc (p @ [k]))) = []"
proof -
  let ?pk = "p @ [k]" and ?cl = "cl1 @ (s, p) # cl2" and ?cl' = "cl1 @ (s, p @ [k]) # cl2"
  have pa: "paths ?cl' = insert ?pk (paths ?cl)" by (rule paths_snoc)
  then have pk: "?pk \<in> paths ?cl'" by simp
  note N = tree_repD[OF tr pk]
  have "s \<notin> set (own cl1 ?pk)" using s set_own[of cl1 ?pk] by auto
  with N(2) show "remove1 s (owners (h (loc ?pk))) = own ?cl ?pk"
    by (simp add: own_Cons remove1_append)
  show "own ?cl ?pk = [] \<longleftrightarrow> ?pk \<notin> paths ?cl" by (rule own_empty_iff) simp
  assume "own ?cl ?pk = []"
  then have "?pk \<notin> paths ?cl" using own_empty_iff[of ?pk ?cl] by simp
  then have "?pk @ [k'] \<notin> paths ?cl" for k' using paths_prefix[of "?pk @ [k']" ?cl ?pk] by auto
  then show "children (h (loc ?pk)) = []" using N(7) by (simp add: children_Nil_iff pa)
qed

lemma evict_round:
  assumes rep: "pc_rep_at loc c (cl1 @ (s, p @ [k]) # cl2)" and s: "s \<notin> fst ` set (cl1 @ cl2)"
  defines "c' \<equiv> evict_node s (loc (p @ [k])) c"
  shows "pc_rep_at loc c' (cl1 @ (s, p) # cl2)"
    "seq_nodes c' = seq_nodes c" "pc_block_size c' = pc_block_size c"
proof -
  let ?pk = "p @ [k]" and ?cl = "cl1 @ (s, p) # cl2" and ?cl' = "cl1 @ (s, p @ [k]) # cl2"
  let ?n = "heap c (loc ?pk)"
  have tr: "tree_rep (heap c) (root c) (next_addr c) loc ?cl'"
    and cnt: "pc_node_count c = int (card (paths ?cl' - {[]}))" using rep by (auto simp: pc_rep_at_def)
  have pa: "paths ?cl' = insert ?pk (paths ?cl)" by (rule paths_snoc)
  have pk: "?pk \<in> paths ?cl'" by (simp add: pa)
  have p: "p \<in> paths ?cl" by (simp add: paths_append paths_Cons)
  note N = tree_repD[OF tr pk]
  note O = evict_owners[OF tr s]
  have os: "(if s \<in> set (owners ?n) then remove1 s (owners ?n) else owners ?n) = own ?cl ?pk"
    unfolding O(1)[symmetric] by (simp add: remove1_idem)
  show "seq_nodes c' = seq_nodes c" "pc_block_size c' = pc_block_size c"
    by (auto simp: c'_def evict_node_def Let_def)
  show "pc_rep_at loc c' ?cl"
  proof (cases "?pk \<in> paths ?cl")
    case True
    then have ne: "own ?cl ?pk \<noteq> []" using own_empty_iff[of ?pk ?cl] by simp
    then have c': "c' = c\<lparr>heap := (heap c)(loc ?pk := ?n\<lparr>owners := own ?cl ?pk\<rparr>)\<rparr>"
      unfolding c'_def evict_node_def Let_def os by simp
    have "node_ok loc ?cl q (((heap c)(loc ?pk := ?n\<lparr>owners := own ?cl ?pk\<rparr>)) (loc q))"
      if q: "q \<in> paths ?cl" for q
    proof -
      have q': "q \<in> paths ?cl'" using q pa by simp
      show ?thesis using tree_repD[OF tr q'] tree_rep_eq_iff[OF tr q' pk] own_snoc[of cl1 s p k cl2 q] True
        by (auto simp: node_ok_def pa insert_absorb simp del: own_append)
    qed
    with tr cnt True show ?thesis by (simp add: pc_rep_at_def tree_rep_def c' pa insert_absorb)
  next
    case False
    then have e: "own ?cl ?pk = []" using own_empty_iff[of ?pk ?cl] by simp
    have pne: "loc p \<noteq> loc ?pk" using tree_rep_eq_iff[OF tr _ pk, of p] p pa by auto
    let ?h1 = "(heap c)(loc ?pk := ?n\<lparr>owners := []\<rparr>)"
    let ?h2 = "?h1(loc p := (?h1 (loc p))\<lparr>children := dict_del k (children (?h1 (loc p)))\<rparr>)"
    have c': "c' = c\<lparr>heap := ?h2, pc_node_count := pc_node_count c - 1\<rparr>"
      using N(4,5) e O(3) unfolding c'_def evict_node_def Let_def os by simp
    have "node_ok loc ?cl q (?h2 (loc q))" if q: "q \<in> paths ?cl" for q
    proof -
      have q': "q \<in> paths ?cl'" and qk: "q \<noteq> ?pk" using q pa False by auto
      have h2q: "?h2 (loc q) = (if q = p then (heap c (loc p))\<lparr>children := dict_del k (children (heap c (loc p)))\<rparr>
          else heap c (loc q))"
        using tree_rep_eq_iff[OF tr q' pk] tree_rep_eq_iff[OF tr q', of p] p pa qk pne by auto
      show ?thesis unfolding h2q
        using tree_repD[OF tr q'] own_snoc[of cl1 s p k cl2 q] qk False
        by (auto simp: node_ok_def pa dict_get_del simp del: own_append)
    qed
    moreover have "paths ?cl' - {[]} = insert ?pk (paths ?cl - {[]})" by (auto simp: pa)
    then have "pc_node_count c - 1 = int (card (paths ?cl - {[]}))" using cnt False by simp
    moreover have "inj_on loc (paths ?cl)" "\<forall>q \<in> paths ?cl. loc q < next_addr c" "loc [] = root c"
      using tr pa by (auto simp: tree_rep_def inj_on_def)
    ultimately show ?thesis unfolding pc_rep_at_def tree_rep_def c' by simp
  qed
qed

lemma evict_path_rep:
  assumes "pc_rep_at loc c (cl1 @ (s, take j b) # cl2)" "s \<notin> fst ` set (cl1 @ cl2)" "j \<le> length b"
  defines "c' \<equiv> fold (evict_node s) (rev (map (\<lambda>i. loc (take i b)) [1..<Suc j])) c"
  shows "pc_rep_at loc c' (cl1 @ (s, []) # cl2) \<and> seq_nodes c' = seq_nodes c \<and> pc_block_size c' = pc_block_size c"
  using assms(1,3) unfolding c'_def
proof (induction j arbitrary: c)
  case 0
  then show ?case by simp
next
  case (Suc j)
  then have tk: "take (Suc j) b = take j b @ [b ! j]" by (simp add: take_Suc_conv_app_nth)
  note R = evict_round[OF Suc.prems(1)[unfolded tk] assms(2)]
  have "fold (evict_node s) (rev (map (\<lambda>i. loc (take i b)) [1..<Suc (Suc j)])) c
     = fold (evict_node s) (rev (map (\<lambda>i. loc (take i b)) [1..<Suc j])) (evict_node s (loc (take (Suc j) b)) c)"
    by simp
  with Suc.IH[OF R(1)] R(2,3) Suc.prems(2) show ?case by (simp add: tk)
qed

text \<open>The nodes a sequence owns are stored shallow to deep, so the deepest-first sort reverses them.\<close>

lemma sort_claim_nodes:
  assumes "tree_rep h r nxt loc cl" "(s, b) \<in> set cl"
  shows "sort_key (\<lambda>a. - depth (h a)) (claim_nodes loc b) = rev (claim_nodes loc b)"
proof (rule sort_key_inj_key_eq)
  have P: "take i b \<in> paths cl" for i using assms(2) take_is_prefix by (force simp: paths_def)
  then have D: "depth (h (loc (take i b))) = int i" if "i \<le> length b" for i
    using tree_repD(3)[OF assms(1) P, of i] that by simp
  show "mset (claim_nodes loc b) = mset (rev (claim_nodes loc b))" by simp
  show "inj_on (\<lambda>a. - depth (h a)) (set (claim_nodes loc b))"
    using D by (auto simp: claim_nodes_def inj_on_def simp del: upt_Suc)
  have "map (\<lambda>a. - depth (h a)) (rev (claim_nodes loc b)) = rev (map (\<lambda>i. - int i) [1..<Suc (length b)])"
    using D by (auto simp: claim_nodes_def rev_map simp del: upt_Suc)
  moreover have "sorted (rev (map (\<lambda>i. - int i) [1..<Suc n]))" for n
    by (induction n) (auto simp: sorted_append)
  ultimately show "sorted (map (\<lambda>a. - depth (h a)) (rev (claim_nodes loc b)))" by simp
qed

text \<open>A claim without blocks leaves no trace in the tree.\<close>

lemma pc_rep_at_Nil_claim: "pc_rep_at loc c (cl1 @ (s, []) # cl2) \<longleftrightarrow> pc_rep_at loc c (cl1 @ cl2)"
proof -
  have "own (cl1 @ (s, []) # cl2) = own (cl1 @ cl2)" by (auto simp: own_Cons)
  moreover have "paths (cl1 @ (s, []) # cl2) = paths (cl1 @ cl2)" by (auto simp: paths_append paths_Cons paths_def)
  ultimately show ?thesis by (simp add: pc_rep_at_def tree_rep_def node_ok_def del: own_append)
qed

lemma dict_del_map_claims:
  "dict_del s (map (\<lambda>(s, b). (s, f b)) cl) = map (\<lambda>(s, b). (s, f b)) (spec_evict s cl)"
  by (induction cl) (auto simp: spec_evict_def)

lemma pc_evict_rep:
  assumes "pc_rep c cl"
  shows "pc_rep (pc_evict s c) (spec_evict s cl)" "pc_block_size (pc_evict s c) = pc_block_size c"
proof -
  from assms obtain loc where rep: "pc_rep_at loc c cl" and bs: "0 < pc_block_size c" and wf: "claims_wf cl"
    and sn: "seq_nodes c = map (\<lambda>(s, b). (s, claim_nodes loc b)) cl" by (auto simp: pc_rep_def)
  have "pc_rep (pc_evict s c) (spec_evict s cl) \<and> pc_block_size (pc_evict s c) = pc_block_size c"
  proof (cases "s \<in> fst ` set cl")
    case False
    then have "dict_get (seq_nodes c) s = None" unfolding sn by (force simp: dict_get_eq_None)
    moreover have "spec_evict s cl = cl" using False by (force simp: spec_evict_def filter_id_conv)
    ultimately show ?thesis using assms by (simp add: pc_evict_def)
  next
    case True
    then obtain b cl1 cl2 where cl: "cl = cl1 @ (s, b) # cl2" by (metis imageE prod.collapse split_list)
    with wf have s: "s \<notin> fst ` set (cl1 @ cl2)" by (auto simp: claims_wf_def)
    then have "\<forall>c \<in> set (cl1 @ cl2). fst c \<noteq> s" by auto
    then have ev: "spec_evict s cl = cl1 @ cl2" by (simp add: cl spec_evict_def)
    have "dict_wf (seq_nodes c)" using wf unfolding sn by (simp add: dict_wf_def claims_wf_def comp_def case_prod_beta)
    then have g: "dict_get (seq_nodes c) s = Some (claim_nodes loc b)"
      by (rule dict_get_in) (simp add: sn cl)
    let ?c = "c\<lparr>seq_nodes := dict_del s (seq_nodes c)\<rparr>"
    have tr: "tree_rep (heap c) (root c) (next_addr c) loc cl" using rep by (simp add: pc_rep_at_def)
    have "pc_evict s c = fold (evict_node s) (rev (map (\<lambda>i. loc (take i b)) [1..<Suc (length b)])) ?c"
      using sort_claim_nodes[OF tr, of s b] by (simp add: pc_evict_def g cl claim_nodes_def)
    moreover have "pc_rep_at loc ?c (cl1 @ (s, take (length b) b) # cl2)"
      using rep by (simp add: cl pc_rep_at_def)
    ultimately have "pc_rep_at loc (pc_evict s c) (cl1 @ (s, []) # cl2)"
      "seq_nodes (pc_evict s c) = dict_del s (seq_nodes c)" "pc_block_size (pc_evict s c) = pc_block_size c"
      using evict_path_rep[OF _ s, of loc ?c "length b" b] by auto
    then show ?thesis using bs spec_evict_wf[OF wf, of s]
      by (auto simp: pc_rep_def pc_rep_at_Nil_claim ev[symmetric] sn dict_del_map_claims)
  qed
  then show "pc_rep (pc_evict s c) (spec_evict s cl)" "pc_block_size (pc_evict s c) = pc_block_size c"
    by auto
qed

lemma claim_nodes_same:
  assumes "\<forall>q \<in> paths cl. loc' q = loc q"
  shows "map (\<lambda>(s, b). (s, claim_nodes loc b)) cl = map (\<lambda>(s, b). (s, claim_nodes loc' b)) cl"
proof -
  have "claim_nodes loc b = claim_nodes loc' b" if "(s', b) \<in> set cl" for s' b
  proof -
    have "take i b \<in> paths cl" for i using that take_is_prefix by (force simp: paths_def)
    with assms show ?thesis by (simp add: claim_nodes_def)
  qed
  then show ?thesis by (intro map_cong) auto
qed

lemma pc_insert_rep:
  assumes "pc_rep c cl"
  shows "pc_rep (snd (pc_insert t s c)) (spec_insert (pc_block_size c) t s cl)"
    "pc_block_size (snd (pc_insert t s c)) = pc_block_size c"
    "fst (pc_insert t s c) = int (length t) div pc_block_size c * pc_block_size c"
proof -
  let ?bs = "pc_block_size c"
  have bs: "0 < ?bs" using assms by (simp add: pc_rep_def)
  have "pc_rep (snd (pc_insert t s c)) (spec_insert ?bs t s cl)
     \<and> pc_block_size (snd (pc_insert t s c)) = ?bs
     \<and> fst (pc_insert t s c) = int (length t) div ?bs * ?bs"
  proof (cases "int (length t) < ?bs")
    case True
    with assms bs show ?thesis by (simp add: pc_insert_def spec_insert_def)
  next
    case False
    let ?c = "pc_evict s c" and ?cl = "spec_evict s cl" and ?b = "blocks ?bs t"
    note E = pc_evict_rep[OF assms, of s]
    from E(1) obtain loc where rep: "pc_rep_at loc ?c ?cl" and wf: "claims_wf ?cl"
      and sn: "seq_nodes ?c = map (\<lambda>(s, b). (s, claim_nodes loc b)) ?cl" by (auto simp: pc_rep_def)
    have r: "loc [] = root ?c" using rep by (simp add: pc_rep_at_def tree_rep_def)
    have "pc_rep_at loc ?c (?cl @ [(s, [])])" using rep pc_rep_at_Nil_claim[of loc ?c ?cl s "[]"] by simp
    from insert_path_rep[OF this, of "[]" ?b] obtain c' loc' where
      ip: "insert_path s (root ?c) [] ?b ?c = (c', claim_nodes loc' ?b)"
      and rep': "pc_rep_at loc' c' (?cl @ [(s, ?b)])"
      and same: "\<forall>q \<in> paths (?cl @ [(s, [])]). loc' q = loc q"
      and st: "seq_nodes c' = seq_nodes ?c" "pc_block_size c' = pc_block_size ?c"
      by (auto simp: r claim_nodes_def)
    have sn': "seq_nodes ?c = map (\<lambda>(s, b). (s, claim_nodes loc' b)) ?cl"
      unfolding sn using same by (intro claim_nodes_same) (simp add: paths_append)
    have new: "s \<notin> set (keys (seq_nodes ?c))" unfolding sn by (auto simp: spec_evict_def)
    have I: "pc_insert t s c = (int (length ?b) * pc_block_size c',
        c'\<lparr>seq_nodes := seq_nodes c' @ [(s, claim_nodes loc' ?b)]\<rparr>)"
      using False ip E(2) new st(1) by (simp add: pc_insert_def Let_def keys_set_new)
    have "claims_wf (spec_insert ?bs t s cl)"
      using assms spec_insert_wf[OF bs, of cl] by (simp add: pc_rep_def)
    then have "pc_rep (snd (pc_insert t s c)) (spec_insert ?bs t s cl)"
      unfolding I pc_rep_def using False bs rep' st E(2) sn'
      by (auto simp: spec_insert_def pc_rep_at_def)
    moreover have "0 \<le> int (length t) div ?bs" using bs by (simp add: pos_imp_zdiv_nonneg_iff)
    ultimately show ?thesis unfolding I using st(2) E(2) by (simp add: length_blocks)
  qed
  then show "pc_rep (snd (pc_insert t s c)) (spec_insert ?bs t s cl)"
    "pc_block_size (snd (pc_insert t s c)) = ?bs"
    "fst (pc_insert t s c) = int (length t) div ?bs * ?bs" by auto
qed

section \<open>The class implements the interface\<close>

interpretation pc: prefix_index pc_block_size pc_match pc_insert pc_evict pc_rep
proof unfold_locales
  fix c cl t s
  assume rep: "pc_rep c cl"
  then show "0 < pc_block_size c \<and> claims_wf cl" by (simp add: pc_rep_def)
  show "pc_match t c = spec_match (pc_block_size c) t cl"
    using rep pc_match_spec by (auto simp: pc_rep_def)
  show "pc_rep (snd (pc_insert t s c)) (spec_insert (pc_block_size c) t s cl)"
    "fst (pc_insert t s c) = int (length t) div pc_block_size c * pc_block_size c"
    "pc_block_size (snd (pc_insert t s c)) = pc_block_size c"
    using pc_insert_rep[OF rep] by auto
  show "pc_rep (pc_evict s c) (spec_evict s cl)" "pc_block_size (pc_evict s c) = pc_block_size c"
    using pc_evict_rep[OF rep] by auto
qed

lemma pc_init_rep:
  assumes "pc_init bs = Inr c"
  shows "pc_rep c []" "pc_block_size c = bs"
  using assms
  by (auto simp: pc_init_def pc_rep_def claims_wf_def pc_rep_at_def tree_rep_def node_ok_def
      paths_def new_node_def own_def sharing_def split: if_splits intro: exI[of _ "\<lambda>_. 0"])

lemma pc_close_rep:
  assumes "pc_rep c cl"
  shows "pc_rep (pc_close c) []"
  using assms
  by (auto simp: pc_close_def pc_rep_def claims_wf_def pc_rep_at_def tree_rep_def node_ok_def
      paths_def new_node_def own_def sharing_def Let_def intro: exI[of _ "\<lambda>_. next_addr c"])

text \<open>The two counters report the distinct live paths and the claims.\<close>

lemma node_count_rep: "pc_rep c cl \<Longrightarrow> node_count c = int (card (paths cl - {[]}))"
  by (auto simp: pc_rep_def pc_rep_at_def node_count_def)

lemma seq_count_rep: "pc_rep c cl \<Longrightarrow> seq_count c = int (length cl)"
  by (auto simp: pc_rep_def seq_count_def)

section \<open>Runs of the cache\<close>

text \<open>A history of calls on one cache object, and the same history on the list of claims.\<close>

datatype cache_call = CallInsert "int list" int | CallEvict int | CallClose

fun cache_call_step :: "cache_call \<Rightarrow> py_cache \<Rightarrow> py_cache" where
  "cache_call_step (CallInsert t s) c = snd (pc_insert t s c)"
| "cache_call_step (CallEvict s) c = pc_evict s c"
| "cache_call_step CallClose c = pc_close c"

fun claim_call_step :: "int \<Rightarrow> cache_call \<Rightarrow> claim list \<Rightarrow> claim list" where
  "claim_call_step bs (CallInsert t s) cl = spec_insert bs t s cl"
| "claim_call_step bs (CallEvict s) cl = spec_evict s cl"
| "claim_call_step bs CallClose cl = []"

lemma cache_call_rep:
  assumes "pc_rep c cl"
  shows "pc_rep (cache_call_step x c) (claim_call_step (pc_block_size c) x cl)"
    "pc_block_size (cache_call_step x c) = pc_block_size c"
proof -
  have "pc_block_size (pc_close c) = pc_block_size c" by (simp add: pc_close_def Let_def)
  then show "pc_rep (cache_call_step x c) (claim_call_step (pc_block_size c) x cl)"
    "pc_block_size (cache_call_step x c) = pc_block_size c"
    using assms pc.insert_rep pc.evict_rep pc.insert_bsize pc.evict_bsize pc_close_rep
    by (cases x; auto)+
qed

lemma cache_run_rep:
  assumes "pc_rep c cl"
  shows "pc_rep (fold cache_call_step xs c) (fold (claim_call_step (pc_block_size c)) xs cl)
     \<and> pc_block_size (fold cache_call_step xs c) = pc_block_size c"
  using assms
proof (induction xs arbitrary: c cl)
  case (Cons x xs)
  from Cons.IH[OF cache_call_rep(1)[OF Cons.prems, of x]] cache_call_rep(2)[OF Cons.prems, of x]
  show ?case by simp
qed simp

lemma cache_run_init:
  assumes "pc_init bs = Inr c"
  shows "pc_rep (fold cache_call_step xs c) (fold (claim_call_step bs) xs [])"
    "pc_block_size (fold cache_call_step xs c) = bs"
  using cache_run_rep[OF pc_init_rep(1)[OF assms], of xs] pc_init_rep(2)[OF assms] by auto

text \<open>Evaluating the claims of a concrete history.\<close>

lemmas cache_spec_simps = spec_match_def spec_insert_def spec_evict_def spec_depth_def sharing_def
  blocks_def upt_rec

text \<open>
  C17. Refinement. After any history of \<open>insert\<close>, \<open>evict\<close> and \<open>close\<close> calls on a fresh
  \<open>PythonPrefixCache\<close>, the mutable tree answers as the list of claims does: \<open>match\<close> returns the
  longest shared block prefix with its most recent owner, \<open>node_count\<close> is the number of distinct
  non-empty shared paths and \<open>seq_count\<close> the number of sequences with a claim.
\<close>

theorem prefix_cache_refines_claims:
  assumes "pc_init bs = Inr c"
  shows "pc_match t (fold cache_call_step xs c) = spec_match bs t (fold (claim_call_step bs) xs [])
     \<and> node_count (fold cache_call_step xs c) = int (card (paths (fold (claim_call_step bs) xs []) - {[]}))
     \<and> seq_count (fold cache_call_step xs c) = int (length (fold (claim_call_step bs) xs []))"
  using pc.match_rep[OF cache_run_init(1)[OF assms]] node_count_rep[OF cache_run_init(1)[OF assms]]
    seq_count_rep[OF cache_run_init(1)[OF assms]] cache_run_init(2)[OF assms, of xs] by simp

theorem prefix_cache_refines_claims_witness:
  "\<exists>c. pc_init 2 = Inr c \<and>
     pc_match [1, 2, 5, 6, 9] (fold cache_call_step [CallInsert [1, 2, 3, 4] 7, CallInsert [1, 2, 5, 6] 8] c)
       = PrefixMatch 4 8"
proof -
  obtain c where c: "pc_init 2 = Inr c" by (simp add: pc_init_def)
  have "spec_match 2 [1, 2, 5, 6, 9]
      (fold (claim_call_step 2) [CallInsert [1, 2, 3, 4] 7, CallInsert [1, 2, 5, 6] 8] []) = PrefixMatch 4 8"
    by (simp add: cache_spec_simps)
  with prefix_cache_refines_claims[OF c, of "[1, 2, 5, 6, 9]"
      "[CallInsert [1, 2, 3, 4] 7, CallInsert [1, 2, 5, 6] 8]"] c
  show ?thesis by simp
qed

text \<open>
  Safety of reuse. Whatever the history, a hit of \<open>match_for_reuse\<close> names a sequence that has
  published and not been evicted since; it covers a whole number of blocks, leaves at least one
  prompt token to decode, and the published prompt agrees with the new one on all covered tokens.
\<close>

theorem prefix_reuse_safe:
  assumes "pc_init bs = Inr c"
    and "m = match_for_reuse pc_match bs t (fold cache_call_step xs c)" "is_hit m"
  shows "\<exists>b. (match_seq_id m, b) \<in> set (fold (claim_call_step bs) xs [])
     \<and> n_tokens m < int (length t) \<and> bs dvd n_tokens m \<and> nat (n_tokens m) \<le> length (concat b)
     \<and> take (nat (n_tokens m)) (concat b) = take (nat (n_tokens m)) t"
  using pc.reuse_sound[OF cache_run_init(1)[OF assms(1)], of xs t] assms(2,3)
    cache_run_init(2)[OF assms(1), of xs] by simp

theorem prefix_reuse_safe_witness:
  "\<exists>c b. pc_init 2 = Inr c \<and> (7, b) \<in> set (fold (claim_call_step 2) [CallInsert [1, 2, 3, 4] 7] [])
     \<and> take 2 (concat b) = take 2 [1, 2, 3, 4]"
proof -
  obtain c where c: "pc_init 2 = Inr c" by (simp add: pc_init_def)
  let ?xs = "[CallInsert [1, 2, 3, 4] 7]"
  have "pc_match [1, 2, 3, 4] (fold cache_call_step ?xs c)
      = spec_match 2 [1, 2, 3, 4] (fold (claim_call_step 2) ?xs [])"
    using pc.match_rep[OF cache_run_init(1)[OF c, of ?xs]] cache_run_init(2)[OF c, of ?xs] by metis
  also have "\<dots> = PrefixMatch 4 7" by (simp add: cache_spec_simps)
  finally have m: "PrefixMatch 2 7 = match_for_reuse pc_match 2 [1, 2, 3, 4] (fold cache_call_step ?xs c)"
    by (simp add: match_for_reuse_def del: fold.simps)
  from prefix_reuse_safe[OF c m] c show ?thesis by (auto simp: is_hit_def)
qed

text \<open>
  No usable prefix is given away: if some live claim shares \<open>k\<close> whole blocks with the prompt
  and that many blocks leave a token to decode, the hit covers at least those \<open>k\<close> blocks.
\<close>

theorem prefix_reuse_longest:
  assumes "pc_init bs = Inr c" "(s, b) \<in> set (fold (claim_call_step bs) xs [])"
    and "k \<le> length (blocks bs t)" "prefix (take k (blocks bs t)) b" "int k * bs < int (length t)"
  shows "int k * bs \<le> n_tokens (match_for_reuse pc_match bs t (fold cache_call_step xs c))"
  using pc.reuse_maximal[OF cache_run_init(1)[OF assms(1)] assms(2)] assms(3-)
    cache_run_init(2)[OF assms(1), of xs] by simp

theorem prefix_reuse_longest_witness:
  "\<exists>c. pc_init 2 = Inr c \<and>
     2 \<le> n_tokens (match_for_reuse pc_match 2 [1, 2, 9] (fold cache_call_step [CallInsert [1, 2, 3, 4] 7] c))"
proof -
  obtain c where c: "pc_init 2 = Inr c" by (simp add: pc_init_def)
  have cl: "(7, [[1, 2], [3, 4]]) \<in> set (fold (claim_call_step 2) [CallInsert [1, 2, 3, 4] 7] [])"
    by (simp add: cache_spec_simps)
  have p: "1 \<le> length (blocks 2 [1, 2, 9])" "prefix (take 1 (blocks 2 [1, 2, 9])) [[1, 2], [3, 4]]"
    by (simp_all add: cache_spec_simps)
  from prefix_reuse_longest[OF c cl p] c show ?thesis by simp
qed

end
