(* ===== verification/Native_Tree.thy ===== *)
theory Native_Tree
  imports Prefix_Cache "HOL-Library.Word" "HOL-Library.List_Lexorder"
begin

text \<open>
  The C++ radix tree of \<^verbatim>\<open>native/src/prefix_cache.cpp\<close>. Its nodes are allocated and deleted by hand, so
  the store is a list of cells, \<open>None\<close> where a node has been deleted: \<open>new\<close> appends a cell, \<open>delete\<close>
  empties one, and no address is used twice, so that every access to a deleted node is seen. What is undefined
  behaviour in C++ is a value of \<open>c_fault\<close>: the access to a deleted node, the read past a buffer, the overflow of a
  signed 32-bit integer. A \<open>std::map\<close> is an association list in the order of its keys.

  \<open>py_of\<close> reads such a store as one of the Python backend. \<open>ts_rep\<close> says that it holds the tree of a list of
  claims and that exactly the nodes of this tree are allocated, so the lemmas about the Python tree
  carry over, and every operation is shown to end without a fault.
\<close>

section \<open>Integers and memory\<close>

datatype c_fault = UseAfterFree | OutOfBounds | SignedOverflow

text \<open>The conversion to \<open>int32_t\<close> keeps the low 32 bits; arithmetic in \<open>int32_t\<close> must not leave the range.\<close>

definition i32 :: "int \<Rightarrow> int" where
  "i32 x = sint (word_of_int x :: 32 word)"

definition arith32 :: "int \<Rightarrow> c_fault + int" where
  "arith32 x = (if int32 x then Inr x else Inl SignedOverflow)"

record cnode =
  c_parent :: "nat option"
  c_key :: block
  c_children :: "(block, nat) dict"
  c_owners :: "int list"
  c_depth :: int

type_synonym memory = "cnode option list"

definition mem :: "memory \<Rightarrow> nat \<Rightarrow> cnode option" where
  "mem h a = (if a < length h then h ! a else None)"

definition deref :: "memory \<Rightarrow> nat \<Rightarrow> c_fault + cnode" where
  "deref h a = (case mem h a of None \<Rightarrow> Inl UseAfterFree | Some n \<Rightarrow> Inr n)"

text \<open>\<open>std::map::operator[]\<close>, for a key that gets a value.\<close>

fun map_put :: "'k::linorder \<Rightarrow> 'v \<Rightarrow> ('k, 'v) dict \<Rightarrow> ('k, 'v) dict" where
  "map_put k v [] = [(k, v)]"
| "map_put k v ((k', v') # xs) =
     (if k < k' then (k, v) # (k', v') # xs
      else if k = k' then (k, v) # xs
      else (k', v') # map_put k v xs)"

section \<open>The tree\<close>

record ts_cache =
  ts_block_size :: int
  ts_heap :: memory
  ts_seq_nodes :: "(int, nat list) dict"
  ts_node_count :: int

text \<open>The root is a member of the cache object; its address is 0.\<close>

definition ts_prefix_cache_create :: "int \<Rightarrow> ts_cache option" where
  "ts_prefix_cache_create bs =
     (if bs < 1 then None
      else Some \<lparr>ts_block_size = bs,
             ts_heap = [Some \<lparr>c_parent = None, c_key = [], c_children = [], c_owners = [], c_depth = 0\<rparr>],
             ts_seq_nodes = [], ts_node_count = 0\<rparr>)"

definition read_block :: "int list \<Rightarrow> int \<Rightarrow> nat \<Rightarrow> c_fault + block" where
  "read_block tokens bs b =
     (if (b + 1) * nat bs \<le> length tokens then Inr (take (nat bs) (drop (b * nat bs) tokens)) else Inl OutOfBounds)"

fun c_match_loop :: "memory \<Rightarrow> int list \<Rightarrow> int \<Rightarrow> nat list \<Rightarrow> nat \<Rightarrow> int \<Rightarrow> c_fault + nat \<times> int" where
  "c_match_loop h tokens bs [] node matched = Inr (node, matched)"
| "c_match_loop h tokens bs (b # rest) node matched =
     res_bind (read_block tokens bs b) (\<lambda>key.
     res_bind (deref h node) (\<lambda>n.
       case dict_get (c_children n) key of
         None \<Rightarrow> Inr (node, matched)
       | Some child \<Rightarrow> res_bind (arith32 (matched + 1)) (c_match_loop h tokens bs rest child)))"

text \<open>The returned count and what is written to \<open>out_seq_id\<close>.\<close>

definition c_match :: "int list \<Rightarrow> int \<Rightarrow> ts_cache \<Rightarrow> c_fault + int \<times> int" where
  "c_match tokens n c =
     (if n < ts_block_size c then Inr (0, NO_SEQ)
      else let bs = ts_block_size c in
        res_bind (c_match_loop (ts_heap c) tokens bs [0..<nat (n div bs)] 0 0) (\<lambda>(node, matched).
          if matched = 0 then Inr (0, NO_SEQ)
          else res_bind (deref (ts_heap c) node) (\<lambda>nd.
               res_bind (arith32 (matched * bs)) (\<lambda>r.
                 Inr (r, if c_owners nd \<noteq> [] then last (c_owners nd) else NO_SEQ)))))"

text \<open>One iteration of the loop of \<open>evict\<close>; \<open>drop_owner\<close> erases the first occurrence.\<close>

definition c_evict_node :: "int \<Rightarrow> nat \<Rightarrow> ts_cache \<Rightarrow> c_fault + ts_cache" where
  "c_evict_node sid a c =
     res_bind (deref (ts_heap c) a) (\<lambda>node.
       let node' = node\<lparr>c_owners := remove1 sid (c_owners node)\<rparr>;
           h = (ts_heap c)[a := Some node']
       in if c_owners node' \<noteq> [] \<or> c_children node' \<noteq> [] then Inr (c\<lparr>ts_heap := h\<rparr>)
          else res_bind
            (case c_parent node' of
               None \<Rightarrow> Inr h
             | Some p \<Rightarrow> res_bind (deref h p) (\<lambda>pn.
                 Inr (h[p := Some (pn\<lparr>c_children := dict_del (c_key node') (c_children pn)\<rparr>)])))
            (\<lambda>h'. res_bind (arith32 (ts_node_count c - 1)) (\<lambda>k.
               Inr (c\<lparr>ts_heap := h'[a := None], ts_node_count := k\<rparr>))))"

text \<open>\<open>std::sort\<close> with \<open>DeeperFirst\<close> reads the depth of every node.\<close>

definition c_sort_deepest :: "memory \<Rightarrow> nat list \<Rightarrow> c_fault + nat list" where
  "c_sort_deepest h owned =
     (if list_all (\<lambda>a. mem h a \<noteq> None) owned then Inr (sort_key (\<lambda>a. - c_depth (the (mem h a))) owned)
      else Inl UseAfterFree)"

definition c_evict :: "int \<Rightarrow> ts_cache \<Rightarrow> c_fault + ts_cache" where
  "c_evict sid c =
     (case dict_get (ts_seq_nodes c) sid of
        None \<Rightarrow> Inr c
      | Some owned \<Rightarrow>
          res_bind (c_sort_deepest (ts_heap c) owned) (\<lambda>sorted_owned.
            res_fold (c_evict_node sid) sorted_owned (c\<lparr>ts_seq_nodes := dict_del sid (ts_seq_nodes c)\<rparr>)))"

text \<open>\<open>owned\<close> is a reference into \<open>seq_nodes\<close>, so every iteration of \<open>insert\<close> changes the table.\<close>

definition push_owned :: "int \<Rightarrow> nat \<Rightarrow> (int, nat list) dict \<Rightarrow> (int, nat list) dict" where
  "push_owned sid a d = dict_set sid ((case dict_get d sid of None \<Rightarrow> [] | Some l \<Rightarrow> l) @ [a]) d"

definition c_insert_block :: "int \<Rightarrow> block \<Rightarrow> nat \<Rightarrow> ts_cache \<Rightarrow> c_fault + nat \<times> ts_cache" where
  "c_insert_block sid key node c =
     res_bind (deref (ts_heap c) node) (\<lambda>n.
     res_bind
       (case dict_get (c_children n) key of
          Some a \<Rightarrow> Inr (a, c)
        | None \<Rightarrow>
            let a = length (ts_heap c) in
            res_bind (arith32 (c_depth n + 1)) (\<lambda>d.
            res_bind (arith32 (ts_node_count c + 1)) (\<lambda>k.
              Inr (a, c\<lparr>ts_heap := (ts_heap c)[node := Some (n\<lparr>c_children := map_put key a (c_children n)\<rparr>)]
                    @ [Some \<lparr>c_parent = Some node, c_key = key, c_children = [], c_owners = [], c_depth = d\<rparr>],
                  ts_node_count := k\<rparr>))))
       (\<lambda>(a, c1). res_bind (deref (ts_heap c1) a) (\<lambda>child.
          Inr (a, c1\<lparr>ts_heap := (ts_heap c1)[a := Some (child\<lparr>c_owners := c_owners child @ [sid]\<rparr>)],
                 ts_seq_nodes := push_owned sid a (ts_seq_nodes c1)\<rparr>))))"

fun c_insert_loop :: "int \<Rightarrow> int list \<Rightarrow> int \<Rightarrow> nat list \<Rightarrow> nat \<Rightarrow> ts_cache \<Rightarrow> c_fault + ts_cache" where
  "c_insert_loop sid tokens bs [] node c = Inr c"
| "c_insert_loop sid tokens bs (b # rest) node c =
     res_bind (read_block tokens bs b) (\<lambda>key.
     res_bind (c_insert_block sid key node c) (\<lambda>(child, c1). c_insert_loop sid tokens bs rest child c1))"

definition c_insert :: "int list \<Rightarrow> int \<Rightarrow> int \<Rightarrow> ts_cache \<Rightarrow> c_fault + int \<times> ts_cache" where
  "c_insert tokens n sid c =
     (if n < ts_block_size c then Inr (0, c)
      else res_bind (c_evict sid c) (\<lambda>c1.
        let bs = ts_block_size c1; n_blocks = n div bs;
            c2 = (case dict_get (ts_seq_nodes c1) sid of
                None \<Rightarrow> c1\<lparr>ts_seq_nodes := dict_set sid [] (ts_seq_nodes c1)\<rparr>
              | Some _ \<Rightarrow> c1)
        in res_bind (c_insert_loop sid tokens bs [0..<nat n_blocks] 0 c2) (\<lambda>c3.
           res_bind (arith32 (n_blocks * bs)) (\<lambda>r. Inr (r, c3)))))"

text \<open>
  The teardown of \<open>destroy\<close>: it pops a node, pushes its children and deletes it. Every round deletes a
  node or ends in a fault, so it ends on every memory, cyclic ones included.
\<close>

definition live_cells :: "memory \<Rightarrow> nat" where
  "live_cells h = length (filter (\<lambda>x. x \<noteq> None) h)"

lemma live_cells_delete: "mem h a = Some n \<Longrightarrow> live_cells (h[a := None]) < live_cells h"
proof (induction h arbitrary: a)
  case (Cons x h)
  then show ?case by (cases a) (auto simp: live_cells_def mem_def split: if_splits)
qed (simp add: mem_def)

function c_teardown :: "nat list \<Rightarrow> memory \<Rightarrow> c_fault + memory" where
  "c_teardown stack h =
     (if stack = [] then Inr h
      else case mem h (last stack) of
        None \<Rightarrow> Inl UseAfterFree
      | Some node \<Rightarrow> c_teardown (butlast stack @ vals (c_children node)) (h[last stack := None]))"
  by pat_completeness auto
termination
  by (relation "measure (\<lambda>(_, h). live_cells h)") (auto dest: live_cells_delete)

declare c_teardown.simps [simp del]

text \<open>What is left of the memory when the cache object, and with it the root, is gone.\<close>

definition c_destroy :: "ts_cache \<Rightarrow> c_fault + memory" where
  "c_destroy c =
     res_bind (deref (ts_heap c) 0) (\<lambda>r.
     res_bind (c_teardown (vals (c_children r)) (ts_heap c)) (\<lambda>h. Inr (h[0 := None])))"

text \<open>
  The exported functions. A binding that has been closed passes a null handle; token buffers and
  \<open>out_seq_id\<close> are never null.
\<close>

definition ts_prefix_cache_match :: "ts_cache option \<Rightarrow> int list \<Rightarrow> int \<Rightarrow> c_fault + int \<times> int" where
  "ts_prefix_cache_match cache tokens n = (case cache of None \<Rightarrow> Inr (0, NO_SEQ) | Some c \<Rightarrow> c_match tokens n c)"

definition ts_prefix_cache_insert :: "ts_cache option \<Rightarrow> int list \<Rightarrow> int \<Rightarrow> int \<Rightarrow> c_fault + int \<times> ts_cache option" where
  "ts_prefix_cache_insert cache tokens n sid =
     (case cache of None \<Rightarrow> Inr (0, None) | Some c \<Rightarrow> res_bind (c_insert tokens n sid c) (\<lambda>(r, c'). Inr (r, Some c')))"

definition ts_prefix_cache_evict :: "ts_cache option \<Rightarrow> int \<Rightarrow> c_fault + ts_cache option" where
  "ts_prefix_cache_evict cache sid =
     (case cache of None \<Rightarrow> Inr None | Some c \<Rightarrow> res_bind (c_evict sid c) (\<lambda>c'. Inr (Some c')))"

definition ts_prefix_cache_destroy :: "ts_cache option \<Rightarrow> c_fault + memory" where
  "ts_prefix_cache_destroy cache = (case cache of None \<Rightarrow> Inr [] | Some c \<Rightarrow> c_destroy c)"

definition ts_prefix_cache_node_count :: "ts_cache option \<Rightarrow> int" where
  "ts_prefix_cache_node_count cache = (case cache of None \<Rightarrow> 0 | Some c \<Rightarrow> ts_node_count c)"

definition ts_prefix_cache_seq_count :: "ts_cache option \<Rightarrow> int" where
  "ts_prefix_cache_seq_count cache = (case cache of None \<Rightarrow> 0 | Some c \<Rightarrow> i32 (int (length (ts_seq_nodes c))))"

definition ts_prefix_cache_abi_version :: bytes where
  "ts_prefix_cache_abi_version = [49, 46, 48]"

lemma i32_id [simp]: "int32 x \<Longrightarrow> i32 x = x"
  by (simp add: i32_def int32_def sint_sbintrunc' signed_take_bit_int_eq_self)

lemma arith32_ok [simp]: "int32 x \<Longrightarrow> arith32 x = Inr x"
  by (simp add: arith32_def)

section \<open>Memory\<close>

lemma mem_update: "mem (h[a := x]) b = (if b = a \<and> a < length h then x else mem h b)"
  by (auto simp: mem_def)

lemma mem_append: "mem (h @ [x]) b = (if b = length h then x else mem h b)"
  by (auto simp: mem_def nth_append)

lemma mem_Some: "mem h a = Some n \<Longrightarrow> a < length h"
  by (simp add: mem_def split: if_splits)

lemma deref_eq: "mem h a = Some n \<Longrightarrow> deref h a = Inr n"
  by (simp add: deref_def)

lemma map_of_map_put [simp]: "dict_get (map_put k v d) = (dict_get d)(k \<mapsto> v)"
  by (induction k v d rule: map_put.induct) auto

lemma keys_map_put: "set (keys (map_put k v d)) = insert k (set (keys d))"
  by (induction k v d rule: map_put.induct) auto

lemma sorted_map_put: "sorted_wrt (<) (keys d) \<Longrightarrow> sorted_wrt (<) (keys (map_put k v d))"
  by (induction k v d rule: map_put.induct) (auto simp: keys_map_put simp del: set_map)

section \<open>The tree of a list of claims\<close>

definition py_node :: "cnode \<Rightarrow> pnode" where
  "py_node n = \<lparr>children = c_children n, owners = c_owners n, parent = c_parent n,
     node_key = (case c_parent n of None \<Rightarrow> None | Some _ \<Rightarrow> Some (c_key n)), depth = c_depth n\<rparr>"

definition py_heap :: "memory \<Rightarrow> nat \<Rightarrow> pnode" where
  "py_heap h a = (case mem h a of None \<Rightarrow> new_node None None 0 | Some n \<Rightarrow> py_node n)"

definition py_of :: "ts_cache \<Rightarrow> py_cache" where
  "py_of c = \<lparr>pc_block_size = ts_block_size c, heap = py_heap (ts_heap c), next_addr = length (ts_heap c), root = 0,
     seq_nodes = ts_seq_nodes c, pc_node_count = ts_node_count c\<rparr>"

definition ts_at :: "(block list \<Rightarrow> nat) \<Rightarrow> ts_cache \<Rightarrow> claim list \<Rightarrow> bool" where
  "ts_at loc c cl \<longleftrightarrow> pc_rep_at loc (py_of c) cl \<and> (\<forall>a. mem (ts_heap c) a \<noteq> None \<longleftrightarrow> a \<in> loc ` paths cl)"

definition ts_rep :: "ts_cache \<Rightarrow> claim list \<Rightarrow> bool" where
  "ts_rep c cl \<longleftrightarrow> 0 < ts_block_size c \<and> claims_wf cl
     \<and> (\<exists>loc. ts_at loc c cl \<and> ts_seq_nodes c = map (\<lambda>(s, b). (s, claim_nodes loc b)) cl)"

text \<open>The relation reads the store only at the paths, and a node only up to the order of its children.\<close>

lemma tree_rep_cong:
  assumes "tree_rep h r nxt loc cl"
    and "\<And>p. p \<in> paths cl \<Longrightarrow> owners (h' (loc p)) = owners (h (loc p)) \<and> depth (h' (loc p)) = depth (h (loc p))
       \<and> parent (h' (loc p)) = parent (h (loc p)) \<and> node_key (h' (loc p)) = node_key (h (loc p))
       \<and> dict_wf (children (h' (loc p))) \<and> dict_get (children (h' (loc p))) = dict_get (children (h (loc p)))"
  shows "tree_rep h' r nxt loc cl"
  using assms unfolding tree_rep_def node_ok_def by simp

lemma py_of_fields [simp]:
  "pc_block_size (py_of c) = ts_block_size c" "heap (py_of c) = py_heap (ts_heap c)" "next_addr (py_of c) = length (ts_heap c)"
  "root (py_of c) = 0" "seq_nodes (py_of c) = ts_seq_nodes c" "pc_node_count (py_of c) = ts_node_count c"
  by (simp_all add: py_of_def)

lemma ts_rep_py: "ts_rep c cl \<Longrightarrow> pc_rep (py_of c) cl"
  by (auto simp: ts_rep_def pc_rep_def ts_at_def)

lemma ts_atD:
  assumes "ts_at loc c cl"
  shows "tree_rep (py_heap (ts_heap c)) 0 (length (ts_heap c)) loc cl"
    "ts_node_count c = int (card (paths cl - {[]}))" "loc [] = 0"
    "mem (ts_heap c) a = None \<longleftrightarrow> a \<notin> loc ` paths cl"
proof -
  show "tree_rep (py_heap (ts_heap c)) 0 (length (ts_heap c)) loc cl" "ts_node_count c = int (card (paths cl - {[]}))"
    "loc [] = 0" using assms by (simp_all add: ts_at_def pc_rep_at_def tree_rep_def)
  show "mem (ts_heap c) a = None \<longleftrightarrow> a \<notin> loc ` paths cl" using assms unfolding ts_at_def by blast
qed

lemma ts_at_node:
  assumes "ts_at loc c cl" "p \<in> paths cl"
  obtains n where "mem (ts_heap c) (loc p) = Some n" "deref (ts_heap c) (loc p) = Inr n"
    "py_heap (ts_heap c) (loc p) = py_node n" "loc p < length (ts_heap c)"
proof -
  have "mem (ts_heap c) (loc p) \<noteq> None" using ts_atD(4)[OF assms(1)] assms(2) by blast
  then obtain n where n: "mem (ts_heap c) (loc p) = Some n" by blast
  from that[OF n deref_eq[OF n] _ mem_Some[OF n]] n show thesis by (simp add: py_heap_def)
qed

lemma py_node_fields [simp]:
  "children (py_node n) = c_children n" "owners (py_node n) = c_owners n" "parent (py_node n) = c_parent n"
  "depth (py_node n) = c_depth n" "node_key (py_node n) = (case c_parent n of None \<Rightarrow> None | Some _ \<Rightarrow> Some (c_key n))"
  by (simp_all add: py_node_def)

lemma py_node_update [simp]:
  "py_node (n\<lparr>c_owners := os\<rparr>) = (py_node n)\<lparr>owners := os\<rparr>"
  "py_node (n\<lparr>c_children := ch\<rparr>) = (py_node n)\<lparr>children := ch\<rparr>"
  by (simp_all add: py_node_def split: option.split)

section \<open>Matching\<close>

lemma c_match_loop_walk:
  assumes at: "ts_at loc c cl" and p: "p \<in> paths cl" and keys: "\<forall>b \<in> set bl. read_block t bs b = Inr (key b)"
    and m: "0 \<le> m" "m + int (length bl) < 2 ^ 31"
  shows "c_match_loop (ts_heap c) t bs bl (loc p) m = Inr (walk (py_heap (ts_heap c)) (loc p) m (map key bl))"
  using p keys m
proof (induction bl arbitrary: p m)
  case (Cons b bl)
  note tr = ts_atD(1)[OF at]
  from ts_at_node[OF at Cons.prems(1)] obtain n where n: "mem (ts_heap c) (loc p) = Some n"
    "deref (ts_heap c) (loc p) = Inr n" "py_heap (ts_heap c) (loc p) = py_node n" by blast
  have d: "dict_get (c_children n) (key b) = (if p @ [key b] \<in> paths cl then Some (loc (p @ [key b])) else None)"
    using tree_repD(7)[OF tr Cons.prems(1), of "key b"] n(3) by simp
  have "int32 (m + 1)" using Cons.prems(3,4) by (simp add: int32_def)
  with Cons.IH[of "p @ [key b]" "m + 1"] Cons.prems n d show ?case by simp
qed simp

lemma read_block_ok:
  assumes "0 < bs" "b < length (blocks bs t)"
  shows "read_block t bs b = Inr (blocks bs t ! b)"
  using blocks_extent[OF assms(1), of "Suc b" t] assms nth_blocks[OF assms] by (simp add: read_block_def)

lemma map_blocks: "map (\<lambda>b. blocks bs t ! b) [0..<nat (int (length t) div bs)] = blocks bs t"
  by (metis length_blocks map_nth)

lemma length_blocks_le:
  assumes "0 < bs"
  shows "length (blocks bs t) \<le> length t"
proof -
  have "length (blocks bs t) * 1 \<le> length (blocks bs t) * nat bs" using assms by (intro mult_le_mono2) simp
  also have "\<dots> \<le> length t" by (rule blocks_extent[OF assms]) simp
  finally show ?thesis by simp
qed

lemma c_match_spec:
  assumes rep: "ts_rep c cl" and t: "int (length t) < 2 ^ 31"
  shows "c_match t (int (length t)) c = Inr (n_tokens (spec_match (ts_block_size c) t cl), match_seq_id (spec_match (ts_block_size c) t cl))"
proof -
  let ?bs = "ts_block_size c" and ?h = "py_heap (ts_heap c)" and ?ks = "blocks (ts_block_size c) t"
  from rep obtain loc where at: "ts_at loc c cl" and bs: "0 < ?bs" by (auto simp: ts_rep_def)
  note tr = ts_atD(1)[OF at]
  have s: "pc_match t (py_of c) = spec_match ?bs t cl" using pc.match_rep[OF ts_rep_py[OF rep]] by simp
  have len: "length ?ks \<le> length t" by (rule length_blocks_le[OF bs])
  have "c_match_loop (ts_heap c) t ?bs [0..<nat (int (length t) div ?bs)] (loc []) 0
      = Inr (walk ?h (loc []) 0 (map (\<lambda>b. ?ks ! b) [0..<nat (int (length t) div ?bs)]))"
    using bs len t by (intro c_match_loop_walk[OF at]) (auto simp: read_block_ok length_blocks)
  then have w: "c_match_loop (ts_heap c) t ?bs [0..<nat (int (length t) div ?bs)] 0 0 = Inr (walk ?h 0 0 ?ks)"
    using ts_atD(3)[OF at] by (simp add: map_blocks)
  let ?d = "spec_depth cl ?ks"
  have p: "take ?d ?ks \<in> paths cl" using le_spec_depth[OF spec_depth_le] by blast
  from ts_at_node[OF at p] obtain n where n: "deref (ts_heap c) (loc (take ?d ?ks)) = Inr n"
    "?h (loc (take ?d ?ks)) = py_node n" by blast
  have "?d * nat ?bs \<le> length t" using blocks_extent[OF bs spec_depth_le] .
  then have "int ?d * ?bs \<le> int (length t)" using bs by (metis int_nat_eq int_ops(7) less_imp_le of_nat_le_iff)
  moreover have "0 \<le> int ?d * ?bs" using bs by simp
  ultimately have r: "int32 (int ?d * ?bs)" using t unfolding int32_def by linarith
  have "c_match t (int (length t)) c = Inr (n_tokens (pc_match t (py_of c)), match_seq_id (pc_match t (py_of c)))"
    using n r by (simp add: c_match_def pc_match_def Let_def w walk_depth[OF tr])
  then show ?thesis unfolding s .
qed

section \<open>Evicting\<close>

lemma insort_key_cong: "\<forall>y \<in> insert x (set ys). f y = g y \<Longrightarrow> insort_key f x ys = insort_key g x ys"
  by (induction ys) auto

lemma sort_key_cong: "\<forall>x \<in> set xs. f x = g x \<Longrightarrow> sort_key f xs = sort_key g xs"
  by (induction xs) (auto intro!: insort_key_cong)

lemma py_heap_update:
  "a < length h \<Longrightarrow> py_heap (h[a := Some n]) = (py_heap h)(a := py_node n)"
  by (auto simp: py_heap_def mem_update fun_eq_iff)

lemma drop_owner: "(if s \<in> set os then remove1 s os else os) = remove1 s os"
  by (simp add: remove1_idem)

lemma c_evict_round:
  assumes at: "ts_at loc c (cl1 @ (s, p @ [k]) # cl2)" and s: "s \<notin> fst ` set (cl1 @ cl2)"
    and small: "int32 (ts_node_count c)"
  shows "\<exists>c'. c_evict_node s (loc (p @ [k])) c = Inr c' \<and> ts_at loc c' (cl1 @ (s, p) # cl2)
     \<and> ts_seq_nodes c' = ts_seq_nodes c \<and> ts_block_size c' = ts_block_size c \<and> int32 (ts_node_count c')"
proof -
  let ?pk = "p @ [k]" and ?cl = "cl1 @ (s, p) # cl2" and ?cl' = "cl1 @ (s, p @ [k]) # cl2"
  let ?py = "evict_node s (loc ?pk) (py_of c)"
  note tr = ts_atD(1)[OF at]
  note O = evict_owners[OF tr s]
  have R: "pc_rep_at loc ?py ?cl" using at evict_round(1)[OF _ s] by (simp add: ts_at_def)
  have pa: "paths ?cl' = insert ?pk (paths ?cl)" by (rule paths_snoc)
  have pk: "?pk \<in> paths ?cl'" and p: "p \<in> paths ?cl'" by (simp_all add: pa paths_append paths_Cons)
  have ne: "loc p \<noteq> loc ?pk" using tree_rep_eq_iff[OF tr p pk] by simp
  from ts_at_node[OF at pk] obtain n where n: "mem (ts_heap c) (loc ?pk) = Some n" "deref (ts_heap c) (loc ?pk) = Inr n"
    "py_heap (ts_heap c) (loc ?pk) = py_node n" "loc ?pk < length (ts_heap c)" by blast
  from ts_at_node[OF at p] obtain m where m: "mem (ts_heap c) (loc p) = Some m" "py_heap (ts_heap c) (loc p) = py_node m"
    "loc p < length (ts_heap c)" by blast
  have up: "c_parent n = Some (loc p)" "c_key n = k"
    using tree_repD(4,5)[OF tr pk] n(3) by (auto split: option.splits)
  let ?os = "remove1 s (c_owners n)"
  let ?h = "(ts_heap c)[loc ?pk := Some (n\<lparr>c_owners := ?os\<rparr>)]"
  show ?thesis
  proof (cases "?os \<noteq> [] \<or> c_children n \<noteq> []")
    case True
    let ?c = "c\<lparr>ts_heap := ?h\<rparr>"
    have e: "c_evict_node s (loc ?pk) c = Inr ?c" using True n(2) by (simp add: c_evict_node_def Let_def)
    have "?py = py_of ?c"
      using True n(3,4) by (simp add: evict_node_def Let_def py_of_def py_heap_update drop_owner)
    moreover have "?pk \<in> paths ?cl" using True O n(3) by auto
    ultimately show ?thesis using e R at pa small n(1) by (auto simp: ts_at_def mem_update insert_absorb)
  next
    case False
    let ?hp = "?h[loc p := Some (m\<lparr>c_children := dict_del k (c_children m)\<rparr>)]"
    let ?c = "c\<lparr>ts_heap := ?hp[loc ?pk := None], ts_node_count := ts_node_count c - 1\<rparr>"
    have new: "?pk \<notin> paths ?cl" using False O n(3) by auto
    have "?pk \<in> paths ?cl' - {[]}" using pk by simp
    then have "0 < ts_node_count c" unfolding ts_atD(2)[OF at] by (metis card_gt_0_iff empty_iff finite_Diff finite_paths of_nat_0_less_iff)
    then have small': "int32 (ts_node_count c - 1)" using small by (simp add: int32_def)
    moreover have "deref ?h (loc p) = Inr m" using m(1) ne by (simp add: deref_def mem_update)
    ultimately have e: "c_evict_node s (loc ?pk) c = Inr ?c"
      using False n(2) up by (simp add: c_evict_node_def Let_def)
    have same: "py_heap (?hp[loc ?pk := None]) (loc q) = heap ?py (loc q)" if q: "q \<in> paths ?cl" for q
    proof -
      have "loc q \<noteq> loc ?pk" using tree_rep_eq_iff[OF tr _ pk, of q] q new pa by auto
      then have "py_heap (?hp[loc ?pk := None]) (loc q) = py_heap ?hp (loc q)" by (simp add: py_heap_def mem_update)
      then show ?thesis using False n(3,4) m(2,3) up ne
        by (simp add: evict_node_def Let_def py_heap_update drop_owner)
    qed
    have t: "tree_rep (heap ?py) 0 (length (ts_heap c)) loc ?cl" and "ts_node_count c - 1 = int (card (paths ?cl - {[]}))"
      using R False n(3) by (simp_all add: pc_rep_at_def evict_node_def Let_def drop_owner)
    moreover have "tree_rep (py_heap (?hp[loc ?pk := None])) 0 (length (ts_heap c)) loc ?cl"
      by (rule tree_rep_cong[OF t]) (use tree_repD(6)[OF t] same in simp)
    moreover have "mem (?hp[loc ?pk := None]) a \<noteq> None \<longleftrightarrow> a \<in> loc ` paths ?cl" for a
    proof -
      have "loc ` paths ?cl = loc ` paths ?cl' - {loc ?pk}"
        using tree_rep_eq_iff[OF tr _ pk] new unfolding pa by (auto simp: image_iff)
      moreover have "loc p \<in> loc ` paths ?cl'" using p by blast
      ultimately show ?thesis using ts_atD(4)[OF at, of a] n(4) ne by (auto simp: mem_update)
    qed
    ultimately have "ts_at loc ?c ?cl" by (simp add: ts_at_def pc_rep_at_def)
    with e small' show ?thesis by simp
  qed
qed

lemma c_evict_path:
  assumes "ts_at loc c (cl1 @ (s, take j b) # cl2)" "s \<notin> fst ` set (cl1 @ cl2)" "j \<le> length b" "int32 (ts_node_count c)"
  shows "\<exists>c'. res_fold (c_evict_node s) (rev (map (\<lambda>i. loc (take i b)) [1..<Suc j])) c = Inr c' \<and> ts_at loc c' (cl1 @ (s, []) # cl2)
     \<and> ts_seq_nodes c' = ts_seq_nodes c \<and> ts_block_size c' = ts_block_size c \<and> int32 (ts_node_count c')"
  using assms(1,3,4)
proof (induction j arbitrary: c)
  case (Suc j)
  then have tk: "take (Suc j) b = take j b @ [b ! j]" by (simp add: take_Suc_conv_app_nth)
  from c_evict_round[OF Suc.prems(1)[unfolded tk] assms(2) Suc.prems(3)] obtain c1 where
    r: "c_evict_node s (loc (take (Suc j) b)) c = Inr c1" "ts_at loc c1 (cl1 @ (s, take j b) # cl2)"
    "ts_seq_nodes c1 = ts_seq_nodes c" "ts_block_size c1 = ts_block_size c" "int32 (ts_node_count c1)" by (auto simp: tk)
  with Suc.IH[OF r(2) _ r(5)] Suc.prems(2) show ?case by simp
qed simp

lemma ts_at_Nil_claim: "ts_at loc c (cl1 @ (s, []) # cl2) \<longleftrightarrow> ts_at loc c (cl1 @ cl2)"
proof -
  have "paths (cl1 @ (s, []) # cl2) = paths (cl1 @ cl2)" by (auto simp: paths_append paths_Cons paths_def)
  then show ?thesis by (simp add: ts_at_def pc_rep_at_Nil_claim)
qed

lemma ts_at_seq_nodes [simp]: "ts_at loc (c\<lparr>ts_seq_nodes := d\<rparr>) cl = ts_at loc c cl"
  by (simp add: ts_at_def pc_rep_at_def)

lemma c_evict_rep:
  assumes "ts_rep c cl" "int32 (ts_node_count c)"
  shows "\<exists>c'. c_evict s c = Inr c' \<and> ts_rep c' (spec_evict s cl) \<and> ts_block_size c' = ts_block_size c \<and> int32 (ts_node_count c')"
proof (cases "s \<in> fst ` set cl")
  case False
  from assms obtain loc where sn: "ts_seq_nodes c = map (\<lambda>(s, b). (s, claim_nodes loc b)) cl" by (auto simp: ts_rep_def)
  have "dict_get (ts_seq_nodes c) s = None" using False unfolding sn by (force simp: dict_get_eq_None)
  moreover have "spec_evict s cl = cl" using False by (force simp: spec_evict_def filter_id_conv)
  ultimately show ?thesis using assms by (simp add: c_evict_def)
next
  case True
  from assms(1) obtain loc where at: "ts_at loc c cl" and bs: "0 < ts_block_size c" and wf: "claims_wf cl"
    and sn: "ts_seq_nodes c = map (\<lambda>(s, b). (s, claim_nodes loc b)) cl" by (auto simp: ts_rep_def)
  from True obtain b cl1 cl2 where cl: "cl = cl1 @ (s, b) # cl2" by (metis imageE prod.collapse split_list)
  with wf have s: "s \<notin> fst ` set (cl1 @ cl2)" by (auto simp: claims_wf_def)
  then have "\<forall>c \<in> set (cl1 @ cl2). fst c \<noteq> s" by auto
  then have ev: "spec_evict s cl = cl1 @ cl2" by (simp add: cl spec_evict_def)
  have "dict_wf (ts_seq_nodes c)" using wf unfolding sn by (simp add: dict_wf_def claims_wf_def comp_def case_prod_beta)
  then have g: "dict_get (ts_seq_nodes c) s = Some (claim_nodes loc b)" by (rule dict_get_in) (simp add: sn cl)
  let ?c = "c\<lparr>ts_seq_nodes := dict_del s (ts_seq_nodes c)\<rparr>"
  have in_cl: "(s, b) \<in> set cl" by (simp add: cl)
  have live: "\<exists>n. mem (ts_heap c) a = Some n \<and> py_heap (ts_heap c) a = py_node n" if a: "a \<in> set (claim_nodes loc b)" for a
  proof -
    from a obtain i where i: "a = loc (take i b)" by (auto simp: claim_nodes_def)
    have "take i b \<in> paths cl" using in_cl take_is_prefix by (force simp: paths_def)
    from ts_at_node[OF at this] i show ?thesis by metis
  qed
  then have "sort_key (\<lambda>a. - c_depth (the (mem (ts_heap c) a))) (claim_nodes loc b)
      = sort_key (\<lambda>a. - depth (py_heap (ts_heap c) a)) (claim_nodes loc b)"
    by (intro sort_key_cong) fastforce
  then have st: "c_sort_deepest (ts_heap c) (claim_nodes loc b) = Inr (rev (claim_nodes loc b))"
    using live sort_claim_nodes[OF ts_atD(1)[OF at] in_cl] by (auto simp: c_sort_deepest_def list_all_iff)
  from c_evict_path[of loc ?c cl1 s "length b" b cl2] at s assms(2) obtain c' where
    c': "res_fold (c_evict_node s) (rev (claim_nodes loc b)) ?c = Inr c'" "ts_at loc c' (cl1 @ (s, []) # cl2)"
    "ts_seq_nodes c' = dict_del s (ts_seq_nodes c)" "ts_block_size c' = ts_block_size c" "int32 (ts_node_count c')"
    by (auto simp: cl claim_nodes_def)
  moreover have "ts_rep c' (spec_evict s cl)"
    unfolding ts_rep_def using c' bs spec_evict_wf[OF wf, of s]
    by (auto simp: ts_at_Nil_claim ev[symmetric] sn dict_del_map_claims)
  ultimately show ?thesis using g st by (auto simp: c_evict_def)
qed

section \<open>Inserting\<close>

lemma card_paths_mono: "paths cl \<subseteq> paths cl' \<Longrightarrow> card (paths cl - {[]}) \<le> card (paths cl' - {[]})"
  by (intro card_mono) auto

lemma dict_wf_map_put: "dict_wf d \<Longrightarrow> k \<notin> set (keys d) \<Longrightarrow> dict_wf (map_put k v d)"
  unfolding dict_wf_def by (induction k v d rule: map_put.induct) (auto simp: keys_map_put simp del: set_map)

lemma c_insert_old:
  assumes at: "ts_at loc c (cl @ [(s, p)])" and pk: "p @ [k] \<in> paths (cl @ [(s, p)])"
  shows "\<exists>c'. c_insert_block s k (loc p) c = Inr (loc (p @ [k]), c') \<and> ts_at loc c' (cl @ [(s, p @ [k])])
     \<and> ts_seq_nodes c' = push_owned s (loc (p @ [k])) (ts_seq_nodes c) \<and> ts_block_size c' = ts_block_size c"
proof -
  let ?cl = "cl @ [(s, p)]" and ?a = "loc (p @ [k])"
  note tr = ts_atD(1)[OF at]
  have p: "p \<in> paths ?cl" by (simp add: paths_append paths_Cons)
  from ts_at_node[OF at p] obtain m where m: "deref (ts_heap c) (loc p) = Inr m" "py_heap (ts_heap c) (loc p) = py_node m" by blast
  from ts_at_node[OF at pk] obtain n where n: "deref (ts_heap c) ?a = Inr n" "py_heap (ts_heap c) ?a = py_node n"
    "?a < length (ts_heap c)" by blast
  let ?c = "c\<lparr>ts_heap := (ts_heap c)[?a := Some (n\<lparr>c_owners := c_owners n @ [s]\<rparr>)], ts_seq_nodes := push_owned s ?a (ts_seq_nodes c)\<rparr>"
  have pa: "paths (cl @ [(s, p @ [k])]) = paths ?cl" using pk by (simp add: paths_snoc insert_absorb)
  have "dict_get (c_children m) k = Some ?a" using tree_repD(7)[OF tr p, of k] pk m(2) by simp
  then have "c_insert_block s k (loc p) c = Inr (?a, ?c)" using m(1) n(1) by (simp add: c_insert_block_def)
  moreover have "ts_at loc ?c (cl @ [(s, p @ [k])])"
    using tree_add_owner[OF tr pk] at pk n
    by (auto simp: ts_at_def pc_rep_at_def pa py_heap_update mem_update simp del: card_Diff_insert)
  ultimately show ?thesis by auto
qed

lemma c_insert_new:
  assumes at: "ts_at loc c (cl @ [(s, p)])" and pk: "p @ [k] \<notin> paths (cl @ [(s, p)])"
    and small: "int32 (ts_node_count c + 1)" "int32 (int (length p) + 1)"
  defines "loc' \<equiv> loc(p @ [k] := length (ts_heap c))"
  shows "\<exists>c'. c_insert_block s k (loc p) c = Inr (loc' (p @ [k]), c') \<and> ts_at loc' c' (cl @ [(s, p @ [k])])
     \<and> ts_seq_nodes c' = push_owned s (loc' (p @ [k])) (ts_seq_nodes c) \<and> ts_block_size c' = ts_block_size c"
proof -
  let ?cl = "cl @ [(s, p)]" and ?cl' = "cl @ [(s, p @ [k])]" and ?a = "length (ts_heap c)"
  note tr = ts_atD(1)[OF at]
  have p: "p \<in> paths ?cl" by (simp add: paths_append paths_Cons)
  from ts_at_node[OF at p] obtain m where m: "mem (ts_heap c) (loc p) = Some m" "deref (ts_heap c) (loc p) = Inr m"
    "py_heap (ts_heap c) (loc p) = py_node m" "loc p < ?a" by blast
  have pa: "paths ?cl' = insert (p @ [k]) (paths ?cl)" by (rule paths_snoc)
  have d: "c_depth m = int (length p)" using tree_repD(3)[OF tr p] m(3) by simp
  let ?new = "\<lparr>c_parent = Some (loc p), c_key = k, c_children = [], c_owners = [s], c_depth = int (length p) + 1\<rparr>"
  let ?h = "(ts_heap c)[loc p := Some (m\<lparr>c_children := map_put k ?a (c_children m)\<rparr>)] @ [Some ?new]"
  let ?c = "c\<lparr>ts_node_count := ts_node_count c + 1, ts_heap := ?h, ts_seq_nodes := push_owned s ?a (ts_seq_nodes c)\<rparr>"
  have none: "dict_get (c_children m) k = None" using tree_repD(7)[OF tr p, of k] pk m(3) by simp
  then have e: "c_insert_block s k (loc p) c = Inr (?a, ?c)"
    using m(2) small d by (simp add: c_insert_block_def Let_def deref_def mem_append list_update_append)
  let ?h1 = "(py_heap (ts_heap c))(?a := new_node (Some (loc p)) (Some k) (depth (py_heap (ts_heap c) (loc p)) + 1))"
  let ?h2 = "?h1(loc p := (?h1 (loc p))\<lparr>children := dict_set k ?a (children (?h1 (loc p)))\<rparr>)"
  let ?h3 = "?h2(?a := (?h2 ?a)\<lparr>owners := owners (?h2 ?a) @ [s]\<rparr>)"
  have T: "tree_rep ?h3 0 (Suc ?a) loc' ?cl'" unfolding loc'_def by (rule tree_new_child[OF tr pk])
  have lt: "loc q < ?a" if "q \<in> paths ?cl" for q using tree_repD(1)[OF tr that] .
  have eq: "owners (py_heap ?h b) = owners (?h3 b) \<and> depth (py_heap ?h b) = depth (?h3 b)
       \<and> parent (py_heap ?h b) = parent (?h3 b) \<and> node_key (py_heap ?h b) = node_key (?h3 b)
       \<and> dict_get (children (py_heap ?h b)) = dict_get (children (?h3 b))
       \<and> (dict_wf (children (?h3 b)) \<longrightarrow> dict_wf (children (py_heap ?h b)))" for b
  proof -
    have "dict_wf (c_children m)" using tree_repD(6)[OF tr p] m(3) by simp
    then have "dict_wf (map_put k ?a (c_children m))" using none dict_wf_map_put by (metis dict_get_eq_None)
    then show ?thesis using m d by (auto simp: py_heap_def mem_append mem_update new_node_def)
  qed
  have "tree_rep (py_heap ?h) 0 (Suc ?a) loc' ?cl'"
    by (rule tree_rep_cong[OF T]) (use tree_repD(6)[OF T] eq in blast)
  moreover have "paths ?cl' - {[]} = insert (p @ [k]) (paths ?cl - {[]})" by (auto simp: pa)
  then have "ts_node_count c + 1 = int (card (paths ?cl' - {[]}))" using ts_atD(2)[OF at] pk by simp
  moreover have "mem ?h b \<noteq> None \<longleftrightarrow> b \<in> loc' ` paths ?cl'" for b
  proof -
    have "loc' ` paths ?cl' = insert ?a (loc ` paths ?cl)" using pk unfolding pa loc'_def by (auto simp: image_iff)
    then show ?thesis using ts_atD(4)[OF at, of b] m(1) p by (auto simp: mem_append mem_update)
  qed
  ultimately have "ts_at loc' ?c ?cl'" by (simp add: ts_at_def pc_rep_at_def)
  with e show ?thesis by (auto simp: loc'_def)
qed

lemma c_insert_path:
  assumes "ts_at loc c (cl @ [(s, p)])" "dict_get (ts_seq_nodes c) s = Some owned"
    and "\<forall>b \<in> set bl. read_block t bs b = Inr (key b)"
    and "int (card (paths (cl @ [(s, p @ map key bl)]) - {[]})) < 2 ^ 31" "int (length (p @ map key bl)) < 2 ^ 31"
  shows "\<exists>c' loc'. c_insert_loop s t bs bl (loc p) c = Inr c' \<and> ts_at loc' c' (cl @ [(s, p @ map key bl)])
     \<and> (\<forall>q \<in> paths (cl @ [(s, p)]). loc' q = loc q)
     \<and> ts_seq_nodes c' = dict_set s (owned @ map (\<lambda>i. loc' (p @ take i (map key bl))) [1..<Suc (length bl)]) (ts_seq_nodes c)
     \<and> ts_block_size c' = ts_block_size c"
  using assms
proof (induction bl arbitrary: p owned c loc)
  case Nil
  then show ?case by (intro exI[of _ c] exI[of _ loc]) (simp add: update_triv)
next
  case (Cons b bl)
  let ?k = "key b" and ?ks = "map key bl"
  have pa: "paths (cl @ [(s, p @ [?k])]) = insert (p @ [?k]) (paths (cl @ [(s, p)]))" by (rule paths_snoc)
  have "paths (cl @ [(s, p @ [?k])]) \<subseteq> paths (cl @ [(s, p @ map key (b # bl))])"
    by (auto simp: paths_append paths_Cons intro: prefix_order.trans)
  then have small: "int (card (paths (cl @ [(s, p @ [?k])]) - {[]})) < 2 ^ 31"
    using card_paths_mono Cons.prems(4) by (meson le_less_trans of_nat_le_iff)
  obtain c1 loc1 where r: "c_insert_block s ?k (loc p) c = Inr (loc1 (p @ [?k]), c1)"
    "ts_at loc1 c1 (cl @ [(s, p @ [?k])])" "\<forall>q \<in> paths (cl @ [(s, p)]). loc1 q = loc q"
    "ts_seq_nodes c1 = push_owned s (loc1 (p @ [?k])) (ts_seq_nodes c)" "ts_block_size c1 = ts_block_size c"
  proof (cases "p @ [?k] \<in> paths (cl @ [(s, p)])")
    case True
    with c_insert_old[OF Cons.prems(1) True] that[of loc] show thesis by blast
  next
    case False
    have "paths (cl @ [(s, p @ [?k])]) - {[]} = insert (p @ [?k]) (paths (cl @ [(s, p)]) - {[]})" by (auto simp: pa)
    then have "ts_node_count c + 1 = int (card (paths (cl @ [(s, p @ [?k])]) - {[]}))"
      using ts_atD(2)[OF Cons.prems(1)] False by simp
    then have "int32 (ts_node_count c + 1)" "int32 (int (length p) + 1)"
      using small Cons.prems(5) by (simp_all add: int32_def)
    with c_insert_new[OF Cons.prems(1) False] that[of "loc(p @ [?k] := length (ts_heap c))"] False show thesis by fastforce
  qed
  have g: "dict_get (ts_seq_nodes c1) s = Some (owned @ [loc1 (p @ [?k])])"
    "ts_seq_nodes c1 = dict_set s (owned @ [loc1 (p @ [?k])]) (ts_seq_nodes c)"
    using r(4) Cons.prems(2) by (simp_all add: push_owned_def)
  from Cons.IH[OF r(2) g(1)] Cons.prems(3-) obtain c2 loc2 where i:
    "c_insert_loop s t bs bl (loc1 (p @ [?k])) c1 = Inr c2" "ts_at loc2 c2 (cl @ [(s, (p @ [?k]) @ ?ks)])"
    "\<forall>q \<in> paths (cl @ [(s, p @ [?k])]). loc2 q = loc1 q"
    "ts_seq_nodes c2 = dict_set s ((owned @ [loc1 (p @ [?k])]) @ map (\<lambda>i. loc2 ((p @ [?k]) @ take i ?ks)) [1..<Suc (length bl)])
       (ts_seq_nodes c1)" "ts_block_size c2 = ts_block_size c1" by auto
  have "loc2 (p @ [?k]) = loc1 (p @ [?k])" using i(3) by (simp add: pa)
  then have "(owned @ [loc1 (p @ [?k])]) @ map (\<lambda>i. loc2 ((p @ [?k]) @ take i ?ks)) [1..<Suc (length bl)]
      = owned @ map (\<lambda>i. loc2 (p @ take i (map key (b # bl)))) [1..<Suc (length (b # bl))]"
    by (simp add: upt_conv_Cons map_Suc_upt[symmetric] del: upt_Suc)
  with i g(2) have "ts_seq_nodes c2 = dict_set s (owned @ map (\<lambda>i. loc2 (p @ take i (map key (b # bl)))) [1..<Suc (length (b # bl))])
       (ts_seq_nodes c)" by simp
  moreover have "\<forall>q \<in> paths (cl @ [(s, p)]). loc2 q = loc q" using r(3) i(3) by (simp add: pa)
  moreover have "c_insert_loop s t bs (b # bl) (loc p) c = Inr c2" using Cons.prems(3) r(1) i(1) by simp
  ultimately show ?case using i(2,5) r(5) by (intro exI[of _ c2] exI[of _ loc2]) simp
qed

lemma c_insert_rep:
  assumes rep: "ts_rep c cl" and t: "int (length t) < 2 ^ 31" and old: "int32 (ts_node_count c)"
    and new: "int (card (paths (spec_insert (ts_block_size c) t s cl) - {[]})) < 2 ^ 31"
  shows "\<exists>c'. c_insert t (int (length t)) s c = Inr (int (length t) div ts_block_size c * ts_block_size c, c')
     \<and> ts_rep c' (spec_insert (ts_block_size c) t s cl) \<and> ts_block_size c' = ts_block_size c"
proof (cases "int (length t) < ts_block_size c")
  case True
  with rep show ?thesis by (simp add: c_insert_def spec_insert_def)
next
  case False
  let ?bs = "ts_block_size c" and ?b = "blocks (ts_block_size c) t" and ?cl = "spec_evict s cl"
  have bs: "0 < ?bs" and wf: "claims_wf (spec_insert ?bs t s cl)" using rep spec_insert_wf by (auto simp: ts_rep_def)
  have sp: "spec_insert ?bs t s cl = ?cl @ [(s, ?b)]" using False by (simp add: spec_insert_def)
  from c_evict_rep[OF rep old, of s] obtain c1 loc where e: "c_evict s c = Inr c1" "ts_at loc c1 ?cl"
    "ts_seq_nodes c1 = map (\<lambda>(s, b). (s, claim_nodes loc b)) ?cl" "ts_block_size c1 = ?bs" by (auto simp: ts_rep_def)
  have no: "s \<notin> set (keys (ts_seq_nodes c1))" unfolding e(3) by (auto simp: spec_evict_def)
  let ?c2 = "c1\<lparr>ts_seq_nodes := dict_set s [] (ts_seq_nodes c1)\<rparr>"
  let ?n = "nat (int (length t) div ?bs)"
  have at: "ts_at loc ?c2 (?cl @ [(s, [])])" using e(2) ts_at_Nil_claim[of loc c1 ?cl s "[]"] by simp
  have len: "int (length ?b) < 2 ^ 31" using length_blocks_le[OF bs, of t] t by linarith
  have "\<exists>c' loc'. c_insert_loop s t ?bs [0..<?n] (loc []) ?c2 = Inr c' \<and> ts_at loc' c' (?cl @ [(s, [] @ map (\<lambda>b. ?b ! b) [0..<?n])])
     \<and> (\<forall>q \<in> paths (?cl @ [(s, [])]). loc' q = loc q)
     \<and> ts_seq_nodes c' = dict_set s ([] @ map (\<lambda>i. loc' ([] @ take i (map (\<lambda>b. ?b ! b) [0..<?n]))) [1..<Suc (length [0..<?n])]) (ts_seq_nodes ?c2)
     \<and> ts_block_size c' = ts_block_size ?c2"
    using bs len new by (intro c_insert_path[OF at]) (auto simp: read_block_ok length_blocks map_blocks sp)
  then obtain c' loc' where i: "c_insert_loop s t ?bs [0..<?n] 0 ?c2 = Inr c'" "ts_at loc' c' (?cl @ [(s, ?b)])"
    "\<forall>q \<in> paths (?cl @ [(s, [])]). loc' q = loc q"
    "ts_seq_nodes c' = dict_set s (claim_nodes loc' ?b) (ts_seq_nodes c1)" "ts_block_size c' = ?bs"
    using ts_atD(3)[OF e(2)] e(4) by (auto simp: map_blocks claim_nodes_def length_blocks)
  have "ts_seq_nodes c1 = map (\<lambda>(s, b). (s, claim_nodes loc' b)) ?cl"
    unfolding e(3) using i(3) by (intro claim_nodes_same) (simp add: paths_append)
  then have "ts_seq_nodes c' = map (\<lambda>(s, b). (s, claim_nodes loc' b)) (?cl @ [(s, ?b)])"
    using i(4) no by (simp add: keys_set_new)
  then have "ts_rep c' (spec_insert ?bs t s cl)" unfolding ts_rep_def using i(2,5) bs wf sp by auto
  moreover have "int32 (int (length t) div ?bs * ?bs)"
  proof -
    have "0 \<le> int (length t) mod ?bs" "0 \<le> int (length t) div ?bs * ?bs"
      using bs by (simp_all add: pos_imp_zdiv_nonneg_iff)
    moreover from this(1) have "int (length t) div ?bs * ?bs \<le> int (length t)"
      unfolding minus_mod_eq_div_mult[symmetric] by linarith
    ultimately show ?thesis using t unfolding int32_def by linarith
  qed
  moreover have "dict_get (ts_seq_nodes c1) s = None" using no dict_get_eq_None by metis
  ultimately show ?thesis using False e(1,4) i(1,5) by (simp add: c_insert_def Let_def)
qed

section \<open>Tearing down\<close>

text \<open>The nodes still to be deleted are those below the paths on the stack, which are pairwise incomparable.\<close>

definition below :: "claim list \<Rightarrow> block list list \<Rightarrow> block list set" where
  "below cl S = {q \<in> paths cl. \<exists>p \<in> set S. prefix p q}"

definition incomparable :: "block list list \<Rightarrow> bool" where
  "incomparable S \<longleftrightarrow> distinct S \<and> (\<forall>x \<in> set S. \<forall>y \<in> set S. prefix x y \<longrightarrow> x = y)"

lemma below_children:
  assumes "incomparable (S @ [p])" "\<And>k. k \<in> set ks \<longleftrightarrow> p @ [k] \<in> paths cl" "distinct ks"
  shows "below cl (S @ map (\<lambda>k. p @ [k]) ks) = below cl (S @ [p]) - {p}" "incomparable (S @ map (\<lambda>k. p @ [k]) ks)"
proof -
  have split: "q = p \<or> (\<exists>k \<in> set ks. prefix (p @ [k]) q)" if "prefix p q" "q \<in> paths cl" for q
  proof -
    from that(1) obtain z where z: "q = p @ z" by (auto simp: prefix_def)
    show ?thesis
    proof (cases z)
      case (Cons k r)
      then have "p @ [k] \<in> paths cl" using z that(2) paths_prefix[of q cl "p @ [k]"] by simp
      with assms(2) z Cons show ?thesis by auto
    qed (simp add: z)
  qed
  have up: "prefix p q" if "prefix (p @ [k]) q" for k q using that by (auto simp: prefix_def)
  have not_p: "\<not> prefix x p" if "x \<in> set S" for x using that assms(1) by (auto simp: incomparable_def)
  have not_x: "\<not> prefix p x" if "x \<in> set S" for x using that assms(1) by (auto simp: incomparable_def)
  have "q \<in> below cl (S @ map (\<lambda>k. p @ [k]) ks) \<longleftrightarrow> q \<in> below cl (S @ [p]) - {p}" for q
    using split[of q] up not_p unfolding below_def by (auto dest: prefix_length_le)
  then show "below cl (S @ map (\<lambda>k. p @ [k]) ks) = below cl (S @ [p]) - {p}" by blast
  have "distinct (map (\<lambda>k. p @ [k]) ks)" using assms(3) by (simp add: distinct_map inj_on_def)
  moreover have "p @ [k] \<notin> set S" for k using not_x[of "p @ [k]"] by auto
  moreover have "\<not> prefix x (p @ [k])" if "x \<in> set S" for x k
    using that not_p[OF that] \<open>\<And>k. p @ [k] \<notin> set S\<close> by (auto simp: prefix_snoc)
  moreover have "\<not> prefix (p @ [k]) x" if "x \<in> set S" for x k using that up not_x by blast
  ultimately show "incomparable (S @ map (\<lambda>k. p @ [k]) ks)"
    using assms(1) unfolding incomparable_def by auto
qed

lemma node_children:
  assumes at: "ts_at loc c cl" and p: "p \<in> paths cl" and n: "mem (ts_heap c) (loc p) = Some n"
  shows "distinct (keys (c_children n))" "k \<in> set (keys (c_children n)) \<longleftrightarrow> p @ [k] \<in> paths cl"
    "vals (c_children n) = map loc (map (\<lambda>k. p @ [k]) (keys (c_children n)))"
proof -
  note tr = ts_atD(1)[OF at]
  have n': "py_heap (ts_heap c) (loc p) = py_node n" using n by (simp add: py_heap_def)
  have get: "dict_get (c_children n) k = (if p @ [k] \<in> paths cl then Some (loc (p @ [k])) else None)" for k
    using tree_repD(7)[OF tr p, of k] n' by simp
  show wf: "distinct (keys (c_children n))" using tree_repD(6)[OF tr p] n' by (simp add: dict_wf_def)
  show "k \<in> set (keys (c_children n)) \<longleftrightarrow> p @ [k] \<in> paths cl"
    using get[of k] dict_get_eq_None[of "c_children n" k] by (metis option.distinct(1))
  have "v = loc (p @ [k])" if "(k, v) \<in> set (c_children n)" for k v
    using get[of k] map_of_is_SomeI[OF wf that] by (simp split: if_splits)
  then show "vals (c_children n) = map loc (map (\<lambda>k. p @ [k]) (keys (c_children n)))" by force
qed

lemma teardown_below:
  assumes at: "ts_at loc c cl"
  shows "incomparable S \<Longrightarrow> set S \<subseteq> paths cl - {[]} \<Longrightarrow>
     (\<And>a. mem h a = (if a \<in> insert 0 (loc ` below cl S) then mem (ts_heap c) a else None)) \<Longrightarrow>
     \<exists>h'. c_teardown (map loc S) h = Inr h' \<and> (\<forall>a. mem h' a = (if a = 0 then mem (ts_heap c) a else None))"
proof (induction "live_cells h" arbitrary: S h rule: less_induct)
  case less
  note tr = ts_atD(1)[OF at]
  show ?case
  proof (cases S rule: rev_cases)
    case Nil
    then show ?thesis using less.prems(3) by (simp add: below_def c_teardown.simps)
  next
    case (snoc S' p)
    then have p: "p \<in> paths cl" "p \<noteq> []" using less.prems(2) by auto
    from ts_at_node[OF at p(1)] obtain n where n: "mem (ts_heap c) (loc p) = Some n" by blast
    have pb: "p \<in> below cl S" using p(1) snoc by (auto simp: below_def)
    then have m: "mem h (loc p) = Some n" using n less.prems(3) by simp
    let ?ks = "keys (c_children n)" and ?h = "h[loc p := None]"
    note K = node_children[OF at p(1) n]
    let ?S = "S' @ map (\<lambda>k. p @ [k]) ?ks"
    note B = below_children[of S' p ?ks cl, OF _ K(2,1)]
    have inc: "incomparable (S' @ [p])" using less.prems(1) snoc by simp
    have "mem ?h a = (if a \<in> insert 0 (loc ` below cl ?S) then mem (ts_heap c) a else None)" for a
    proof -
      have "loc p \<noteq> 0" using tree_rep_eq_iff[OF tr p(1) paths_Nil] p(2) ts_atD(3)[OF at] by simp
      moreover have "loc ` (below cl S - {p}) = loc ` below cl S - {loc p}"
        using tree_rep_eq_iff[OF tr _ p(1)] by (auto simp: below_def)
      ultimately show ?thesis using less.prems(3)[of a] mem_Some[OF m] B(1)[OF inc] snoc by (auto simp: mem_update)
    qed
    moreover have "set (map (\<lambda>k. p @ [k]) ?ks) \<subseteq> paths cl - {[]}" unfolding set_map[of "\<lambda>k. p @ [k]"] using K(2) by auto
    then have "set ?S \<subseteq> paths cl - {[]}" using less.prems(2) snoc by (simp del: set_map map_map)
    ultimately have "\<exists>h'. c_teardown (map loc ?S) ?h = Inr h' \<and> (\<forall>a. mem h' a = (if a = 0 then mem (ts_heap c) a else None))"
      using less.hyps[OF live_cells_delete[OF m]] B(2)[OF inc] by blast
    moreover have "c_teardown (map loc S) h = c_teardown (map loc ?S) ?h"
      unfolding map_append K(3)[symmetric] using m by (subst c_teardown.simps) (simp add: snoc)
    ultimately show ?thesis by simp
  qed
qed

lemma c_destroy_frees:
  assumes "ts_rep c cl"
  shows "\<exists>h. c_destroy c = Inr h \<and> (\<forall>a. mem h a = None)"
proof -
  from assms obtain loc where at: "ts_at loc c cl" by (auto simp: ts_rep_def)
  note tr = ts_atD(1)[OF at] and z = ts_atD(3)[OF at]
  from ts_at_node[OF at paths_Nil] obtain n where n: "mem (ts_heap c) (loc []) = Some n" "deref (ts_heap c) 0 = Inr n"
    unfolding z by blast
  note K = node_children[OF at paths_Nil n(1)]
  let ?S = "map (\<lambda>k. [k]) (keys (c_children n))"
  have "incomparable ([] @ [[]])" by (simp add: incomparable_def)
  from below_children[OF this, of "keys (c_children n)" cl] K(1,2)
  have S: "below cl ?S = paths cl - {[]}" "incomparable ?S" by (simp_all add: below_def)
  have "set ?S \<subseteq> paths cl - {[]}" unfolding set_map[of "\<lambda>k. [k]"] using K(2) by auto
  moreover have "mem (ts_heap c) a = (if a \<in> insert 0 (loc ` below cl ?S) then mem (ts_heap c) a else None)" for a
    using ts_atD(4)[OF at, of a] z unfolding S(1) by auto
  ultimately obtain h where h: "c_teardown (map loc ?S) (ts_heap c) = Inr h"
    "\<forall>a. mem h a = (if a = 0 then mem (ts_heap c) a else None)" using teardown_below[OF at S(2)] by blast
  have "0 < length h" using h(2) n(1) z mem_Some[of h 0 n] by simp
  then have "\<forall>a. mem (h[0 := None]) a = None" using h(2) by (simp add: mem_update)
  moreover have "c_destroy c = Inr (h[0 := None])" using n(2) h(1) K(3) by (simp add: c_destroy_def del: map_map)
  ultimately show ?thesis by blast
qed

lemma create_rep:
  assumes "ts_prefix_cache_create bs = Some c"
  shows "ts_rep c []" "ts_block_size c = bs" "ts_node_count c = 0"
proof -
  from assms have c: "1 \<le> bs" "ts_block_size c = bs" "ts_node_count c = 0" "ts_seq_nodes c = []"
    "ts_heap c = [Some \<lparr>c_parent = None, c_key = [], c_children = [], c_owners = [], c_depth = 0\<rparr>]"
    by (auto simp: ts_prefix_cache_create_def split: if_splits)
  have P: "paths [] = {[]}" by (auto simp: paths_def)
  have "ts_at (\<lambda>_. 0) c []"
    using c by (auto simp: ts_at_def pc_rep_at_def tree_rep_def node_ok_def P py_heap_def mem_def)
  with c show "ts_rep c []" "ts_block_size c = bs" "ts_node_count c = 0" by (auto simp: ts_rep_def claims_wf_def)
qed

lemma ts_rep_count:
  assumes "ts_rep c cl"
  shows "ts_node_count c = int (card (paths cl - {[]}))" "length (ts_seq_nodes c) = length cl"
  using assms ts_atD(2) by (auto simp: ts_rep_def)

end
