(* ===== verification/Native_Cache.thy ===== *)
theory Native_Cache
  imports Native_Tree
begin

text \<open>
  The ctypes binding of \<^verbatim>\<open>tinyserve/prefix/cache.py\<close> to the C++ tree: how the shared library is found,
  \<open>NativePrefixCache\<close>, and \<open>create_prefix_cache\<close>, which chooses between the two backends. What the file
  system holds at a path is a value of \<open>probe\<close>; a library that is accepted is taken to be the one built from
  \<^verbatim>\<open>native/src/prefix_cache.cpp\<close>. ctypes converts every integer argument to \<open>c_int32\<close> without an overflow check.

  The main result is that the two backends cannot be told apart: on every sequence of calls within
  the range of 32-bit integers they give the same answers, and the native one never faults.
\<close>

section \<open>Finding the library\<close>

definition candidate_library_paths :: "string option \<Rightarrow> string \<Rightarrow> string \<Rightarrow> string \<Rightarrow> string list" where
  "candidate_library_paths override platform native cwd =
     (if override \<noteq> None \<and> override \<noteq> Some '''' then [the override]
      else let names = (if platform = ''win32'' then [''tinyserve_prefix.dll'']
                 else if platform = ''darwin'' then [''tinyserve_prefix.dylib'', ''libtinyserve_prefix.dylib'']
                 else [''tinyserve_prefix.so'', ''libtinyserve_prefix.so'']);
               roots = [native @ ''/build'', native @ ''/build/Release'', native, cwd]
           in concat (map (\<lambda>root. map (\<lambda>name. root @ ''/'' @ name) names) roots))"

datatype probe =
    Missing
  | Unloadable
  | Library "string list" "bytes option"

definition required_symbols :: "string list" where
  "required_symbols = [''ts_prefix_cache_create'', ''ts_prefix_cache_destroy'', ''ts_prefix_cache_match'',
     ''ts_prefix_cache_insert'', ''ts_prefix_cache_evict'', ''ts_prefix_cache_node_count'',
     ''ts_prefix_cache_seq_count'', ''ts_prefix_cache_abi_version'']"

text \<open>Attribute access on a library without the symbol raises.\<close>

definition bind_signatures :: "string list \<Rightarrow> unit res" where
  "bind_signatures symbols = (if set required_symbols \<subseteq> set symbols then Inr () else Inl AttributeError)"

text \<open>The body of the \<open>try\<close>: load, bind, and decode what \<open>abi_version\<close> returns, which may be a null pointer.\<close>

definition open_library :: "probe \<Rightarrow> bytes res" where
  "open_library pr =
     (case pr of
        Missing \<Rightarrow> Inl OSError
      | Unloadable \<Rightarrow> Inl OSError
      | Library symbols version \<Rightarrow>
          res_bind (bind_signatures symbols) (\<lambda>_.
            case version of
              None \<Rightarrow> Inl AttributeError
            | Some v \<Rightarrow> if list_all (\<lambda>b. b < 128) v then Inr v else Inl UnicodeDecodeError))"

text \<open>The part of a version before its first full stop.\<close>

definition abi_major :: "bytes \<Rightarrow> bytes" where
  "abi_major v = takeWhile (\<lambda>b. b \<noteq> 46) v"

definition SUPPORTED_ABI_MAJOR :: bytes where
  "SUPPORTED_ABI_MAJOR = [49]"

fun load_first :: "(string \<Rightarrow> probe) \<Rightarrow> string list \<Rightarrow> string option" where
  "load_first fs [] = None"
| "load_first fs (path # rest) =
     (if fs path = Missing then load_first fs rest
      else case open_library (fs path) of
        Inl e \<Rightarrow> load_first fs rest
      | Inr version \<Rightarrow> if abi_major version \<noteq> SUPPORTED_ABI_MAJOR then load_first fs rest else Some path)"

text \<open>The result and the class attribute \<open>_shared_lib\<close>.\<close>

definition load_library :: "(string \<Rightarrow> probe) \<Rightarrow> string list \<Rightarrow> string option \<Rightarrow> string option \<times> string option" where
  "load_library fs candidates shared =
     (case shared of
        Some l \<Rightarrow> (Some l, shared)
      | None \<Rightarrow> let r = load_first fs candidates in (r, r))"

section \<open>The binding\<close>

record native_cache =
  nc_block_size :: int
  nc_handle :: "ts_cache option"
  nc_donor :: int

definition native_init :: "string option \<Rightarrow> int \<Rightarrow> native_cache res" where
  "native_init lib bs =
     (if bs < 1 then Inl ValueError
      else case lib of
        None \<Rightarrow> Inl OSError
      | Some _ \<Rightarrow>
          (case ts_prefix_cache_create (i32 bs) of
             None \<Rightarrow> Inl OSError
           | Some h \<Rightarrow> Inr \<lparr>nc_block_size = bs, nc_handle = Some h, nc_donor = NO_SEQ\<rparr>))"

definition c_buffer :: "int list \<Rightarrow> int list" where
  "c_buffer tokens = map i32 tokens"

definition native_match :: "int list \<Rightarrow> native_cache \<Rightarrow> c_fault + prefix_match \<times> native_cache" where
  "native_match tokens nc =
     (if int (length tokens) < nc_block_size nc then Inr (PrefixMatch 0 NO_SEQ, nc)
      else res_bind (ts_prefix_cache_match (nc_handle nc) (c_buffer tokens) (i32 (int (length tokens)))) (\<lambda>(n, donor).
        Inr (PrefixMatch n (if n > 0 then donor else NO_SEQ), nc\<lparr>nc_donor := donor\<rparr>)))"

definition native_insert :: "int list \<Rightarrow> int \<Rightarrow> native_cache \<Rightarrow> c_fault + int \<times> native_cache" where
  "native_insert tokens sid nc =
     (if int (length tokens) < nc_block_size nc then Inr (0, nc)
      else res_bind (ts_prefix_cache_insert (nc_handle nc) (c_buffer tokens) (i32 (int (length tokens))) (i32 sid)) (\<lambda>(n, h).
        Inr (n, nc\<lparr>nc_handle := h\<rparr>)))"

definition native_evict :: "int \<Rightarrow> native_cache \<Rightarrow> c_fault + native_cache" where
  "native_evict sid nc =
     res_bind (ts_prefix_cache_evict (nc_handle nc) (i32 sid)) (\<lambda>h. Inr (nc\<lparr>nc_handle := h\<rparr>))"

definition native_node_count :: "native_cache \<Rightarrow> int" where
  "native_node_count nc = ts_prefix_cache_node_count (nc_handle nc)"

definition native_seq_count :: "native_cache \<Rightarrow> int" where
  "native_seq_count nc = ts_prefix_cache_seq_count (nc_handle nc)"

text \<open>With the memory that is left behind.\<close>

definition native_close :: "native_cache \<Rightarrow> c_fault + memory \<times> native_cache" where
  "native_close nc =
     (if nc_handle nc \<noteq> None
      then res_bind (ts_prefix_cache_destroy (nc_handle nc)) (\<lambda>h. Inr (h, nc\<lparr>nc_handle := None\<rparr>))
      else Inr ([], nc))"

text \<open>
  \<open>__del__\<close>: a last \<open>close\<close> when the object is collected, also of one whose \<open>__init__\<close> raised before it had a
  handle. \<open>contextlib.suppress\<close> hides Python exceptions, not a fault.
\<close>

definition native_del :: "native_cache \<Rightarrow> c_fault + memory" where
  "native_del nc = res_bind (native_close nc) (\<lambda>(h, _). Inr h)"

section \<open>The choice of a backend\<close>

datatype backend = Python py_cache | Native native_cache

definition create_prefix_cache :: "string option \<Rightarrow> int \<Rightarrow> bool \<Rightarrow> backend res" where
  "create_prefix_cache lib bs prefer_native =
     (let fallback = res_bind (pc_init bs) (\<lambda>c. Inr (Python c)) in
      if prefer_native
      then case native_init lib bs of
          Inr nc \<Rightarrow> Inr (Native nc)
        | Inl e \<Rightarrow> if e = OSError then fallback else Inl e
      else fallback)"

section \<open>Sessions\<close>

text \<open>The calls a client makes of a cache and the answers it sees.\<close>

datatype cache_query = Match "int list" | Insert "int list" int | Evict int | NodeCount | SeqCount
datatype cache_answer = Hit prefix_match | Number int | Done

fun py_call :: "cache_query \<Rightarrow> py_cache \<Rightarrow> cache_answer \<times> py_cache" where
  "py_call (Match t) c = (Hit (pc_match t c), c)"
| "py_call (Insert t s) c = (case pc_insert t s c of (n, c') \<Rightarrow> (Number n, c'))"
| "py_call (Evict s) c = (Done, pc_evict s c)"
| "py_call NodeCount c = (Number (node_count c), c)"
| "py_call SeqCount c = (Number (seq_count c), c)"

fun native_call :: "cache_query \<Rightarrow> native_cache \<Rightarrow> c_fault + cache_answer \<times> native_cache" where
  "native_call (Match t) nc = res_bind (native_match t nc) (\<lambda>(m, nc'). Inr (Hit m, nc'))"
| "native_call (Insert t s) nc = res_bind (native_insert t s nc) (\<lambda>(n, nc'). Inr (Number n, nc'))"
| "native_call (Evict s) nc = res_bind (native_evict s nc) (\<lambda>nc'. Inr (Done, nc'))"
| "native_call NodeCount nc = Inr (Number (native_node_count nc), nc)"
| "native_call SeqCount nc = Inr (Number (native_seq_count nc), nc)"

fun py_session :: "cache_query list \<Rightarrow> py_cache \<Rightarrow> cache_answer list \<times> py_cache" where
  "py_session [] c = ([], c)"
| "py_session (q # qs) c = (let (a, c1) = py_call q c; (as, c2) = py_session qs c1 in (a # as, c2))"

fun native_session :: "cache_query list \<Rightarrow> native_cache \<Rightarrow> c_fault + cache_answer list \<times> native_cache" where
  "native_session [] nc = Inr ([], nc)"
| "native_session (q # qs) nc =
     res_bind (native_call q nc) (\<lambda>(a, nc1).
     res_bind (native_session qs nc1) (\<lambda>(as, nc2). Inr (a # as, nc2)))"

text \<open>What fits the argument types of the C interface.\<close>

definition c_tokens :: "int list \<Rightarrow> bool" where
  "c_tokens t \<longleftrightarrow> list_all int32 t \<and> int (length t) < 2 ^ 31"

fun c_query :: "cache_query \<Rightarrow> bool" where
  "c_query (Match t) \<longleftrightarrow> c_tokens t"
| "c_query (Insert t s) \<longleftrightarrow> c_tokens t \<and> int32 s"
| "c_query (Evict s) \<longleftrightarrow> int32 s"
| "c_query NodeCount \<longleftrightarrow> True"
| "c_query SeqCount \<longleftrightarrow> True"

text \<open>The counts of the Python tree stay below \<open>2^31\<close> throughout the session.\<close>

definition small_cache :: "py_cache \<Rightarrow> bool" where
  "small_cache c \<longleftrightarrow> node_count c < 2 ^ 31 \<and> seq_count c < 2 ^ 31"

fun stays_small :: "cache_query list \<Rightarrow> py_cache \<Rightarrow> bool" where
  "stays_small [] c \<longleftrightarrow> small_cache c"
| "stays_small (q # qs) c \<longleftrightarrow> small_cache c \<and> stays_small qs (snd (py_call q c))"

text \<open>A short session for the witnesses.\<close>

definition demo_session :: "cache_query list" where
  "demo_session = [Insert [1, 2, 3, 4] 7, Insert [1, 2, 5, 6] 8, Match [1, 2, 5, 6, 9], Evict 8, Match [1, 2, 5, 6, 9], NodeCount, SeqCount]"

section \<open>The binding implements the interface\<close>

definition native_rep :: "native_cache \<Rightarrow> claim list \<Rightarrow> bool" where
  "native_rep nc cl \<longleftrightarrow> (\<exists>c. nc_handle nc = Some c \<and> ts_rep c cl \<and> ts_block_size c = nc_block_size nc)
     \<and> int (card (paths cl - {[]})) < 2 ^ 31"

lemma c_buffer_id: "c_tokens t \<Longrightarrow> c_buffer t = t"
  by (induction t) (auto simp: c_tokens_def c_buffer_def)

lemma c_tokens_length: "c_tokens t \<Longrightarrow> i32 (int (length t)) = int (length t)"
  by (simp add: c_tokens_def int32_def)

lemma native_repE:
  assumes "native_rep nc cl"
  obtains c where "nc_handle nc = Some c" "ts_rep c cl" "ts_block_size c = nc_block_size nc" "int32 (ts_node_count c)"
    "0 < nc_block_size nc" "claims_wf cl"
  using assms ts_rep_count(1) unfolding native_rep_def by (force simp: ts_rep_def int32_def)

lemma spec_match_short: "0 < bs \<Longrightarrow> int (length t) < bs \<Longrightarrow> spec_match bs t cl = PrefixMatch 0 NO_SEQ"
  using blocks_eq_Nil[of bs t] spec_depth_le[of cl "blocks bs t"] by (simp add: spec_match_def)

lemma spec_match_miss: "\<not> 0 < n_tokens (spec_match bs t cl) \<Longrightarrow> 0 < bs \<Longrightarrow> spec_match bs t cl = PrefixMatch 0 NO_SEQ"
  by (cases "spec_depth cl (blocks bs t) = 0") (simp_all add: spec_match_def Let_def)

lemma native_match_rep:
  assumes "native_rep nc cl" "c_tokens t"
  shows "\<exists>nc'. native_match t nc = Inr (spec_match (nc_block_size nc) t cl, nc') \<and> native_rep nc' cl
     \<and> nc_block_size nc' = nc_block_size nc"
proof -
  from assms(1) obtain c where c: "nc_handle nc = Some c" "ts_rep c cl" "ts_block_size c = nc_block_size nc" "0 < nc_block_size nc"
    by (elim native_repE)
  let ?m = "spec_match (nc_block_size nc) t cl"
  have "c_match t (int (length t)) c = Inr (n_tokens ?m, match_seq_id ?m)"
    using c_match_spec[OF c(2)] assms(2) c(3) by (simp add: c_tokens_def)
  then have e: "ts_prefix_cache_match (nc_handle nc) (c_buffer t) (i32 (int (length t))) = Inr (n_tokens ?m, match_seq_id ?m)"
    using assms(2) c(1) by (simp add: ts_prefix_cache_match_def c_buffer_id c_tokens_length)
  show ?thesis
  proof (cases "int (length t) < nc_block_size nc")
    case True
    with assms(1) spec_match_short[OF c(4) True, of cl] show ?thesis by (simp add: native_match_def)
  next
    case False
    have "PrefixMatch (n_tokens ?m) (if n_tokens ?m > 0 then match_seq_id ?m else NO_SEQ) = ?m"
      using spec_match_miss[OF _ c(4), of t cl] by (cases "0 < n_tokens ?m") simp_all
    with False e assms(1) show ?thesis by (simp add: native_match_def native_rep_def)
  qed
qed

lemma native_insert_rep:
  assumes "native_rep nc cl" "c_tokens t" "int32 s"
    and "int (card (paths (spec_insert (nc_block_size nc) t s cl) - {[]})) < 2 ^ 31"
  shows "\<exists>nc'. native_insert t s nc = Inr (int (length t) div nc_block_size nc * nc_block_size nc, nc')
     \<and> native_rep nc' (spec_insert (nc_block_size nc) t s cl) \<and> nc_block_size nc' = nc_block_size nc"
proof (cases "int (length t) < nc_block_size nc")
  case True
  with assms(1) show ?thesis by (auto simp: native_insert_def spec_insert_def elim: native_repE)
next
  case False
  from assms(1) obtain c where c: "nc_handle nc = Some c" "ts_rep c cl" "ts_block_size c = nc_block_size nc" "int32 (ts_node_count c)"
    by (elim native_repE)
  obtain c' where "c_insert t (int (length t)) s c = Inr (int (length t) div nc_block_size nc * nc_block_size nc, c')"
    "ts_rep c' (spec_insert (nc_block_size nc) t s cl)" "ts_block_size c' = nc_block_size nc"
    using c_insert_rep[OF c(2) _ c(4)] assms(2,4) c(3) by (auto simp: c_tokens_def)
  with False c(1) assms(2-) show ?thesis
    by (auto simp: native_insert_def ts_prefix_cache_insert_def c_buffer_id c_tokens_length native_rep_def)
qed

lemma paths_evict: "paths (spec_evict s cl) \<subseteq> paths cl"
  unfolding paths_def spec_evict_def by fastforce

lemma native_evict_rep:
  assumes "native_rep nc cl" "int32 s"
  shows "\<exists>nc'. native_evict s nc = Inr nc' \<and> native_rep nc' (spec_evict s cl) \<and> nc_block_size nc' = nc_block_size nc"
proof -
  from assms(1) obtain c where c: "nc_handle nc = Some c" "ts_rep c cl" "ts_block_size c = nc_block_size nc" "int32 (ts_node_count c)"
    by (elim native_repE)
  have "int (card (paths (spec_evict s cl) - {[]})) < 2 ^ 31"
    using card_paths_mono[OF paths_evict, of s cl] assms(1) by (simp add: native_rep_def)
  with c_evict_rep[OF c(2,4), of s] c assms(2) show ?thesis
    by (auto simp: native_evict_def ts_prefix_cache_evict_def native_rep_def)
qed

lemma native_init_rep:
  assumes "native_init lib bs = Inr nc" "bs < 2 ^ 31"
  shows "native_rep nc []" "nc_block_size nc = bs"
proof -
  from assms have bs: "1 \<le> bs" "i32 bs = bs" by (auto simp: native_init_def int32_def split: if_splits)
  with assms obtain c where c: "ts_prefix_cache_create bs = Some c" "nc_handle nc = Some c" "nc_block_size nc = bs"
    by (auto simp: native_init_def split: option.splits if_splits)
  have "paths [] = {[]}" by (auto simp: paths_def)
  with c create_rep[OF c(1)] show "native_rep nc []" "nc_block_size nc = bs" by (simp_all add: native_rep_def)
qed

section \<open>Both backends side by side\<close>

definition twins :: "py_cache \<Rightarrow> native_cache \<Rightarrow> bool" where
  "twins c nc \<longleftrightarrow> (\<exists>cl. pc_rep c cl \<and> native_rep nc cl) \<and> pc_block_size c = nc_block_size nc"

lemma small_card: "pc_rep c cl \<Longrightarrow> small_cache c \<Longrightarrow> int (card (paths cl - {[]})) < 2 ^ 31"
  using node_count_rep by (simp add: small_cache_def)

lemma twins_call:
  assumes "twins c nc" "c_query q" "small_cache c" "small_cache (snd (py_call q c))"
  shows "\<exists>nc'. native_call q nc = Inr (fst (py_call q c), nc') \<and> twins (snd (py_call q c)) nc'"
proof -
  from assms(1) obtain cl where r: "pc_rep c cl" "native_rep nc cl" and b: "pc_block_size c = nc_block_size nc"
    by (auto simp: twins_def)
  from r(2) obtain h where h: "nc_handle nc = Some h" "ts_rep h cl" by (elim native_repE)
  show ?thesis
  proof (cases q)
    case (Match t)
    with native_match_rep[OF r(2), of t] assms(2) pc.match_rep[OF r(1), of t] r(1) b show ?thesis by (auto simp: twins_def)
  next
    case (Insert t s)
    note R = pc.insert_rep[OF r(1), of t s] pc.insert_bsize[OF r(1), of t s] pc.insert_count[OF r(1), of t s]
    have "small_cache (snd (pc_insert t s c))" using assms(4) Insert by (simp add: case_prod_beta)
    with small_card[OF R(1)] b have "int (card (paths (spec_insert (nc_block_size nc) t s cl) - {[]})) < 2 ^ 31" by simp
    with native_insert_rep[OF r(2)] assms(2) Insert obtain nc' where
      "native_insert t s nc = Inr (int (length t) div nc_block_size nc * nc_block_size nc, nc')"
      "native_rep nc' (spec_insert (nc_block_size nc) t s cl)" "nc_block_size nc' = nc_block_size nc" by auto
    with R b Insert show ?thesis by (auto simp: twins_def case_prod_beta)
  next
    case (Evict s)
    with native_evict_rep[OF r(2), of s] assms(2) pc.evict_rep[OF r(1), of s] pc.evict_bsize[OF r(1), of s] b
    show ?thesis by (auto simp: twins_def)
  next
    case NodeCount
    with assms(1) h ts_rep_count(1)[OF h(2)] node_count_rep[OF r(1)] show ?thesis
      by (simp add: native_node_count_def ts_prefix_cache_node_count_def)
  next
    case SeqCount
    have "int32 (int (length cl))" using assms(3) seq_count_rep[OF r(1)] by (simp add: small_cache_def int32_def)
    with SeqCount assms(1) h ts_rep_count(2)[OF h(2)] seq_count_rep[OF r(1)] show ?thesis
      by (simp add: native_seq_count_def ts_prefix_cache_seq_count_def)
  qed
qed

lemma stays_small_now: "stays_small qs c \<Longrightarrow> small_cache c"
  by (cases qs) simp_all

lemma twins_session:
  assumes "twins c nc" "list_all c_query qs" "stays_small qs c"
  shows "\<exists>nc'. native_session qs nc = Inr (fst (py_session qs c), nc') \<and> twins (snd (py_session qs c)) nc'"
  using assms
proof (induction qs arbitrary: c nc)
  case (Cons q qs)
  then have "small_cache c" "small_cache (snd (py_call q c))" using stays_small_now by auto
  with twins_call[OF Cons.prems(1)] Cons.prems(2) obtain nc1 where
    1: "native_call q nc = Inr (fst (py_call q c), nc1)" "twins (snd (py_call q c)) nc1" by auto
  from Cons.IH[OF 1(2)] Cons.prems obtain nc2 where
    "native_session qs nc1 = Inr (fst (py_session qs (snd (py_call q c))), nc2)" "twins (snd (py_session qs (snd (py_call q c)))) nc2"
    by auto
  with 1(1) show ?case by (auto simp: case_prod_beta Let_def)
qed simp

lemma twins_init:
  assumes "pc_init bs = Inr c" "native_init lib bs = Inr nc" "bs < 2 ^ 31"
  shows "twins c nc"
  using pc_init_rep[OF assms(1)] native_init_rep[OF assms(2,3)] by (auto simp: twins_def)

lemma demo_session_ok:
  "\<exists>c nc. pc_init 2 = Inr c \<and> native_init (Some l) 2 = Inr nc \<and> list_all c_query demo_session \<and> stays_small demo_session c
     \<and> fst (py_session demo_session c) = [Number 4, Number 4, Hit (PrefixMatch 4 8), Done, Hit (PrefixMatch 2 7), Number 2, Number 1]"
proof -
  define c where "c = projr (pc_init 2)"
  have c: "pc_init 2 = Inr c" by (simp add: c_def pc_init_def)
  obtain nc where nc: "native_init (Some l) 2 = Inr nc" by (simp add: native_init_def ts_prefix_cache_create_def int32_def)
  have "list_all c_query demo_session" by (simp add: demo_session_def c_tokens_def int32_def)
  moreover have "stays_small demo_session c" unfolding c_def by code_simp
  moreover have "fst (py_session demo_session c)
      = [Number 4, Number 4, Hit (PrefixMatch 4 8), Done, Hit (PrefixMatch 2 7), Number 2, Number 1]" unfolding c_def by code_simp
  ultimately show ?thesis using c nc by blast
qed

text \<open>
  C18. The backends are interchangeable. On every sequence of calls whose arguments are 32-bit integers and
  that keeps the tree below \<open>2^31\<close> nodes, a fresh \<open>NativePrefixCache\<close> gives exactly the answers of a
  fresh \<open>PythonPrefixCache\<close>, and no call reads a deleted node, reads past a buffer or overflows.
\<close>

theorem native_agrees_with_python:
  assumes "pc_init bs = Inr c" "native_init lib bs = Inr nc" "bs < 2 ^ 31" "list_all c_query qs" "stays_small qs c"
  shows "\<exists>nc'. native_session qs nc = Inr (fst (py_session qs c), nc')"
  using twins_session[OF twins_init[OF assms(1-3)] assms(4,5)] by blast

theorem native_agrees_with_python_witness:
  "\<exists>nc nc'. native_init (Some ''lib.so'') 2 = Inr nc \<and> native_session demo_session nc
     = Inr ([Number 4, Number 4, Hit (PrefixMatch 4 8), Done, Hit (PrefixMatch 2 7), Number 2, Number 1], nc')"
proof -
  obtain c nc where "pc_init 2 = Inr c" "native_init (Some ''lib.so'') 2 = Inr nc" "list_all c_query demo_session"
    "stays_small demo_session c" "fst (py_session demo_session c)
       = [Number 4, Number 4, Hit (PrefixMatch 4 8), Done, Hit (PrefixMatch 2 7), Number 2, Number 1]"
    using demo_session_ok by blast
  with native_agrees_with_python[OF this(1,2) _ this(3,4)] show ?thesis by simp
qed

text \<open>
  C19. No leak and no double free: after every such session \<open>close\<close> ends, deletes every node exactly once
  (an access to a deleted one would be a fault) and leaves no allocated cell and no handle. The finalizer
  does the same when \<open>close\<close> was not called, and frees nothing when it was.
\<close>

theorem native_close_frees_all:
  assumes "pc_init bs = Inr c" "native_init lib bs = Inr nc" "bs < 2 ^ 31" "list_all c_query qs" "stays_small qs c"
  shows "\<exists>as nc1 h nc2. native_session qs nc = Inr (as, nc1) \<and> native_close nc1 = Inr (h, nc2)
     \<and> live_cells h = 0 \<and> nc_handle nc2 = None \<and> native_del nc1 = Inr h \<and> native_del nc2 = Inr []"
proof -
  obtain nc1 where s: "native_session qs nc = Inr (fst (py_session qs c), nc1)" "twins (snd (py_session qs c)) nc1"
    using twins_session[OF twins_init[OF assms(1-3)] assms(4,5)] by blast
  then obtain cl where "native_rep nc1 cl" by (auto simp: twins_def)
  then obtain d where d: "nc_handle nc1 = Some d" "ts_rep d cl" by (elim native_repE)
  from c_destroy_frees[OF d(2)] obtain h where h: "c_destroy d = Inr h" "\<forall>a. mem h a = None" by blast
  have "live_cells h = 0" using h(2) by (auto simp: live_cells_def mem_def filter_empty_conv in_set_conv_nth split: if_splits)
  with s(1) d(1) h(1) show ?thesis by (simp add: native_close_def native_del_def ts_prefix_cache_destroy_def)
qed

theorem native_close_frees_all_witness:
  "\<exists>nc as nc1 h nc2. native_init (Some ''lib.so'') 2 = Inr nc \<and> native_session demo_session nc = Inr (as, nc1)
     \<and> native_close nc1 = Inr (h, nc2) \<and> live_cells h = 0"
proof -
  obtain c nc where "pc_init 2 = Inr c" "native_init (Some ''lib.so'') 2 = Inr nc" "list_all c_query demo_session"
    "stays_small demo_session c" using demo_session_ok by blast
  with native_close_frees_all[OF this(1,2) _ this(3,4)] show ?thesis by fastforce
qed



text \<open>
  \<open>create_prefix_cache\<close> fails exactly on a block size below one; it returns the native backend exactly when it
  is preferred, a library was found and the block size is positive as a 32-bit integer, and the Python
  one otherwise.
\<close>

theorem create_prefix_cache_outcome:
  "create_prefix_cache lib bs prefer =
     (if bs < 1 then Inl ValueError
      else if prefer \<and> lib \<noteq> None \<and> 1 \<le> i32 bs then res_bind (native_init lib bs) (\<lambda>nc. Inr (Native nc))
      else res_bind (pc_init bs) (\<lambda>c. Inr (Python c)))"
  by (auto simp: create_prefix_cache_def Let_def native_init_def pc_init_def ts_prefix_cache_create_def split: option.splits)

text \<open>A library that can be used: it has every symbol and reports an ASCII version with major number 1.\<close>

definition usable_library :: "probe \<Rightarrow> bool" where
  "usable_library pr \<longleftrightarrow> (case pr of
     Library symbols (Some v) \<Rightarrow> set required_symbols \<subseteq> set symbols \<and> list_all (\<lambda>b. b < 128) v \<and> (v = [49] \<or> prefix [49, 46] v)
   | _ \<Rightarrow> False)"

lemma abi_major_1: "abi_major v = [49] \<longleftrightarrow> v = [49] \<or> prefix [49, 46] v"
  by (cases v; cases "tl v") (auto simp: abi_major_def)

text \<open>
  \<open>load_library\<close> returns the first candidate that can be used and remembers it: a library without a
  symbol, with a version that is no ASCII text or of another major number is never bound, and one built
  from the sources of the repository is accepted.
\<close>

theorem load_library_first_usable:
  "load_library fs candidates None = (find (\<lambda>p. usable_library (fs p)) candidates, find (\<lambda>p. usable_library (fs p)) candidates)
     \<and> load_library fs' candidates' (Some l) = (Some l, Some l)
     \<and> usable_library (Library required_symbols (Some ts_prefix_cache_abi_version))"
proof -
  have step: "(fs p \<noteq> Missing \<and> (\<exists>v. open_library (fs p) = Inr v \<and> abi_major v = SUPPORTED_ABI_MAJOR)) = usable_library (fs p)" for p
    by (auto simp: open_library_def usable_library_def bind_signatures_def SUPPORTED_ABI_MAJOR_def abi_major_1
        split: probe.split option.split)
  have "load_first fs candidates = find (\<lambda>p. usable_library (fs p)) candidates"
    by (induction candidates) (auto simp: step[symmetric] split: sum.split)
  then show ?thesis by (simp add: load_library_def Let_def usable_library_def ts_prefix_cache_abi_version_def)
qed

end
