(* ===== verification/Prefix_Backend.thy ===== *)
theory Prefix_Backend
  imports Native_Cache
begin

text \<open>
  The object behind \<open>PrefixCacheBase\<close> that the server holds: one of the two backends of
  \<^verbatim>\<open>tinyserve/prefix/cache.py\<close>, with the methods dispatched as Python does. A fault of the native library is
  the \<open>MemoryFault\<close> that ends the process. The interpretation at the end states the contract the server
  relies on; it holds for both backends as long as tokens, sequences and counts are 32-bit integers.
\<close>

section \<open>The methods\<close>

definition of_native :: "c_fault + 'a \<Rightarrow> 'a res" where
  "of_native r = (case r of Inl _ \<Rightarrow> Inl MemoryFault | Inr x \<Rightarrow> Inr x)"

definition be_block_size :: "backend \<Rightarrow> int" where
  "be_block_size b = (case b of Python c \<Rightarrow> pc_block_size c | Native nc \<Rightarrow> nc_block_size nc)"

definition be_name :: "backend \<Rightarrow> string" where
  "be_name b = (case b of Python c \<Rightarrow> ''python'' | Native nc \<Rightarrow> ''native'')"

definition be_match :: "int list \<Rightarrow> backend \<Rightarrow> (prefix_match \<times> backend) res" where
  "be_match tokens b =
     (case b of
        Python c \<Rightarrow> Inr (pc_match tokens c, Python c)
      | Native nc \<Rightarrow> res_bind (of_native (native_match tokens nc)) (\<lambda>(m, nc'). Inr (m, Native nc')))"

definition be_insert :: "int list \<Rightarrow> int \<Rightarrow> backend \<Rightarrow> (int \<times> backend) res" where
  "be_insert tokens sid b =
     (case b of
        Python c \<Rightarrow> (case pc_insert tokens sid c of (n, c') \<Rightarrow> Inr (n, Python c'))
      | Native nc \<Rightarrow> res_bind (of_native (native_insert tokens sid nc)) (\<lambda>(n, nc'). Inr (n, Native nc')))"

definition be_evict :: "int \<Rightarrow> backend \<Rightarrow> backend res" where
  "be_evict sid b =
     (case b of
        Python c \<Rightarrow> Inr (Python (pc_evict sid c))
      | Native nc \<Rightarrow> res_bind (of_native (native_evict sid nc)) (\<lambda>nc'. Inr (Native nc')))"

definition be_node_count :: "backend \<Rightarrow> int" where
  "be_node_count b = (case b of Python c \<Rightarrow> node_count c | Native nc \<Rightarrow> native_node_count nc)"

definition be_seq_count :: "backend \<Rightarrow> int" where
  "be_seq_count b = (case b of Python c \<Rightarrow> seq_count c | Native nc \<Rightarrow> native_seq_count nc)"

definition be_close :: "backend \<Rightarrow> backend res" where
  "be_close b =
     (case b of
        Python c \<Rightarrow> Inr (Python (pc_close c))
      | Native nc \<Rightarrow> res_bind (of_native (native_close nc)) (\<lambda>(h, nc'). Inr (Native nc')))"

definition be_match_for_reuse :: "int list \<Rightarrow> backend \<Rightarrow> (prefix_match \<times> backend) res" where
  "be_match_for_reuse tokens b = reuse_call be_match (be_block_size b) tokens b"

lemma python_methods [simp]:
  "be_match_for_reuse t (Python c) = Inr (match_for_reuse pc_match (pc_block_size c) t c, Python c)"
  "be_insert t s (Python c) = Inr (fst (pc_insert t s c), Python (snd (pc_insert t s c)))"
  "be_evict s (Python c) = Inr (Python (pc_evict s c))" "be_name (Python c) = ''python''"
  by (auto simp: be_match_for_reuse_def reuse_call_def be_match_def be_block_size_def match_for_reuse_def Let_def
      be_insert_def case_prod_beta be_evict_def be_name_def)

section \<open>The contract\<close>

definition be_rep :: "backend \<Rightarrow> claim list \<Rightarrow> bool" where
  "be_rep b cl = (case b of Python c \<Rightarrow> pc_rep c cl | Native nc \<Rightarrow> native_rep nc cl)"

definition claims_fit :: "claim list \<Rightarrow> bool" where
  "claims_fit cl \<longleftrightarrow> int (card (paths cl - {[]})) < 2 ^ 31"

lemma of_native_Inr [simp]: "of_native (Inr x) = Inr x"
  by (simp add: of_native_def)

interpretation be: prefix_backend be_block_size be_match be_insert be_evict be_rep c_tokens int32 claims_fit
proof unfold_locales
  fix b cl t s
  assume rep: "be_rep b cl"
  show "0 < be_block_size b \<and> claims_wf cl"
    using rep pc.rep_wf by (auto simp: be_rep_def be_block_size_def split: backend.splits elim: native_repE)
  show "\<exists>b'. be_match t b = Inr (spec_match (be_block_size b) t cl, b') \<and> be_rep b' cl \<and> be_block_size b' = be_block_size b"
    if "c_tokens t"
  proof (cases b)
    case (Native nc)
    with rep native_match_rep[of nc cl t] that obtain nc' where
      "native_match t nc = Inr (spec_match (nc_block_size nc) t cl, nc')" "native_rep nc' cl" "nc_block_size nc' = nc_block_size nc"
      by (auto simp: be_rep_def)
    with Native show ?thesis by (simp add: be_match_def be_block_size_def be_rep_def)
  qed (use rep pc.match_rep in \<open>simp add: be_match_def be_block_size_def be_rep_def\<close>)
  show "\<exists>b'. be_insert t s b = Inr (int (length t) div be_block_size b * be_block_size b, b')
     \<and> be_rep b' (spec_insert (be_block_size b) t s cl) \<and> be_block_size b' = be_block_size b"
    if "c_tokens t" "int32 s" "claims_fit (spec_insert (be_block_size b) t s cl)"
  proof (cases b)
    case (Native nc)
    with rep native_insert_rep[of nc cl t s] that obtain nc' where
      "native_insert t s nc = Inr (int (length t) div nc_block_size nc * nc_block_size nc, nc')"
      "native_rep nc' (spec_insert (nc_block_size nc) t s cl)" "nc_block_size nc' = nc_block_size nc"
      by (auto simp: be_rep_def be_block_size_def claims_fit_def)
    with Native show ?thesis by (simp add: be_insert_def be_block_size_def be_rep_def)
  next
    case (Python c)
    with rep have r: "pc_rep c cl" by (simp add: be_rep_def)
    with Python pc.insert_rep[OF r, of t s] pc.insert_count[OF r, of t s] pc.insert_bsize[OF r, of t s] show ?thesis
      by (simp add: be_insert_def be_block_size_def be_rep_def case_prod_beta)
  qed
  show "\<exists>b'. be_evict s b = Inr b' \<and> be_rep b' (spec_evict s cl) \<and> be_block_size b' = be_block_size b" if "int32 s"
  proof (cases b)
    case (Native nc)
    with rep native_evict_rep[of nc cl s] that obtain nc' where
      "native_evict s nc = Inr nc'" "native_rep nc' (spec_evict s cl)" "nc_block_size nc' = nc_block_size nc"
      by (auto simp: be_rep_def)
    with Native show ?thesis by (simp add: be_evict_def be_block_size_def be_rep_def)
  qed (use rep pc.evict_rep pc.evict_bsize in \<open>simp add: be_evict_def be_block_size_def be_rep_def\<close>)
qed

lemma be_node_count_rep: "be_rep b cl \<Longrightarrow> be_node_count b = int (card (paths cl - {[]}))"
  using node_count_rep ts_rep_count(1)
  by (auto simp: be_rep_def be_node_count_def native_rep_def native_node_count_def ts_prefix_cache_node_count_def
      split: backend.splits)

text \<open>The C function returns the number of sequences as an \<open>int32_t\<close>.\<close>

lemma be_seq_count_rep: "be_rep b cl \<Longrightarrow> int32 (int (length cl)) \<Longrightarrow> be_seq_count b = int (length cl)"
  using seq_count_rep ts_rep_count(2)
  by (auto simp: be_rep_def be_seq_count_def native_rep_def native_seq_count_def ts_prefix_cache_seq_count_def
      split: backend.splits)

lemma be_close_ok:
  assumes "be_rep b cl"
  shows "\<exists>b'. be_close b = Inr b' \<and> be_node_count b' = 0 \<and> be_seq_count b' = 0"
proof (cases b)
  case (Python c)
  with pc_close_rep have "be_rep (Python (pc_close c)) []" using assms by (simp add: be_rep_def)
  from be_node_count_rep[OF this] be_seq_count_rep[OF this] Python show ?thesis by (simp add: be_close_def paths_def int32_def)
next
  case (Native nc)
  with assms obtain d where d: "nc_handle nc = Some d" "ts_rep d cl" by (auto simp: be_rep_def elim: native_repE)
  from c_destroy_frees[OF d(2)] Native d(1) show ?thesis
    by (auto simp: be_close_def native_close_def ts_prefix_cache_destroy_def be_node_count_def be_seq_count_def
        native_node_count_def native_seq_count_def ts_prefix_cache_node_count_def ts_prefix_cache_seq_count_def)
qed

lemma create_prefix_cache_rep:
  assumes "create_prefix_cache lib bs prefer = Inr b" "bs < 2 ^ 31"
  shows "be_rep b []" "be_block_size b = bs"
  using assms pc_init_rep native_init_rep
  by (auto simp: create_prefix_cache_def Let_def be_rep_def be_block_size_def res_bind_eq_Inr split: if_splits sum.splits)

text \<open>
  The results as functions: what a lookup finds, and the backend after the prompt has been looked up and
  published, or after an eviction.
\<close>

definition be_hit :: "int list \<Rightarrow> backend \<Rightarrow> prefix_match" where
  "be_hit t c = fst (projr (be_match_for_reuse t c))"

definition be_claimed :: "int list \<Rightarrow> int \<Rightarrow> backend \<Rightarrow> backend" where
  "be_claimed t s c = snd (projr (be_insert t s (snd (projr (be_match_for_reuse t c)))))"

definition be_evicted :: "int \<Rightarrow> backend \<Rightarrow> backend" where
  "be_evicted s c = projr (be_evict s c)"

definition claim_safe :: "int list \<Rightarrow> int \<Rightarrow> backend \<Rightarrow> bool" where
  "claim_safe t s c \<longleftrightarrow> (\<exists>h c1 n c2. be_match_for_reuse t c = Inr (h, c1) \<and> be_insert t s c1 = Inr (n, c2))"

definition evict_safe :: "int \<Rightarrow> backend \<Rightarrow> bool" where
  "evict_safe s c \<longleftrightarrow> (\<exists>c'. be_evict s c = Inr c')"

lemma claim_safeE:
  assumes "claim_safe t s c"
  obtains c1 n where "be_match_for_reuse t c = Inr (be_hit t c, c1)" "be_insert t s c1 = Inr (n, be_claimed t s c)"
  using assms by (auto simp: claim_safe_def be_hit_def be_claimed_def)

lemma evict_safeD: "evict_safe s c \<Longrightarrow> be_evict s c = Inr (be_evicted s c)"
  by (auto simp: evict_safe_def be_evicted_def)

lemma be_claim:
  assumes "be_rep c cl" "c_tokens t" "int32 s" "claims_fit (spec_insert (be_block_size c) t s cl)"
  shows "claim_safe t s c" "be_rep (be_claimed t s c) (spec_insert (be_block_size c) t s cl)" "be_block_size (be_claimed t s c) = be_block_size c"
  using be.claim_rep[OF assms] by (auto simp: claim_safe_def be_claimed_def be_match_for_reuse_def)

lemma be_lookup: "be_rep c cl \<Longrightarrow> c_tokens t \<Longrightarrow> be_hit t c = spec_reuse (be_block_size c) t cl"
  using be.reuse_rep[of c cl t] by (auto simp: be_hit_def be_match_for_reuse_def)

lemma be_evict_claims:
  assumes "be_rep c cl" "int32 s"
  shows "evict_safe s c" "be_rep (be_evicted s c) (spec_evict s cl)" "be_block_size (be_evicted s c) = be_block_size c"
  using be.evict_rep[OF assms] by (auto simp: evict_safe_def be_evicted_def)

text \<open>Every node belongs to a claim, so the claims bound the number of nodes.\<close>

lemma card_paths_le: "int (card (paths cl - {[]})) \<le> (\<Sum>c\<leftarrow>cl. int (length (snd c)))"
proof (induction cl)
  case Nil
  have "paths [] = {[]}" by (auto simp: paths_def)
  then show ?case by simp
next
  case (Cons c cl)
  obtain s b where c: "c = (s, b)" by force
  have "paths (c # cl) - {[]} \<subseteq> (\<lambda>i. take i b) ` {1..length b} \<union> (paths cl - {[]})"
  proof
    fix p assume p: "p \<in> paths (c # cl) - {[]}"
    show "p \<in> (\<lambda>i. take i b) ` {1..length b} \<union> (paths cl - {[]})"
    proof (cases "prefix p b")
      case True
      then have "p = take (length p) b" "length p \<le> length b" by (auto simp: prefix_def)
      with p show ?thesis by (intro UnI1 image_eqI[of _ _ "length p"]) (auto simp: Suc_le_eq)
    qed (use p c in \<open>simp add: paths_Cons\<close>)
  qed
  then have "card (paths (c # cl) - {[]}) \<le> card ((\<lambda>i. take i b) ` {1..length b} \<union> (paths cl - {[]}))"
    by (intro card_mono) auto
  also have "\<dots> \<le> card ((\<lambda>i. take i b) ` {1..length b}) + card (paths cl - {[]})" by (rule card_Un_le)
  also have "card ((\<lambda>i. take i b) ` {1..length b}) \<le> length b" using card_image_le[of "{1..length b}" "\<lambda>i. take i b"] by simp
  finally show ?case using Cons c by simp
qed

section \<open>Histories\<close>

fun be_run :: "cache_call list \<Rightarrow> backend \<Rightarrow> backend res" where
  "be_run [] b = Inr b"
| "be_run (CallInsert t s # xs) b = res_bind (be_insert t s b) (\<lambda>(n, b'). be_run xs b')"
| "be_run (CallEvict s # xs) b = res_bind (be_evict s b) (\<lambda>b'. be_run xs b')"
| "be_run (CallClose # xs) b = res_bind (be_close b) (\<lambda>b'. be_run xs b')"

text \<open>Histories that stay in the range of the C interface, on a cache that is not closed.\<close>

fun calls_fit :: "int \<Rightarrow> cache_call list \<Rightarrow> claim list \<Rightarrow> bool" where
  "calls_fit bs [] cl = True"
| "calls_fit bs (CallInsert t s # xs) cl =
     (c_tokens t \<and> int32 s \<and> claims_fit (spec_insert bs t s cl) \<and> calls_fit bs xs (spec_insert bs t s cl))"
| "calls_fit bs (CallEvict s # xs) cl = (int32 s \<and> calls_fit bs xs (spec_evict s cl))"
| "calls_fit bs (CallClose # xs) cl = False"

lemma be_run_rep:
  assumes "be_rep b cl" "calls_fit (be_block_size b) xs cl"
  shows "\<exists>b'. be_run xs b = Inr b' \<and> be_rep b' (fold (claim_call_step (be_block_size b)) xs cl) \<and> be_block_size b' = be_block_size b"
  using assms
proof (induction xs arbitrary: b cl)
  case (Cons x xs)
  show ?case
  proof (cases x)
    case (CallInsert t s)
    with Cons.prems obtain n b' where "be_insert t s b = Inr (n, b')" "be_rep b' (spec_insert (be_block_size b) t s cl)"
      "be_block_size b' = be_block_size b" using be.insert_rep[of b cl t s] by auto
    with Cons.IH[OF this(2)] Cons.prems CallInsert show ?thesis by simp
  next
    case (CallEvict s)
    with Cons.prems obtain b' where "be_evict s b = Inr b'" "be_rep b' (spec_evict s cl)" "be_block_size b' = be_block_size b"
      using be.evict_rep[of b cl s] by auto
    with Cons.IH[OF this(2)] Cons.prems CallEvict show ?thesis by simp
  qed (use Cons.prems in simp)
qed simp

text \<open>
  C20. Reuse is safe and gives nothing away, on both backends. After any history of publications and
  evictions with 32-bit arguments, no call faults and a lookup answers; a hit names a sequence that has
  published and not been evicted since, covers a whole number of blocks, leaves at least one prompt token
  to decode, and the published prompt agrees with the new one on all covered tokens; and if some live claim
  shares \<open>k\<close> whole blocks with the prompt that leave a token to decode, the hit covers at least those.
\<close>

theorem prefix_reuse_exact:
  assumes "create_prefix_cache lib bs prefer = Inr b0" "bs < 2 ^ 31" "calls_fit bs xs []" "c_tokens t"
  shows "\<exists>b m b'. be_run xs b0 = Inr b \<and> be_match_for_reuse t b = Inr (m, b')
     \<and> (is_hit m \<longrightarrow> (\<exists>bl. (match_seq_id m, bl) \<in> set (fold (claim_call_step bs) xs [])
          \<and> n_tokens m < int (length t) \<and> bs dvd n_tokens m \<and> nat (n_tokens m) \<le> length (concat bl)
          \<and> take (nat (n_tokens m)) (concat bl) = take (nat (n_tokens m)) t))
     \<and> (\<forall>s bl k. (s, bl) \<in> set (fold (claim_call_step bs) xs []) \<longrightarrow> k \<le> length (blocks bs t)
          \<longrightarrow> prefix (take k (blocks bs t)) bl \<longrightarrow> int k * bs < int (length t) \<longrightarrow> int k * bs \<le> n_tokens m)"
proof -
  note C = create_prefix_cache_rep[OF assms(1,2)]
  obtain b where b: "be_run xs b0 = Inr b" "be_rep b (fold (claim_call_step bs) xs [])" "be_block_size b = bs"
    using be_run_rep[OF C(1)] assms(3) C(2) by auto
  then obtain b' where "be_match_for_reuse t b = Inr (spec_reuse bs t (fold (claim_call_step bs) xs []), b')"
    using be.reuse_rep[OF b(2) assms(4)] by (auto simp: be_match_for_reuse_def)
  moreover have "0 < bs" using be.rep_wf[OF b(2)] b(3) by simp
  ultimately show ?thesis using b(1) spec_reuse_sound[of bs t] spec_reuse_maximal[of bs] by blast
qed

theorem prefix_reuse_exact_witness:
  "\<exists>b0 b m b'. create_prefix_cache (Some ''lib.so'') 2 True = Inr b0
     \<and> be_run [CallInsert [1, 2, 3, 4] 7] b0 = Inr b \<and> be_match_for_reuse [1, 2, 9] b = Inr (m, b') \<and> 2 \<le> n_tokens m"
proof -
  let ?xs = "[CallInsert [1, 2, 3, 4] 7]" and ?cl = "[(7 :: int, [[1, 2], [3, 4 :: int]])]"
  have cl: "fold (claim_call_step 2) ?xs [] = ?cl" by (simp add: cache_spec_simps)
  have "int (card (paths ?cl - {[]})) < 2 ^ 31" using card_paths_le[of ?cl] by simp
  then have "calls_fit 2 ?xs []" using cl by (simp add: claims_fit_def c_tokens_def int32_def)
  moreover obtain b0 where b0: "create_prefix_cache (Some ''lib.so'') 2 True = Inr b0"
    by (cases "create_prefix_cache (Some ''lib.so'') 2 True")
      (auto simp: create_prefix_cache_def native_init_def ts_prefix_cache_create_def i32_def)
  moreover have "c_tokens [1, 2, 9]" by (simp add: c_tokens_def int32_def)
  moreover have "1 \<le> length (blocks 2 [1, 2, 9])" "prefix (take 1 (blocks 2 [1, 2, 9])) [[1, 2], [3, 4]]"
    by (simp_all add: cache_spec_simps)
  ultimately show ?thesis
    using prefix_reuse_exact[of "Some ''lib.so''" 2 True b0 ?xs "[1, 2, 9]"] unfolding cl by fastforce
qed

end
