(* ===== verification/Request_Queue.thy ===== *)
theory Request_Queue
  imports TS_Float
begin

text \<open>
  The waiting pool of \<^verbatim>\<open>tinyserve/queue/request_queue.py\<close>: a dictionary of pending requests in
  arrival order and the event that wakes the batch loop. \<open>queue_inv\<close> says that the dictionary is
  keyed by the requests' own identifiers. \<open>wait_check\<close> is one pass of the loop in
  \<open>wait_until_nonempty\<close>; the queue and its event together never lose a wake-up (\<open>push_wakes\<close>).
\<close>

record pending_request =
  req_id :: string
  prompt_tokens :: "int list"
  max_tokens :: int
  priority :: int
  arrival_ts :: float64

record request_queue =
  waiting_d :: "(string, pending_request) dict"
  arrived :: bool

definition queue_init :: request_queue where
  "queue_init = \<lparr>waiting_d = [], arrived = False\<rparr>"

definition push :: "pending_request \<Rightarrow> request_queue \<Rightarrow> request_queue" where
  "push request q = q\<lparr>waiting_d := dict_set (req_id request) request (waiting_d q), arrived := True\<rparr>"

definition waiting :: "request_queue \<Rightarrow> pending_request list" where
  "waiting q = vals (waiting_d q)"

definition queue_remove :: "string \<Rightarrow> request_queue \<Rightarrow> (pending_request \<times> request_queue) res" where
  "queue_remove request_id q =
     res_bind (dict_pop (waiting_d q) request_id) (\<lambda>(r, d). Inr (r, q\<lparr>waiting_d := d\<rparr>))"

definition queue_depth :: "request_queue \<Rightarrow> int" where
  "queue_depth q = int (length (waiting_d q))"

text \<open>
  One pass of the loop of \<open>wait_until_nonempty\<close>: \<open>True\<close> when the coroutine returns, \<open>False\<close> when it
  clears the event and suspends on it.
\<close>

definition wait_check :: "request_queue \<Rightarrow> bool \<times> request_queue" where
  "wait_check q = (if waiting_d q \<noteq> [] then (True, q) else (False, q\<lparr>arrived := False\<rparr>))"

section \<open>Invariant\<close>

definition queue_inv :: "request_queue \<Rightarrow> bool" where
  "queue_inv q \<longleftrightarrow> dict_wf (waiting_d q) \<and> (\<forall>(k, r) \<in> set (waiting_d q). req_id r = k)"

abbreviation queued_ids :: "request_queue \<Rightarrow> string set" where
  "queued_ids q \<equiv> set (keys (waiting_d q))"

lemma queue_inv_init [simp]: "queue_inv queue_init"
  by (simp add: queue_inv_def queue_init_def)

lemma waiting_ids: "queue_inv q \<Longrightarrow> map req_id (waiting q) = keys (waiting_d q)"
  by (auto simp: queue_inv_def waiting_def)

lemma distinct_waiting_ids: "queue_inv q \<Longrightarrow> distinct (map req_id (waiting q))"
  by (simp add: waiting_ids) (simp add: queue_inv_def dict_wf_def)

lemma in_waiting:
  assumes "queue_inv q"
  shows "r \<in> set (waiting q) \<longleftrightarrow> dict_get (waiting_d q) (req_id r) = Some r"
proof
  assume "r \<in> set (waiting q)"
  then obtain k where "(k, r) \<in> set (waiting_d q)" by (auto simp: waiting_def)
  with assms show "dict_get (waiting_d q) (req_id r) = Some r"
    by (auto simp: queue_inv_def intro: dict_get_in)
next
  assume "dict_get (waiting_d q) (req_id r) = Some r"
  then show "r \<in> set (waiting q)" by (force simp: waiting_def dest: dict_getD)
qed

lemma push_inv:
  assumes "queue_inv q"
  shows "queue_inv (push r q)"
proof -
  have "set (dict_set k r d) \<subseteq> insert (k, r) (set d)" for k d
    by (induction d) auto
  with assms show ?thesis by (fastforce simp: queue_inv_def push_def)
qed

lemma push_new:
  "req_id r \<notin> queued_ids q \<Longrightarrow> waiting_d (push r q) = waiting_d q @ [(req_id r, r)]"
  by (simp add: push_def keys_set_new)

lemma push_wakes: "arrived (push r q)" "waiting_d (push r q) \<noteq> []"
  by (simp_all add: push_def)

lemma queue_remove_eq:
  "dict_get (waiting_d q) i = Some r \<Longrightarrow> queue_remove i q = Inr (r, q\<lparr>waiting_d := dict_del i (waiting_d q)\<rparr>)"
  by (simp add: queue_remove_def dict_pop_def)

lemma queue_remove_missing: "i \<notin> queued_ids q \<Longrightarrow> queue_remove i q = Inl KeyError"
  by (simp add: queue_remove_def dict_pop_def dict_get_eq_None [THEN iffD2])

lemma queue_remove_inv:
  assumes "queue_inv q" "queue_remove i q = Inr (r, q')"
  shows "queue_inv q'" "req_id r = i" "waiting q' = remove1 r (waiting q)"
proof -
  from assms(2) have g: "dict_get (waiting_d q) i = Some r" and q': "q' = q\<lparr>waiting_d := dict_del i (waiting_d q)\<rparr>"
    by (auto simp: queue_remove_def res_bind_eq_Inr)
  show "queue_inv q'" using assms(1) by (auto simp: queue_inv_def q' set_dict_del)
  show id: "req_id r = i" using assms(1) dict_getD[OF g] by (auto simp: queue_inv_def)
  have "vals (dict_del i d) = remove1 r (vals d)"
    if "dict_wf d" "(i, r) \<in> set d" "\<forall>(k, v) \<in> set d. req_id v = k" for d
    using that
  proof (induction d)
    case (Cons e d)
    obtain k v where e: "e = (k, v)" by force
    show ?case
    proof (cases "k = i")
      case True
      with Cons.prems e have "i \<notin> fst ` set d" "v = r" by (force simp: dict_wf_def)+
      with True e show ?thesis by simp
    next
      case False
      moreover have "v \<noteq> r" using False Cons.prems e by auto
      ultimately show ?thesis using Cons e by (auto simp: dict_wf_def)
    qed
  qed simp
  with assms(1) dict_getD[OF g] show "waiting q' = remove1 r (waiting q)"
    by (simp add: waiting_def q' queue_inv_def)
qed

section \<open>Properties\<close>

text \<open>
  The queue keeps arrival order and hands out each request once: a pushed request is the last of
  \<open>waiting()\<close>, the depth is the number of waiting requests, \<open>remove\<close> returns the request with that
  identifier and leaves the others in order, and removing it again raises \<open>KeyError\<close>.
\<close>

theorem queue_push_remove:
  assumes "queue_inv q" "req_id r \<notin> queued_ids q"
  shows "waiting (push r q) = waiting q @ [r] \<and> queue_depth (push r q) = queue_depth q + 1
     \<and> (\<exists>q'. queue_remove (req_id r) (push r q) = Inr (r, q') \<and> waiting q' = waiting q
            \<and> queue_inv q' \<and> queue_remove (req_id r) q' = Inl KeyError)"
proof -
  note P = push_new[OF assms(2)]
  have g: "dict_get (waiting_d (push r q)) (req_id r) = Some r"
    using assms(2) by (simp add: push_def)
  let ?q = "(push r q)\<lparr>waiting_d := dict_del (req_id r) (waiting_d (push r q))\<rparr>"
  have e: "queue_remove (req_id r) (push r q) = Inr (r, ?q)" by (rule queue_remove_eq[OF g])
  have w: "waiting_d ?q = waiting_d q" using assms(2) by (force simp: P AList.delete_eq filter_id_conv)
  then have "queue_inv ?q" using assms(1) by (simp add: queue_inv_def)
  moreover have "queue_remove (req_id r) ?q = Inl KeyError" using assms(2) queue_remove_missing[of "req_id r" ?q] unfolding w by blast
  moreover have "waiting ?q = waiting q" by (simp only: waiting_def w)
  ultimately show ?thesis using P e by (auto simp: waiting_def queue_depth_def)
qed

theorem queue_push_remove_witness:
  "waiting (push \<lparr>req_id = ''a'', prompt_tokens = [1], max_tokens = 4, priority = 1, arrival_ts = 0\<rparr> queue_init)
     = [\<lparr>req_id = ''a'', prompt_tokens = [1], max_tokens = 4, priority = 1, arrival_ts = 0\<rparr>]"
  using queue_push_remove[OF queue_inv_init,
      of "\<lparr>req_id = ''a'', prompt_tokens = [1], max_tokens = 4, priority = 1, arrival_ts = 0\<rparr>"]
  by (simp add: waiting_def queue_init_def)

end
