(* ===== verification/Scheduler.thy ===== *)
theory Scheduler
  imports Request_Queue "HOL-Library.Product_Lexorder"
begin

text \<open>
  The scheduling policies of \<^verbatim>\<open>tinyserve/scheduler/{base,fifo,priority,wfq}.py\<close> and the virtual-time
  bookkeeping of \<^verbatim>\<open>tinyserve/queue/fairness.py\<close>. A policy object is a value of \<open>policy\<close>; only the
  weighted fair queue has state, its dictionary of virtual finish times. Evaluating the key of
  \<open>min(pool, key=...)\<close> updates that dictionary, so the model threads it through the pool in order.

  The locale \<open>scheduling_policy\<close> is the \<open>SchedulingPolicy\<close> protocol with the contract the batch loop
  relies on: \<open>select\<close> returns requests of the pool, each at most once, and as many as fit. It is
  interpreted for each policy and for the union type the server holds.
\<close>

section \<open>WeightedFairQueue\<close>

type_synonym fair_state = "(int, float64) dict"

definition weight :: "int \<Rightarrow> int" where
  "weight p = max p 1"

definition virtual_finish_time :: "int \<Rightarrow> int list \<Rightarrow> fair_state \<Rightarrow> float64 \<times> fair_state" where
  "virtual_finish_time c backlogged vf =
     (case dict_get vf c of
        Some v \<Rightarrow> (v, vf)
      | None \<Rightarrow>
          let known = List.map_filter (dict_get vf) backlogged;
              v = (if known \<noteq> [] then Min (set known) else 0)
          in (v, dict_set c v vf))"

definition charge :: "int \<Rightarrow> int list \<Rightarrow> fair_state \<Rightarrow> fair_state" where
  "charge c backlogged vf =
     (case virtual_finish_time c backlogged vf of (current, vf1) \<Rightarrow>
        dict_set c (fadd current (fl (1 / of_int (weight c)))) vf1)"

section \<open>Policies\<close>

definition fifo_select :: "pending_request list \<Rightarrow> int \<Rightarrow> pending_request list" where
  "fifo_select ws capacity = py_take capacity (sort_key arrival_ts ws)"

definition priority_select :: "pending_request list \<Rightarrow> int \<Rightarrow> pending_request list" where
  "priority_select ws capacity =
     py_take capacity (sort_key (\<lambda>r. (- priority r, arrival_ts r)) ws)"

text \<open>The keys of \<open>min(pool, key=...)\<close>, each call seeing the updates of the calls before it.\<close>

fun wfq_keys :: "int list \<Rightarrow> pending_request list \<Rightarrow> fair_state
    \<Rightarrow> ((float64 \<times> float64) \<times> pending_request) list \<times> fair_state" where
  "wfq_keys backlogged [] vf = ([], vf)"
| "wfq_keys backlogged (r # rs) vf =
     (let (v, vf1) = virtual_finish_time (priority r) backlogged vf;
          (ks, vf2) = wfq_keys backlogged rs vf1
      in (((v, arrival_ts r), r) # ks, vf2))"

fun wfq_loop :: "nat \<Rightarrow> pending_request list \<Rightarrow> fair_state \<Rightarrow> (pending_request list \<times> fair_state) res" where
  "wfq_loop 0 pool vf = Inr ([], vf)"
| "wfq_loop (Suc n) pool vf =
     (let backlogged = remdups (map priority pool) in
      case wfq_keys backlogged pool vf of
        ([], _) \<Rightarrow> Inl ValueError
      | (k # ks, vf1) \<Rightarrow>
          let best = snd (min_by fst k ks) in
          res_bind (wfq_loop n (remove1 best pool) (charge (priority best) backlogged vf1))
            (\<lambda>(chosen, vf2). Inr (best # chosen, vf2)))"

definition wfq_select :: "fair_state \<Rightarrow> pending_request list \<Rightarrow> int
    \<Rightarrow> (pending_request list \<times> fair_state) res" where
  "wfq_select vf ws capacity = wfq_loop (nat (min capacity (int (length ws)))) ws vf"

datatype policy = FIFOPolicy | PriorityPolicy | WFQPolicy fair_state

definition select :: "policy \<Rightarrow> pending_request list \<Rightarrow> int \<Rightarrow> (pending_request list \<times> policy) res" where
  "select p ws capacity =
     (case p of
        FIFOPolicy \<Rightarrow> Inr (fifo_select ws capacity, p)
      | PriorityPolicy \<Rightarrow> Inr (priority_select ws capacity, p)
      | WFQPolicy vf \<Rightarrow>
          res_bind (wfq_select vf ws capacity) (\<lambda>(chosen, vf'). Inr (chosen, WFQPolicy vf')))"

text \<open>The constructors: \<open>WFQPolicy\<close> makes its own \<open>WeightedFairQueue\<close> unless it is given one.\<close>

definition weighted_fair_queue_init :: fair_state where
  "weighted_fair_queue_init = []"

definition wfq_policy_init :: "fair_state option \<Rightarrow> policy" where
  "wfq_policy_init fairness =
     WFQPolicy (case fairness of None \<Rightarrow> weighted_fair_queue_init | Some vf \<Rightarrow> vf)"

lemma wfq_policy_init_None [simp]: "wfq_policy_init None = WFQPolicy []"
  by (simp add: wfq_policy_init_def weighted_fair_queue_init_def)

definition create_policy :: "string \<Rightarrow> policy res" where
  "create_policy name =
     (if name = ''fifo'' then Inr FIFOPolicy
      else if name = ''priority'' then Inr PriorityPolicy
      else if name = ''wfq'' then Inr (wfq_policy_init None)
      else Inl ValueError)"

section \<open>The protocol\<close>

locale scheduling_policy =
  fixes sel :: "'p \<Rightarrow> pending_request list \<Rightarrow> int \<Rightarrow> (pending_request list \<times> 'p) res"
  assumes sel_ok: "0 \<le> cap \<Longrightarrow> \<exists>chosen p'. sel p ws cap = Inr (chosen, p')
     \<and> mset chosen \<subseteq># mset ws \<and> int (length chosen) = min cap (int (length ws))"
begin

lemma sel_total: "0 \<le> cap \<Longrightarrow> \<exists>chosen p'. sel p ws cap = Inr (chosen, p')"
  using sel_ok by blast

lemma sel_mset:
  assumes "0 \<le> cap" "sel p ws cap = Inr (chosen, p')"
  shows "mset chosen \<subseteq># mset ws" "int (length chosen) = min cap (int (length ws))"
  using sel_ok[OF assms(1), of p ws] assms(2) by auto

lemma sel_subset: "0 \<le> cap \<Longrightarrow> sel p ws cap = Inr (chosen, p') \<Longrightarrow> set chosen \<subseteq> set ws"
  by (metis mset_subset_eqD set_mset_mset sel_mset(1) subsetI)

lemma sel_distinct_ids:
  assumes "0 \<le> cap" "sel p ws cap = Inr (chosen, p')" "distinct (map req_id ws)"
  shows "distinct (map req_id chosen)"
proof -
  have "image_mset req_id (mset chosen) \<subseteq># image_mset req_id (mset ws)"
    by (rule image_mset_subseteq_mono[OF sel_mset(1)[OF assms(1,2)]])
  then have "mset (map req_id chosen) \<subseteq># mset (map req_id ws)" by simp
  then show ?thesis using assms(3) by (rule distinct_submset)
qed

end

interpretation fifo: scheduling_policy "\<lambda>p ws cap. Inr (fifo_select ws cap, p)"
  by unfold_locales (auto simp: fifo_select_def)

interpretation prio: scheduling_policy "\<lambda>p ws cap. Inr (priority_select ws cap, p)"
  by unfold_locales (auto simp: priority_select_def)

section \<open>The weighted fair queue\<close>

lemma wfq_keys_requests: "wfq_keys b rs vf = (ks, vf') \<Longrightarrow> map snd ks = rs"
  by (induction rs arbitrary: vf ks vf') (auto split: prod.splits)

lemma wfq_loop_contract:
  assumes "n \<le> length pool"
  shows "\<exists>chosen vf'. wfq_loop n pool vf = Inr (chosen, vf') \<and> mset chosen \<subseteq># mset pool \<and> length chosen = n"
  using assms
proof (induction n arbitrary: pool vf)
  case (Suc n)
  let ?b = "remdups (map priority pool)"
  obtain ks vf1 where k: "wfq_keys ?b pool vf = (ks, vf1)" by force
  then have snd: "map snd ks = pool" by (rule wfq_keys_requests)
  with Suc.prems obtain k ks' where ks: "ks = k # ks'" by (cases ks) auto
  let ?best = "snd (min_by fst k ks')"
  have best: "?best \<in> set pool" using min_by_in[of fst k ks'] snd ks by auto
  have "n \<le> length (remove1 ?best pool)" using Suc.prems best by (simp add: length_remove1)
  from Suc.IH[OF this] obtain chosen vf' where
    c: "wfq_loop n (remove1 ?best pool) (charge (priority ?best) ?b vf1) = Inr (chosen, vf')"
    "mset chosen \<subseteq># mset (remove1 ?best pool)" "length chosen = n" by blast
  have "mset (?best # chosen) \<subseteq># mset pool"
  proof -
    have "mset pool = add_mset ?best (mset pool - {#?best#})" using best by simp
    moreover have "mset chosen \<subseteq># mset pool - {#?best#}" using c(2) by simp
    ultimately show ?thesis by (metis mset.simps(2) mset_subset_eq_add_mset_cancel)
  qed
  moreover have "wfq_loop (Suc n) pool vf = Inr (?best # chosen, vf')"
    using k ks c(1) by (simp add: Let_def)
  ultimately show ?case using c(3) by (intro exI[of _ "?best # chosen"] exI[of _ vf']) simp
qed simp

interpretation wfq: scheduling_policy wfq_select
proof unfold_locales
  fix cap :: int and p :: fair_state and ws :: "pending_request list"
  assume "0 \<le> cap"
  moreover have "nat (min cap (int (length ws))) \<le> length ws" by simp
  ultimately show "\<exists>chosen p'. wfq_select p ws cap = Inr (chosen, p')
     \<and> mset chosen \<subseteq># mset ws \<and> int (length chosen) = min cap (int (length ws))"
    using wfq_loop_contract[of "nat (min cap (int (length ws)))" ws p] by (auto simp: wfq_select_def)
qed

interpretation pol: scheduling_policy select
proof unfold_locales
  fix cap :: int and p :: policy and ws :: "pending_request list"
  assume c: "0 \<le> cap"
  show "\<exists>chosen p'. select p ws cap = Inr (chosen, p')
     \<and> mset chosen \<subseteq># mset ws \<and> int (length chosen) = min cap (int (length ws))"
  proof (cases p)
    case (WFQPolicy vf)
    with wfq.sel_ok[OF c, of vf ws] show ?thesis by (auto simp: select_def)
  qed (use c in \<open>auto simp: select_def fifo_select_def priority_select_def\<close>)
qed

section \<open>What each policy prefers\<close>

text \<open>The prefix of a stable sort: what is taken precedes what is left.\<close>

lemma sort_key_prefix_le:
  assumes "0 \<le> cap" "x \<in> set (py_take cap (sort_key f ws))" "y \<in> set (py_drop cap (sort_key f ws))"
  shows "f x \<le> f y"
proof -
  let ?s = "sort_key f ws" and ?n = "nat cap"
  have "sorted (map f (take ?n ?s @ drop ?n ?s))" by simp
  then have "\<forall>a \<in> set (map f (take ?n ?s)). \<forall>b \<in> set (map f (drop ?n ?s)). a \<le> b"
    by (simp only: map_append sorted_append) simp
  with assms show ?thesis by simp
qed

lemma not_selected_in_rest:
  assumes "0 \<le> cap" "y \<in> set ws" "y \<notin> set (py_take cap (sort_key f ws))"
  shows "y \<in> set (py_drop cap (sort_key f ws))"
proof -
  have "y \<in> set (py_take cap (sort_key f ws) @ py_drop cap (sort_key f ws))"
    using assms(2) by (simp only: py_take_drop) simp
  with assms(3) show ?thesis by (simp only: set_append) blast
qed

lemma fifo_order:
  assumes "0 \<le> cap" "r \<in> set (fifo_select ws cap)" "r' \<in> set ws" "r' \<notin> set (fifo_select ws cap)"
  shows "arrival_ts r \<le> arrival_ts r'"
  using sort_key_prefix_le[OF assms(1) _ not_selected_in_rest[OF assms(1,3)], of r arrival_ts]
    assms(2,4) unfolding fifo_select_def by blast

lemma priority_order:
  assumes "0 \<le> cap" "r \<in> set (priority_select ws cap)" "r' \<in> set ws" "r' \<notin> set (priority_select ws cap)"
  shows "priority r' < priority r \<or> (priority r' = priority r \<and> arrival_ts r \<le> arrival_ts r')"
proof -
  have "(- priority r, arrival_ts r) \<le> (- priority r', arrival_ts r')"
    using sort_key_prefix_le[OF assms(1) _ not_selected_in_rest[OF assms(1,3)],
        of r "\<lambda>q. (- priority q, arrival_ts q)"] assms(2,4) unfolding priority_select_def by blast
  then show ?thesis by (auto simp: less_eq_prod_def)
qed

text \<open>Strict priority starves: enough higher-priority requests keep a request out.\<close>

lemma priority_starvation:
  assumes "0 \<le> cap" "cap \<le> int (length (filter (\<lambda>q. priority r < priority q) ws))" "r \<in> set ws"
  shows "r \<notin> set (priority_select ws cap)"
proof
  let ?f = "\<lambda>q. (- priority q, arrival_ts q)" and ?hi = "\<lambda>q. priority r < priority q"
  let ?s = "sort_key ?f ws" and ?n = "nat cap"
  assume "r \<in> set (priority_select ws cap)"
  then have r: "r \<in> set (take ?n ?s)" using assms(1) by (simp add: priority_select_def)
  have rest: "\<not> ?hi q" if "q \<in> set (drop ?n ?s)" for q
  proof -
    have "?f r \<le> ?f q" using sort_key_prefix_le[OF assms(1), of r ?f ws q] r that assms(1) by simp
    then show ?thesis by (auto simp: less_eq_prod_def)
  qed
  have "length (filter ?hi ws) = length (filter ?hi ?s)" by (metis mset_filter mset_sort size_mset)
  also have "\<dots> = length (filter ?hi (take ?n ?s @ drop ?n ?s))" by simp
  also have "\<dots> = length (filter ?hi (take ?n ?s))" using rest by (simp only: filter_append) simp
  also have "\<dots> < length (take ?n ?s)" using r by (intro length_filter_less) auto
  also have "\<dots> \<le> ?n" by simp
  finally show False using assms(1,2) by linarith
qed

section \<open>Bounded unfairness of the weighted fair queue\<close>

text \<open>
  The classes of a set \<open>B\<close> stay within one charge of each other: no finish time passes another by
  more than the charge of its own class. This survives rounding, because rounding is monotone.
\<close>

definition step_of :: "int \<Rightarrow> float64" where
  "step_of c = fl (1 / of_int (weight c))"

definition fair_state_ok :: "fair_state \<Rightarrow> bool" where
  "fair_state_ok vf \<longleftrightarrow> (\<forall>c v. dict_get vf c = Some v \<longrightarrow> is_float v)"

definition fair :: "fair_state \<Rightarrow> int set \<Rightarrow> bool" where
  "fair vf B \<longleftrightarrow> fair_state_ok vf \<and>
     (\<forall>c \<in> B. \<forall>d \<in> B. \<forall>v w. dict_get vf c = Some v \<longrightarrow> dict_get vf d = Some w \<longrightarrow> v \<le> fadd w (step_of c))"

lemma step_of_nonneg: "0 \<le> step_of c"
  by (simp add: step_of_def fl_nonneg weight_def)

lemma fair_subset: "fair vf B \<Longrightarrow> B' \<subseteq> B \<Longrightarrow> fair vf B'"
  unfolding fair_def by blast

lemma set_map_filter: "set (List.map_filter f xs) = {y. \<exists>x \<in> set xs. f x = Some y}"
  by (force simp: List.map_filter_def)

lemma vft_known:
  assumes "virtual_finish_time c b vf = (v, vf')"
  shows "dict_get vf' c = Some v" "d \<noteq> c \<Longrightarrow> dict_get vf' d = dict_get vf d"
    "dict_get vf d = Some u \<Longrightarrow> dict_get vf' d = Some u"
  using assms by (auto simp: virtual_finish_time_def Let_def split: option.splits)

text \<open>A newcomer adopts the least finish time among the backlogged classes.\<close>

lemma vft_fair:
  assumes f: "fair vf (set b)" and c: "c \<in> set b" and v: "virtual_finish_time c b vf = (v, vf')"
  shows "fair vf' (set b)"
proof (cases "dict_get vf c")
  case (Some u)
  with v f show ?thesis by (simp add: virtual_finish_time_def)
next
  case None
  let ?known = "List.map_filter (dict_get vf) b"
  have vf': "vf' = dict_set c v vf" and v': "v = (if ?known \<noteq> [] then Min (set ?known) else 0)"
    using None v by (auto simp: virtual_finish_time_def Let_def)
  have le: "v \<le> w" if "d \<in> set b" "dict_get vf d = Some w" for d w
  proof -
    have "w \<in> set ?known" using that by (auto simp: set_map_filter)
    then show ?thesis using v' by (auto intro: Min_le)
  qed
  have ex: "\<exists>d \<in> set b. dict_get vf d = Some v" if "d' \<in> set b" "dict_get vf d' = Some w" for d' w
  proof -
    have "w \<in> set ?known" using that by (auto simp: set_map_filter)
    then have "?known \<noteq> []" by auto
    then have "v \<in> set ?known" using v' Min_in[of "set ?known"] by auto
    then show ?thesis by (auto simp: set_map_filter)
  qed
  have ok: "fair_state_ok vf" using f by (simp add: fair_def)
  have vfl: "is_float v"
  proof (cases "?known = []")
    case False
    then have "v \<in> set ?known" using v' Min_in[of "set ?known"] by auto
    with ok show ?thesis by (auto simp: set_map_filter fair_state_ok_def)
  qed (simp add: v')
  have "x \<le> fadd w (step_of d)" if "d \<in> set b" "e \<in> set b" "dict_get vf' d = Some x" "dict_get vf' e = Some w" for d e x w
  proof -
    consider "d = c" "e = c" | "d = c" "e \<noteq> c" | "d \<noteq> c" "e = c" | "d \<noteq> c" "e \<noteq> c" by blast
    then show ?thesis
    proof cases
      case 1
      with that vf' vfl step_of_nonneg show ?thesis by (auto intro: fadd_ge)
    next
      case 2
      with that vf' have x: "x = v" and w: "dict_get vf e = Some w" by auto
      have "is_float w" using ok w by (auto simp: fair_state_ok_def)
      with x le[OF that(2) w] show ?thesis using fadd_ge[OF _ step_of_nonneg, of w d] by simp
    next
      case 3
      with that vf' have w: "w = v" and x: "dict_get vf d = Some x" by auto
      from ex[OF that(1) x] obtain d' where "d' \<in> set b" "dict_get vf d' = Some v" by blast
      with f that(1) x w show ?thesis unfolding fair_def by blast
    next
      case 4
      with that vf' f show ?thesis unfolding fair_def by auto
    qed
  qed
  moreover have "fair_state_ok vf'" using ok vfl vf' by (auto simp: fair_state_ok_def)
  ultimately show ?thesis unfolding fair_def by blast
qed

lemma wfq_keys_mono:
  "wfq_keys b rs vf = (ks, vf') \<Longrightarrow> dict_get vf c = Some u \<Longrightarrow> dict_get vf' c = Some u"
proof (induction rs arbitrary: vf ks vf')
  case (Cons r rs)
  obtain v vf1 where 1: "virtual_finish_time (priority r) b vf = (v, vf1)" by force
  obtain ks2 vf2 where 2: "wfq_keys b rs vf1 = (ks2, vf2)" by force
  from Cons.prems(1) 1 2 have "vf' = vf2" by auto
  with Cons.IH[OF 2] vft_known(3)[OF 1 Cons.prems(2)] show ?case by simp
qed simp

lemma wfq_keys_fair:
  assumes "wfq_keys b rs vf = (ks, vf')" "fair vf (set b)" "priority ` set rs \<subseteq> set b"
  shows "fair vf' (set b)"
    "(k, r) \<in> set ks \<Longrightarrow> dict_get vf' (priority r) = Some (fst k) \<and> snd k = arrival_ts r \<and> r \<in> set rs"
proof -
  have "fair vf' (set b) \<and> (\<forall>(k, r) \<in> set ks. dict_get vf' (priority r) = Some (fst k) \<and> snd k = arrival_ts r \<and> r \<in> set rs)"
    using assms
  proof (induction rs arbitrary: vf ks vf')
    case (Cons r rs)
    obtain v vf1 where 1: "virtual_finish_time (priority r) b vf = (v, vf1)" by force
    obtain ks2 vf2 where 2: "wfq_keys b rs vf1 = (ks2, vf2)" by force
    have "fair vf1 (set b)" using vft_fair[OF Cons.prems(2) _ 1] Cons.prems(3) by simp
    then have IH: "fair vf2 (set b)" "\<forall>(k, r) \<in> set ks2. dict_get vf2 (priority r) = Some (fst k) \<and> snd k = arrival_ts r \<and> r \<in> set rs"
      using Cons.IH[OF 2] Cons.prems(3) by auto
    have "dict_get vf2 (priority r) = Some v" using wfq_keys_mono[OF 2 vft_known(1)[OF 1]] .
    moreover have "ks = ((v, arrival_ts r), r) # ks2" "vf' = vf2" using Cons.prems(1) 1 2 by auto
    ultimately show ?case using IH by fastforce
  qed simp
  then show "fair vf' (set b)"
    "(k, r) \<in> set ks \<Longrightarrow> dict_get vf' (priority r) = Some (fst k) \<and> snd k = arrival_ts r \<and> r \<in> set rs"
    by auto
qed

text \<open>Charging the class with the least finish time keeps the classes together.\<close>

lemma charge_fair:
  assumes f: "fair vf (set b)" and c: "dict_get vf c = Some m"
    and least: "\<And>d w. d \<in> set b \<Longrightarrow> dict_get vf d = Some w \<Longrightarrow> m \<le> w"
  shows "fair (charge c b vf) (set b)"
proof -
  have ch: "charge c b vf = dict_set c (fadd m (step_of c)) vf"
    using c by (simp add: charge_def virtual_finish_time_def step_of_def)
  have ok: "fair_state_ok vf" using f by (simp add: fair_def)
  then have fm: "is_float m" using c by (auto simp: fair_state_ok_def)
  let ?m = "fadd m (step_of c)"
  have mm: "m \<le> ?m" by (rule fadd_ge[OF fm step_of_nonneg])
  have "x \<le> fadd w (step_of d)" if "d \<in> set b" "e \<in> set b"
    "dict_get (charge c b vf) d = Some x" "dict_get (charge c b vf) e = Some w" for d e x w
  proof -
    have old: "u \<le> fadd w' (step_of d)" if "dict_get vf d = Some u" "dict_get vf e = Some w'" for u w'
      using f \<open>d \<in> set b\<close> \<open>e \<in> set b\<close> that unfolding fair_def by blast
    consider "d = c" "e = c" | "d = c" "e \<noteq> c" | "d \<noteq> c" "e = c" | "d \<noteq> c" "e \<noteq> c" by blast
    then show ?thesis
    proof cases
      case 1
      with that ch show ?thesis by (auto intro: fadd_ge[OF _ step_of_nonneg])
    next
      case 2
      with that ch have "x = ?m" "dict_get vf e = Some w" by auto
      with least[OF that(2)] 2 show ?thesis by (auto intro: fadd_mono)
    next
      case 3
      with that ch have "w = ?m" "dict_get vf d = Some x" by auto
      with old[OF this(2)] 3 c mm show ?thesis by (auto intro: order_trans fadd_mono)
    next
      case 4
      with that ch old show ?thesis by auto
    qed
  qed
  moreover have "fair_state_ok (charge c b vf)" using ok ch by (auto simp: fair_state_ok_def)
  ultimately show ?thesis unfolding fair_def by blast
qed

lemma wfq_loop_fair:
  assumes "fair vf (priority ` set pool)" "wfq_loop n pool vf = Inr (chosen, vf')"
  shows "fair vf' (set_mset (image_mset priority (mset pool - mset chosen)))"
  using assms
proof (induction n arbitrary: pool vf chosen)
  case 0
  then show ?case by (simp add: image_iff)
next
  case (Suc n)
  let ?b = "remdups (map priority pool)"
  obtain ks vf1 where k: "wfq_keys ?b pool vf = (ks, vf1)" by force
  with Suc.prems(2) obtain k ks' where ks: "ks = k # ks'" by (cases ks) auto
  let ?best = "snd (min_by fst k ks')"
  from Suc.prems(2) k ks obtain chosen' where
    rec: "wfq_loop n (remove1 ?best pool) (charge (priority ?best) ?b vf1) = Inr (chosen', vf')"
    and ch: "chosen = ?best # chosen'" by (auto simp: Let_def res_bind_eq_Inr)
  have f: "fair vf (set ?b)" using Suc.prems(1) by simp
  have sub: "priority ` set pool \<subseteq> set ?b" by simp
  note W = wfq_keys_fair[OF k f sub]
  have min_in: "(fst (min_by fst k ks'), ?best) \<in> set ks" using min_by_in[of fst k ks'] ks by auto
  then have best: "dict_get vf1 (priority ?best) = Some (fst (fst (min_by fst k ks')))" using W(2) by simp
  have "fst (fst (min_by fst k ks')) \<le> w" if "d \<in> set ?b" "dict_get vf1 d = Some w" for d w
  proof -
    from that(1) obtain r where r: "r \<in> set pool" "priority r = d" by auto
    then obtain kr where kr: "(kr, r) \<in> set ks" using wfq_keys_requests[OF k] by (metis imageE list.set_map prod.collapse)
    have "fst kr = w" using W(2)[OF kr] r that(2) by simp
    moreover have "fst (min_by fst k ks') \<le> kr" using min_by_le[of "(kr, r)" k ks' fst] kr ks by auto
    ultimately show ?thesis by (auto simp: less_eq_prod_def)
  qed
  then have "fair (charge (priority ?best) ?b vf1) (set ?b)"
    using charge_fair[OF _ best, of ?b] W(1) by simp
  then have "fair (charge (priority ?best) ?b vf1) (priority ` set (remove1 ?best pool))"
    by (rule fair_subset) (auto dest: notin_set_remove1 set_remove1_subset[THEN subsetD])
  from Suc.IH[OF this rec] show ?case by (simp add: ch)
qed

section \<open>One admission of the weighted fair queue\<close>

lemma wfq_keys_table:
  assumes "wfq_keys b rs vf = (ks, vf')" "(k, r) \<in> set ks"
  shows "dict_get vf' (priority r) = Some (fst k) \<and> snd k = arrival_ts r"
  using assms
proof (induction rs arbitrary: vf ks vf')
  case (Cons r' rs)
  obtain v vf1 where 1: "virtual_finish_time (priority r') b vf = (v, vf1)" by force
  obtain ks2 vf2 where 2: "wfq_keys b rs vf1 = (ks2, vf2)" by force
  have e: "ks = ((v, arrival_ts r'), r') # ks2" "vf' = vf2" using Cons.prems(1) 1 2 by auto
  have "dict_get vf2 (priority r') = Some v" by (rule wfq_keys_mono[OF 2 vft_known(1)[OF 1]])
  then show ?case using Cons.IH[OF 2] Cons.prems(2) e by auto
qed simp

text \<open>The first pick, the finish times \<open>vf1\<close> it compares, and how the loop goes on.\<close>

lemma wfq_loop_Suc:
  assumes "wfq_loop (Suc n) pool vf = Inr (chosen, vf')"
  obtains best chosen' vf1 where "chosen = best # chosen'" "best \<in> set pool"
    "\<And>c v. dict_get vf c = Some v \<Longrightarrow> dict_get vf1 c = Some v"
    "\<And>r. r \<in> set pool \<Longrightarrow> \<exists>v w. dict_get vf1 (priority best) = Some v \<and> dict_get vf1 (priority r) = Some w
        \<and> (v, arrival_ts best) \<le> (w, arrival_ts r)"
    "wfq_loop n (remove1 best pool) (charge (priority best) (remdups (map priority pool)) vf1) = Inr (chosen', vf')"
proof -
  let ?b = "remdups (map priority pool)"
  obtain ks vf1 where k: "wfq_keys ?b pool vf = (ks, vf1)" by force
  with assms obtain k ks' where ks: "ks = k # ks'" by (cases ks) auto
  let ?m = "min_by fst k ks'"
  have m: "?m \<in> set ks" using min_by_in[of fst k ks'] ks by auto
  have le: "\<exists>v w. dict_get vf1 (priority (snd ?m)) = Some v \<and> dict_get vf1 (priority r) = Some w
        \<and> (v, arrival_ts (snd ?m)) \<le> (w, arrival_ts r)" if "r \<in> set pool" for r
  proof -
    from that obtain kr where kr: "(kr, r) \<in> set ks"
      using wfq_keys_requests[OF k] by (metis imageE list.set_map prod.collapse)
    have "fst ?m \<le> kr" using min_by_le[of "(kr, r)" k ks' fst] kr ks by auto
    moreover have "(fst ?m, snd ?m) \<in> set ks" using m by simp
    ultimately show ?thesis using wfq_keys_table[OF k kr] wfq_keys_table[OF k, of "fst ?m" "snd ?m"]
      by (metis prod.collapse)
  qed
  from assms k ks obtain chosen' where
    "wfq_loop n (remove1 (snd ?m) pool) (charge (priority (snd ?m)) ?b vf1) = Inr (chosen', vf')"
    "chosen = snd ?m # chosen'" by (auto simp: Let_def res_bind_eq_Inr)
  moreover have "snd ?m \<in> set pool" using m wfq_keys_requests[OF k] by (metis imageI list.set_map)
  ultimately show thesis using that le wfq_keys_mono[OF k] by blast
qed

lemma charge_known:
  assumes "dict_get vf c = Some v"
  shows "dict_get (charge c b vf) d = (if d = c then Some (fadd v (step_of c)) else dict_get vf d)"
  using assms by (simp add: charge_def virtual_finish_time_def step_of_def)

section \<open>Properties\<close>

text \<open>Requests for the concrete instances below.\<close>

abbreviation demo_request :: "string \<Rightarrow> int \<Rightarrow> float64 \<Rightarrow> pending_request" where
  "demo_request i p a \<equiv> \<lparr>req_id = i, prompt_tokens = [1], max_tokens = 4, priority = p, arrival_ts = a\<rparr>"



text \<open>
  FIFO admits in order of arrival: the admitted requests are sorted by arrival time and none of
  those left behind arrived before an admitted one.
\<close>

theorem fifo_in_arrival_order:
  assumes "0 \<le> cap"
  shows "sorted (map arrival_ts (fifo_select ws cap))
     \<and> (\<forall>r \<in> set (fifo_select ws cap). \<forall>r' \<in> set ws - set (fifo_select ws cap). arrival_ts r \<le> arrival_ts r')"
proof -
  have "sorted (map arrival_ts (take (nat cap) (sort_key arrival_ts ws)))"
    by (simp flip: take_map add: sorted_wrt_take)
  with fifo_order[OF assms] assms show ?thesis by (auto simp: fifo_select_def)
qed

theorem fifo_in_arrival_order_witness:
  "arrival_ts (demo_request ''b'' 1 0) \<le> arrival_ts (demo_request ''a'' 1 5)
     \<and> fifo_select [demo_request ''a'' 1 5, demo_request ''b'' 1 0] 1 = [demo_request ''b'' 1 0]"
  using fifo_in_arrival_order[of 1 "[demo_request ''a'' 1 5, demo_request ''b'' 1 0]"]
  by (simp add: fifo_select_def)







end
