(* ===== verification/Utf8.thy ===== *)
theory Utf8
  imports TS_Prelude
begin

text \<open>
  The incremental UTF-8 decoder the stream manager uses,
  \<^verbatim>\<open>codecs.getincrementaldecoder("utf-8")("replace")\<close>, a part of Python's standard library.
  \<open>utf8_step\<close> decides what the first bytes of the input are: a code point, a malformed sequence
  (replaced as a whole by U+FFFD, at the longest valid prefix), or a valid prefix that needs more
  input. \<open>utf8_decode\<close> iterates it and returns the text and the bytes to keep for the next call.

  Two facts carry the stream proofs: decoding in pieces is decoding the concatenation
  (\<open>utf8_decode_append\<close>), and decoding undoes encoding (\<open>utf8_roundtrip\<close>).
\<close>

datatype utf8_token = Emit nat nat | Bad nat | More

definition REPLACEMENT :: nat where
  "REPLACEMENT = 65533"

definition is_cont :: "nat \<Rightarrow> bool" where
  "is_cont b \<longleftrightarrow> 128 \<le> b \<and> b < 192"

text \<open>Second bytes: no overlong forms, no surrogates, nothing above U+10FFFF.\<close>

definition ok_second3 :: "nat \<Rightarrow> nat \<Rightarrow> bool" where
  "ok_second3 b0 b1 \<longleftrightarrow> is_cont b1 \<and> (b0 = 224 \<longrightarrow> 160 \<le> b1) \<and> (b0 = 237 \<longrightarrow> b1 < 160)"

definition ok_second4 :: "nat \<Rightarrow> nat \<Rightarrow> bool" where
  "ok_second4 b0 b1 \<longleftrightarrow> is_cont b1 \<and> (b0 = 240 \<longrightarrow> 144 \<le> b1) \<and> (b0 = 244 \<longrightarrow> b1 < 144)"

fun step2 :: "nat \<Rightarrow> bytes \<Rightarrow> utf8_token" where
  "step2 b0 [] = More"
| "step2 b0 (b1 # _) = (if is_cont b1 then Emit ((b0 - 192) * 64 + (b1 - 128)) 2 else Bad 1)"

fun step3 :: "nat \<Rightarrow> bytes \<Rightarrow> utf8_token" where
  "step3 b0 [] = More"
| "step3 b0 [b1] = (if ok_second3 b0 b1 then More else Bad 1)"
| "step3 b0 (b1 # b2 # _) =
     (if \<not> ok_second3 b0 b1 then Bad 1
      else if \<not> is_cont b2 then Bad 2
      else Emit ((b0 - 224) * 4096 + (b1 - 128) * 64 + (b2 - 128)) 3)"

fun step4 :: "nat \<Rightarrow> bytes \<Rightarrow> utf8_token" where
  "step4 b0 [] = More"
| "step4 b0 [b1] = (if ok_second4 b0 b1 then More else Bad 1)"
| "step4 b0 [b1, b2] = (if \<not> ok_second4 b0 b1 then Bad 1 else if is_cont b2 then More else Bad 2)"
| "step4 b0 (b1 # b2 # b3 # _) =
     (if \<not> ok_second4 b0 b1 then Bad 1
      else if \<not> is_cont b2 then Bad 2
      else if \<not> is_cont b3 then Bad 3
      else Emit ((b0 - 240) * 262144 + (b1 - 128) * 4096 + (b2 - 128) * 64 + (b3 - 128)) 4)"

fun utf8_step :: "bytes \<Rightarrow> utf8_token" where
  "utf8_step [] = More"
| "utf8_step (b0 # bs) =
     (if b0 < 128 then Emit b0 1
      else if 194 \<le> b0 \<and> b0 < 224 then step2 b0 bs
      else if 224 \<le> b0 \<and> b0 < 240 then step3 b0 bs
      else if 240 \<le> b0 \<and> b0 < 245 then step4 b0 bs
      else Bad 1)"

text \<open>A step consumes at least one byte, and what it decides does not depend on later bytes.\<close>

lemma step2_cases: "step2 b0 bs = Emit c n \<or> step2 b0 bs = Bad n \<Longrightarrow> 0 < n \<and> n \<le> Suc (length bs)"
  by (cases "(b0, bs)" rule: step2.cases) (auto split: if_splits)

lemma step3_cases: "step3 b0 bs = Emit c n \<or> step3 b0 bs = Bad n \<Longrightarrow> 0 < n \<and> n \<le> Suc (length bs)"
  by (cases "(b0, bs)" rule: step3.cases) (auto split: if_splits)

lemma step4_cases: "step4 b0 bs = Emit c n \<or> step4 b0 bs = Bad n \<Longrightarrow> 0 < n \<and> n \<le> Suc (length bs)"
  by (cases "(b0, bs)" rule: step4.cases) (auto split: if_splits)

lemma utf8_step_consumes:
  "utf8_step bs = Emit c n \<or> utf8_step bs = Bad n \<Longrightarrow> 0 < n \<and> n \<le> length bs"
  using step2_cases step3_cases step4_cases
  by (cases bs) (fastforce split: if_splits)+

lemma step2_append: "step2 b0 bs \<noteq> More \<Longrightarrow> step2 b0 (bs @ cs) = step2 b0 bs"
  by (cases "(b0, bs)" rule: step2.cases) auto

lemma step3_append: "step3 b0 bs \<noteq> More \<Longrightarrow> step3 b0 (bs @ cs) = step3 b0 bs"
  by (cases "(b0, bs)" rule: step3.cases; cases cs) (auto split: if_splits)

lemma step4_append: "step4 b0 bs \<noteq> More \<Longrightarrow> step4 b0 (bs @ cs) = step4 b0 bs"
  by (cases "(b0, bs)" rule: step4.cases; cases cs; cases "tl cs") (auto split: if_splits)

lemma utf8_step_append: "utf8_step bs \<noteq> More \<Longrightarrow> utf8_step (bs @ cs) = utf8_step bs"
  by (cases bs) (auto simp: step2_append step3_append step4_append)

function utf8_decode :: "bool \<Rightarrow> bytes \<Rightarrow> ustring \<times> bytes" where
  "utf8_decode final bs =
     (if bs = [] then ([], [])
      else case utf8_step bs of
        Emit c n \<Rightarrow> (let (t, r) = utf8_decode final (drop n bs) in (c # t, r))
      | Bad n \<Rightarrow> (let (t, r) = utf8_decode final (drop n bs) in (REPLACEMENT # t, r))
      | More \<Rightarrow> if final then ([REPLACEMENT], []) else ([], bs))"
  by pat_completeness auto
termination
  by (relation "measure (\<lambda>(final, bs). length bs)") (auto dest: utf8_step_consumes[OF disjI1] utf8_step_consumes[OF disjI2])

declare utf8_decode.simps [simp del]

lemma utf8_decode_Nil [simp]: "utf8_decode final [] = ([], [])"
  by (simp add: utf8_decode.simps)

lemma utf8_decode_Emit:
  "utf8_step bs = Emit c n \<Longrightarrow>
   utf8_decode f bs = (c # fst (utf8_decode f (drop n bs)), snd (utf8_decode f (drop n bs)))"
  by (subst utf8_decode.simps) (auto simp: Let_def split: prod.split)

lemma utf8_decode_Bad:
  "utf8_step bs = Bad n \<Longrightarrow>
   utf8_decode f bs = (REPLACEMENT # fst (utf8_decode f (drop n bs)), snd (utf8_decode f (drop n bs)))"
  using utf8_step_consumes[of bs _ n] by (subst utf8_decode.simps) (auto simp: Let_def split: prod.split)

lemma utf8_decode_More:
  "utf8_step bs = More \<Longrightarrow> bs \<noteq> [] \<Longrightarrow> utf8_decode f bs = (if f then ([REPLACEMENT], []) else ([], bs))"
  by (subst utf8_decode.simps) simp

text \<open>Decoding in two pieces, keeping the unconsumed bytes, is decoding the whole.\<close>

lemma utf8_decode_append:
  "utf8_decode f (a @ b) =
     (fst (utf8_decode False a) @ fst (utf8_decode f (snd (utf8_decode False a) @ b)),
      snd (utf8_decode f (snd (utf8_decode False a) @ b)))"
proof (induction "length a" arbitrary: a rule: less_induct)
  case less
  show ?case
  proof (cases "utf8_step a")
    case (Emit c n)
    have n: "0 < n" "n \<le> length a" using utf8_step_consumes[of a c n] Emit by auto
    have "utf8_step (a @ b) = Emit c n" using utf8_step_append[of a b] Emit by simp
    with less[of "drop n a"] n show ?thesis
      by (simp add: utf8_decode_Emit[OF Emit] utf8_decode_Emit[of "a @ b" c n])
  next
    case (Bad n)
    have n: "0 < n" "n \<le> length a" using utf8_step_consumes[of a _ n] Bad by auto
    have "utf8_step (a @ b) = Bad n" using utf8_step_append[of a b] Bad by simp
    with less[of "drop n a"] n show ?thesis
      by (simp add: utf8_decode_Bad[OF Bad] utf8_decode_Bad[of "a @ b" n])
  next
    case More
    then show ?thesis by (cases "a = []") (simp_all add: utf8_decode_More)
  qed
qed

section \<open>Encoding\<close>

text \<open>\<open>str.encode("utf-8")\<close> on text without surrogates.\<close>

definition scalar :: "nat \<Rightarrow> bool" where
  "scalar c \<longleftrightarrow> c < 55296 \<or> (57344 \<le> c \<and> c < 1114112)"

definition utf8_char :: "nat \<Rightarrow> bytes" where
  "utf8_char c =
     (if c < 128 then [c]
      else if c < 2048 then [192 + c div 64, 128 + c mod 64]
      else if c < 65536 then [224 + c div 4096, 128 + c div 64 mod 64, 128 + c mod 64]
      else [240 + c div 262144, 128 + c div 4096 mod 64, 128 + c div 64 mod 64, 128 + c mod 64])"

definition utf8_encode :: "ustring \<Rightarrow> bytes" where
  "utf8_encode s = concat (map utf8_char s)"

lemma base64_split:
  "(c::nat) div 64 = c div 4096 * 64 + c div 64 mod 64"
  "c div 4096 = c div 262144 * 64 + c div 4096 mod 64"
proof -
  have "c div 4096 = c div 64 div 64" "c div 262144 = c div 4096 div 64"
    by (simp_all flip: div_mult2_eq)
  then show "c div 64 = c div 4096 * 64 + c div 64 mod 64"
    "c div 4096 = c div 262144 * 64 + c div 4096 mod 64"
    by (simp_all only: div_mult_mod_eq)
qed

lemma utf8_step_char:
  assumes "scalar c"
  shows "utf8_step (utf8_char c @ bs) = Emit c (length (utf8_char c))"
proof -
  consider "c < 128" | "128 \<le> c" "c < 2048" | "2048 \<le> c" "c < 65536" | "65536 \<le> c" "c < 1114112"
    using assms unfolding scalar_def by linarith
  then show ?thesis
  proof cases
    case 2
    then have "194 \<le> 192 + c div 64" "192 + c div 64 < 224" by auto
    then show ?thesis using 2 by (simp add: utf8_char_def is_cont_def)
  next
    case 3
    let ?a = "c div 4096" and ?b = "c div 64 mod 64" and ?c = "c mod 64"
    have q: "c div 64 = ?a * 64 + ?b" by (rule base64_split)
    have c: "c = ?a * 4096 + ?b * 64 + ?c" using q div_mult_mod_eq[of c 64] by linarith
    have lt: "?b < 64" "?c < 64" by auto
    have "?a < 16" using 3 by auto
    moreover have "?a = 0 \<longrightarrow> 32 \<le> ?b" using 3 c lt by linarith
    moreover have "?a = 13 \<longrightarrow> ?b < 32" using 3 c lt assms unfolding scalar_def by linarith
    ultimately show ?thesis using 3 c by (simp add: utf8_char_def is_cont_def ok_second3_def)
  next
    case 4
    let ?a = "c div 262144" and ?b = "c div 4096 mod 64" and ?c = "c div 64 mod 64" and ?d = "c mod 64"
    have q: "c div 64 = c div 4096 * 64 + ?c" "c div 4096 = ?a * 64 + ?b" by (rule base64_split)+
    have c: "c = ?a * 262144 + ?b * 4096 + ?c * 64 + ?d" using q div_mult_mod_eq[of c 64] by linarith
    have lt: "?b < 64" "?c < 64" "?d < 64" by auto
    have "?a < 5" using 4 by auto
    moreover have "?a = 0 \<longrightarrow> 16 \<le> ?b" using 4 c lt by linarith
    moreover have "?a = 4 \<longrightarrow> ?b < 16" using 4 c lt by linarith
    ultimately show ?thesis using 4 c by (simp add: utf8_char_def is_cont_def ok_second4_def)
  qed (simp add: utf8_char_def)
qed

lemma utf8_roundtrip:
  assumes "list_all scalar s"
  shows "utf8_decode f (utf8_encode s) = (s, [])"
  using assms
proof (induction s)
  case (Cons c s)
  then show ?case
    using utf8_step_char[of c "utf8_encode s"] by (simp add: utf8_encode_def utf8_decode_Emit)
qed (simp add: utf8_encode_def)

text \<open>What is decoded is Unicode text: no surrogates, nothing above U+10FFFF.\<close>

lemma step3_scalar:
  assumes "step3 b0 bs = Emit c n" "224 \<le> b0" "b0 < 240"
  shows "scalar c"
proof -
  from assms(1) obtain b1 b2 bs' where "bs = b1 # b2 # bs'" "ok_second3 b0 b1" "is_cont b2"
    "c = (b0 - 224) * 4096 + (b1 - 128) * 64 + (b2 - 128)"
    by (cases "(b0, bs)" rule: step3.cases) (auto split: if_splits)
  moreover have "b0 = 237 \<or> b0 < 237 \<or> 237 < b0" by linarith
  ultimately show ?thesis using assms(2,3) unfolding ok_second3_def is_cont_def scalar_def by linarith
qed

lemma step4_scalar:
  assumes "step4 b0 bs = Emit c n" "240 \<le> b0" "b0 < 245"
  shows "scalar c"
proof -
  from assms(1) obtain b1 b2 b3 bs' where "bs = b1 # b2 # b3 # bs'" "ok_second4 b0 b1" "is_cont b2" "is_cont b3"
    "c = (b0 - 240) * 262144 + (b1 - 128) * 4096 + (b2 - 128) * 64 + (b3 - 128)"
    by (cases "(b0, bs)" rule: step4.cases) (auto split: if_splits)
  moreover have "b0 = 240 \<or> b0 = 244 \<or> (240 < b0 \<and> b0 < 244)" using assms(2,3) by linarith
  ultimately show ?thesis unfolding ok_second4_def is_cont_def scalar_def by linarith
qed

lemma utf8_step_scalar: "utf8_step bs = Emit c n \<Longrightarrow> scalar c"
proof (cases bs)
  case (Cons b0 bs')
  assume "utf8_step bs = Emit c n"
  moreover have "step2 b0 bs' = Emit c n \<Longrightarrow> b0 < 224 \<Longrightarrow> scalar c"
    by (cases bs') (auto simp: is_cont_def scalar_def split: if_splits)
  ultimately show ?thesis using Cons step3_scalar[of b0 bs' c n] step4_scalar[of b0 bs' c n]
    by (auto simp: scalar_def split: if_splits)
qed simp

lemma utf8_decode_scalar: "list_all scalar (fst (utf8_decode f bs))"
proof (induction "length bs" arbitrary: bs rule: less_induct)
  case less
  show ?case
  proof (cases "utf8_step bs")
    case (Emit c n)
    then have "length (drop n bs) < length bs" using utf8_step_consumes[OF disjI1[OF Emit]] by auto
    from less[OF this] utf8_step_scalar[OF Emit] show ?thesis by (simp add: utf8_decode_Emit[OF Emit])
  next
    case (Bad n)
    then have "length (drop n bs) < length bs" using utf8_step_consumes[OF disjI2[OF Bad]] by auto
    from less[OF this] show ?thesis by (simp add: utf8_decode_Bad[OF Bad] scalar_def REPLACEMENT_def)
  next
    case More
    then show ?thesis by (cases "bs = []") (simp_all add: utf8_decode_More scalar_def REPLACEMENT_def)
  qed
qed

end
