(* ===== verification/Stream_Manager.thy ===== *)
theory Stream_Manager
  imports Utf8
begin

text \<open>
  The per-request output streams of \<^verbatim>\<open>tinyserve/streaming/stream_manager.py\<close>. A stream is its queue
  of text pieces and end markers, the pending bytes of its incremental decoder and the cancellation
  flag; the manager is the dictionary of streams. \<open>subscribe_step\<close> is one pass of the consumer loop,
  \<open>subscribe_exit\<close> its \<open>finally\<close> clause when the generator is closed from outside.

  The central fact is \<open>stream_delivers\<close>: whatever way the token bytes are cut, the texts a stream
  queues spell the decoding of all bytes together, none of them is empty, and one end marker closes.
\<close>

datatype stream_item = Text ustring | EndOfStream

record stream =
  out_queue :: "stream_item list"
  decoder_buffer :: bytes
  cancelled :: bool

type_synonym stream_manager = "(string, stream) dict"

definition new_stream :: stream where
  "new_stream = \<lparr>out_queue = [], decoder_buffer = [], cancelled = False\<rparr>"

text \<open>\<open>IncrementalDecoder.decode\<close>: the bytes it keeps are the stream's buffer.\<close>

definition decoder_decode :: "bytes \<Rightarrow> bool \<Rightarrow> stream \<Rightarrow> ustring \<times> stream" where
  "decoder_decode input final st =
     (case utf8_decode final (decoder_buffer st @ input) of (t, r) \<Rightarrow> (t, st\<lparr>decoder_buffer := r\<rparr>))"

definition put_nowait :: "stream_item \<Rightarrow> stream \<Rightarrow> stream" where
  "put_nowait x st = st\<lparr>out_queue := out_queue st @ [x]\<rparr>"

definition stream_create :: "string \<Rightarrow> stream_manager \<Rightarrow> stream_manager" where
  "stream_create rid m = dict_set rid new_stream m"

text \<open>The effect of \<open>push_token\<close> and \<open>close\<close> on the stream object.\<close>

definition push_stream :: "bytes \<Rightarrow> stream \<Rightarrow> stream" where
  "push_stream token_bytes st =
     (let (t, st1) = decoder_decode token_bytes False st
      in if t \<noteq> [] then put_nowait (Text t) st1 else st1)"

definition close_stream :: "stream \<Rightarrow> stream" where
  "close_stream st =
     (let (tail, st1) = decoder_decode [] True st;
          st2 = (if tail \<noteq> [] then put_nowait (Text tail) st1 else st1)
      in put_nowait EndOfStream st2)"

definition push_token :: "string \<Rightarrow> bytes \<Rightarrow> stream_manager \<Rightarrow> stream_manager" where
  "push_token rid token_bytes m =
     (case dict_get m rid of None \<Rightarrow> m | Some st \<Rightarrow> dict_set rid (push_stream token_bytes st) m)"

definition stream_close :: "string \<Rightarrow> stream_manager \<Rightarrow> stream_manager" where
  "stream_close rid m =
     (case dict_get m rid of None \<Rightarrow> m | Some st \<Rightarrow> dict_set rid (close_stream st) m)"

definition cancel :: "string \<Rightarrow> stream_manager \<Rightarrow> stream_manager" where
  "cancel rid m =
     (case dict_get m rid of None \<Rightarrow> m | Some st \<Rightarrow> dict_set rid (st\<lparr>cancelled := True\<rparr>) m)"

definition is_cancelled :: "string \<Rightarrow> stream_manager \<Rightarrow> bool" where
  "is_cancelled rid m = (case dict_get m rid of None \<Rightarrow> True | Some st \<Rightarrow> cancelled st)"

text \<open>
  A character whose bytes are spread over two tokens is one text, so a client that counts texts counts fewer than
  the tokens generated.
\<close>

lemma split_character_is_one_text:
  "out_queue (push_stream [169] (push_stream [195] new_stream)) = [Text [233]]"
  by (simp add: push_stream_def decoder_decode_def put_nowait_def new_stream_def utf8_decode.simps is_cont_def)

datatype consumer = Blocked | Yield ustring | Stop

definition subscribe_exit :: "string \<Rightarrow> stream_manager \<Rightarrow> stream_manager" where
  "subscribe_exit rid m = dict_del rid m"

definition subscribe_step :: "string \<Rightarrow> stream_manager \<Rightarrow> (consumer \<times> stream_manager) res" where
  "subscribe_step rid m =
     (case dict_get m rid of
        None \<Rightarrow> Inl KeyError
      | Some st \<Rightarrow>
          (case out_queue st of
             [] \<Rightarrow> Inr (Blocked, m)
           | Text t # q \<Rightarrow> Inr (Yield t, dict_set rid (st\<lparr>out_queue := q\<rparr>) m)
           | EndOfStream # q \<Rightarrow> Inr (Stop, subscribe_exit rid (dict_set rid (st\<lparr>out_queue := q\<rparr>) m))))"

section \<open>What a stream delivers\<close>

fun texts :: "stream_item list \<Rightarrow> ustring" where
  "texts [] = []"
| "texts (Text t # q) = t @ texts q"
| "texts (EndOfStream # q) = texts q"

lemma texts_append [simp]: "texts (p @ q) = texts p @ texts q"
  by (induction p rule: texts.induct) auto

text \<open>
  \<open>stream_ok\<close> relates an open stream to the bytes pushed so far: its queue (with what the consumer
  already took, \<open>taken\<close>) spells their decoding, and its buffer is what is left undecoded.
\<close>

definition stream_ok :: "ustring \<Rightarrow> bytes \<Rightarrow> stream \<Rightarrow> bool" where
  "stream_ok seen bs st \<longleftrightarrow>
     seen @ texts (out_queue st) = fst (utf8_decode False bs)
     \<and> decoder_buffer st = snd (utf8_decode False bs)
     \<and> (\<forall>x \<in> set (out_queue st). \<exists>t. x = Text t \<and> t \<noteq> [])"

lemma new_stream_ok: "stream_ok [] [] new_stream"
  by (simp add: stream_ok_def new_stream_def)

lemma push_stream_ok: "stream_ok seen bs st \<Longrightarrow> stream_ok seen (bs @ tb) (push_stream tb st)"
  by (auto simp: stream_ok_def push_stream_def decoder_decode_def put_nowait_def Let_def
      utf8_decode_append[of False bs tb] simp flip: append_assoc split: prod.split)

lemma fold_push_ok:
  "stream_ok seen bs st \<Longrightarrow> stream_ok seen (bs @ concat chunks) (fold push_stream chunks st)"
proof (induction chunks arbitrary: bs st)
  case (Cons tb chunks)
  from Cons.IH[OF push_stream_ok[OF Cons.prems, of tb]] show ?case by simp
qed simp

lemma close_stream_queue:
  assumes "stream_ok seen bs st"
  shows "\<exists>q. out_queue (close_stream st) = q @ [EndOfStream]
     \<and> seen @ texts q = fst (utf8_decode True bs) \<and> (\<forall>x \<in> set q. \<exists>t. x = Text t \<and> t \<noteq> [])"
proof -
  let ?t = "fst (utf8_decode True (decoder_buffer st))"
  have eq: "fst (utf8_decode True bs) = fst (utf8_decode False bs) @ ?t"
    using utf8_decode_append[of True bs "[]"] assms by (simp add: stream_ok_def)
  show ?thesis
  proof (cases "?t = []")
    case True
    with assms eq show ?thesis
      by (intro exI[of _ "out_queue st"])
        (auto simp: stream_ok_def close_stream_def decoder_decode_def put_nowait_def Let_def split: prod.split)
  next
    case False
    with assms eq show ?thesis
      by (intro exI[of _ "out_queue st @ [Text ?t]"])
        (auto simp: stream_ok_def close_stream_def decoder_decode_def put_nowait_def Let_def simp flip: append_assoc split: prod.split)
  qed
qed

lemma stream_delivers:
  "\<exists>q. out_queue (close_stream (fold push_stream chunks new_stream)) = q @ [EndOfStream]
     \<and> texts q = fst (utf8_decode True (concat chunks)) \<and> (\<forall>x \<in> set q. \<exists>t. x = Text t \<and> t \<noteq> [])"
  using close_stream_queue[OF fold_push_ok[OF new_stream_ok, of chunks]] by simp

section \<open>Frame facts\<close>

lemma dict_wf_streams:
  assumes "dict_wf m"
  shows "dict_wf (stream_create r m)" "dict_wf (push_token r tb m)" "dict_wf (stream_close r m)"
    "dict_wf (cancel r m)" "dict_wf (subscribe_exit r m)"
  using assms by (auto simp: stream_create_def push_token_def stream_close_def cancel_def
      subscribe_exit_def split: option.splits)

lemma streams_other:
  assumes "r' \<noteq> r"
  shows "dict_get (stream_create r m) r' = dict_get m r'" "dict_get (push_token r tb m) r' = dict_get m r'"
    "dict_get (stream_close r m) r' = dict_get m r'" "dict_get (cancel r m) r' = dict_get m r'"
    "dict_get (subscribe_exit r m) r' = dict_get m r'"
  using assms by (auto simp: stream_create_def push_token_def stream_close_def cancel_def
      subscribe_exit_def dict_get_del split: option.splits)

text \<open>Cancellation only ever moves from false to true, and a missing stream counts as cancelled.\<close>

lemma push_stream_cancelled [simp]: "cancelled (push_stream tb st) = cancelled st"
  by (auto simp: push_stream_def decoder_decode_def put_nowait_def Let_def split: prod.split)

lemma close_stream_cancelled [simp]: "cancelled (close_stream st) = cancelled st"
  by (auto simp: close_stream_def decoder_decode_def put_nowait_def Let_def split: prod.split)

lemma cancelled_monotone:
  assumes "is_cancelled r m"
  shows "is_cancelled r (push_token r' tb m)" "is_cancelled r (stream_close r' m)" "is_cancelled r (cancel r' m)"
    "is_cancelled r (subscribe_exit r' m)"
  using assms by (auto simp: is_cancelled_def push_token_def stream_close_def cancel_def subscribe_exit_def
      dict_get_del split: option.splits if_splits)

lemma cancel_cancels: "is_cancelled r (cancel r m)"
  by (auto simp: is_cancelled_def cancel_def split: option.splits)

section \<open>Properties\<close>

text \<open>
  C29. Round trip. If the pieces are the UTF-8 encoding of a text, cut anywhere, also inside a
  character, the consumer reads exactly that text.
\<close>

theorem stream_roundtrip:
  assumes "list_all scalar txt" "concat chunks = utf8_encode txt"
  shows "texts (out_queue (close_stream (fold push_stream chunks new_stream))) = txt"
proof -
  obtain q where "out_queue (close_stream (fold push_stream chunks new_stream)) = q @ [EndOfStream]"
    "texts q = fst (utf8_decode True (utf8_encode txt))" using stream_delivers[of chunks] assms(2) by auto
  with utf8_roundtrip assms(1) show ?thesis by simp
qed

theorem stream_roundtrip_witness:
  "texts (out_queue (close_stream (fold push_stream [[226], [130, 172, 33]] new_stream))) = [8364, 33]"
proof -
  have "concat [[226], [130, 172, 33]] = utf8_encode [8364, 33]" by (simp add: utf8_encode_def utf8_char_def)
  from stream_roundtrip[OF _ this] show ?thesis by (simp add: scalar_def)
qed

text \<open>The consumer side: the items a subscriber takes until it stops, and what it saw.\<close>

fun drain :: "nat \<Rightarrow> string \<Rightarrow> stream_manager \<Rightarrow> (ustring list \<times> bool \<times> stream_manager) res" where
  "drain 0 rid m = Inr ([], False, m)"
| "drain (Suc n) rid m = res_bind (subscribe_step rid m) (\<lambda>(c, m').
     case c of Blocked \<Rightarrow> Inr ([], False, m')
     | Stop \<Rightarrow> Inr ([], True, m')
     | Yield t \<Rightarrow> res_bind (drain n rid m') (\<lambda>(ts, done, m2). Inr (t # ts, done, m2)))"

lemma drain_texts:
  assumes "dict_get m rid = Some st" "out_queue st = q @ [EndOfStream]"
    and "\<forall>x \<in> set q. \<exists>t. x = Text t \<and> t \<noteq> []" "length q < n"
  shows "\<exists>ts m'. drain n rid m = Inr (ts, True, m') \<and> concat ts = texts q \<and> dict_get m' rid = None
     \<and> (\<forall>r. r \<noteq> rid \<longrightarrow> dict_get m' r = dict_get m r)"
  using assms
proof (induction q arbitrary: n m st)
  case Nil
  then obtain k where n: "n = Suc k" by (cases n) auto
  from Nil n show ?case
    by (simp add: subscribe_step_def subscribe_exit_def dict_get_del)
next
  case (Cons x q)
  then obtain k t where n: "n = Suc k" and x: "x = Text t" by (cases n) auto
  let ?st = "st\<lparr>out_queue := q @ [EndOfStream]\<rparr>"
  from Cons.IH[of "dict_set rid ?st m" ?st k] Cons.prems(3,4) n obtain ts m' where
    r: "drain k rid (dict_set rid ?st m) = Inr (ts, True, m')" "concat ts = texts q" "dict_get m' rid = None"
    "\<forall>r. r \<noteq> rid \<longrightarrow> dict_get m' r = dict_get (dict_set rid ?st m) r" by auto
  have "subscribe_step rid m = Inr (Yield t, dict_set rid ?st m)"
    using Cons.prems(1,2) x by (simp add: subscribe_step_def)
  with r n x show ?case by auto
qed

lemma fold_push_token:
  assumes "dict_get m rid = Some st"
  shows "dict_get (fold (push_token rid) chunks m) rid = Some (fold push_stream chunks st)"
    "r \<noteq> rid \<Longrightarrow> dict_get (fold (push_token rid) chunks m) r = dict_get m r"
proof -
  have "dict_get (fold (push_token rid) chunks m) rid = Some (fold push_stream chunks st)
     \<and> (\<forall>r. r \<noteq> rid \<longrightarrow> dict_get (fold (push_token rid) chunks m) r = dict_get m r)"
    using assms
  proof (induction chunks arbitrary: m st)
    case (Cons tb chunks)
    have "dict_get (push_token rid tb m) rid = Some (push_stream tb st)"
      using Cons.prems by (simp add: push_token_def)
    from Cons.IH[OF this] show ?case using streams_other(2)[of _ rid tb m] by auto
  qed simp
  then show "dict_get (fold (push_token rid) chunks m) rid = Some (fold push_stream chunks st)"
    "r \<noteq> rid \<Longrightarrow> dict_get (fold (push_token rid) chunks m) r = dict_get m r" by auto
qed

text \<open>
  C28. End to end through the manager: create a stream, push the token bytes, close it, and let the
  subscriber run. The subscriber terminates without an error, has then seen exactly the decoding of
  all pushed bytes, its stream is gone from the manager, and no other stream has changed.
\<close>

theorem subscriber_sees_everything:
  "\<exists>n ts m'. drain n rid (stream_close rid (fold (push_token rid) chunks (stream_create rid m))) = Inr (ts, True, m')
     \<and> concat ts = fst (utf8_decode True (concat chunks)) \<and> dict_get m' = (dict_get m)(rid := None)"
proof -
  let ?m = "stream_close rid (fold (push_token rid) chunks (stream_create rid m))"
  have c: "dict_get (stream_create rid m) rid = Some new_stream" by (simp add: stream_create_def)
  have st: "dict_get ?m rid = Some (close_stream (fold push_stream chunks new_stream))"
    using fold_push_token(1)[OF c] by (simp add: stream_close_def)
  have other: "dict_get ?m r = dict_get m r" if "r \<noteq> rid" for r
    using that fold_push_token(2)[OF c that] by (simp add: streams_other)
  obtain q where q: "out_queue (close_stream (fold push_stream chunks new_stream)) = q @ [EndOfStream]"
    "texts q = fst (utf8_decode True (concat chunks))" "\<forall>x \<in> set q. \<exists>t. x = Text t \<and> t \<noteq> []"
    using stream_delivers by blast
  from drain_texts[OF st q(1,3) lessI] obtain ts m' where
    "drain (Suc (length q)) rid ?m = Inr (ts, True, m')" "concat ts = texts q" "dict_get m' rid = None"
    "\<forall>r. r \<noteq> rid \<longrightarrow> dict_get m' r = dict_get ?m r" by blast
  with q(2) other show ?thesis by (intro exI[of _ "Suc (length q)"] exI[of _ ts] exI[of _ m']) (simp add: fun_eq_iff)
qed

end
