(* ===== verification/Sse_Stream.thy ===== *)
theory Sse_Stream
  imports Stream_Manager
begin

text \<open>
  Server-sent events. \<open>sse_events_step\<close> is one pass of the loop of \<open>_sse_events\<close> in \<^verbatim>\<open>tinyserve/api/app.py\<close>,
  which wraps every text of a stream into a frame. The other end is the demo client of
  \<^verbatim>\<open>tinyserve/api/static/demo.html\<close>: its read loop cuts the received text at blank lines, whatever
  pieces it arrives in, and \<open>parseFrame\<close> reads the \<open>data:\<close> lines of a frame. The lemmas show that texts
  without a line feed arrive unchanged, and what happens to a text that has one.
\<close>

section \<open>The server side\<close>

datatype sse_out = SseBlocked | SseData ustring | SseEnd | SseCancelled

definition sse_frame :: "ustring \<Rightarrow> ustring" where
  "sse_frame t = [100, 97, 116, 97, 58, 32] @ t @ [10, 10]"

text \<open>
  \<open>gone\<close> is the answer of \<open>is_disconnected()\<close>, which is asked only after a text has been taken. After a
  cancellation the abandoned generator is finalised later, by the event loop (\<open>subscribe_exit\<close>).
\<close>

definition sse_events_step :: "string \<Rightarrow> bool \<Rightarrow> stream_manager \<Rightarrow> (sse_out \<times> stream_manager) res" where
  "sse_events_step rid gone m =
     res_bind (subscribe_step rid m) (\<lambda>(c, m').
       case c of
         Blocked \<Rightarrow> Inr (SseBlocked, m')
       | Stop \<Rightarrow> Inr (SseEnd, m')
       | Yield t \<Rightarrow> if gone then Inr (SseCancelled, cancel rid m') else Inr (SseData (sse_frame t), m'))"

section \<open>The demo client\<close>

text \<open>\<open>raw.split("\n")\<close>.\<close>

fun split_lines :: "ustring \<Rightarrow> ustring list" where
  "split_lines [] = [[]]"
| "split_lines (c # s) =
     (if c = 10 then [] # split_lines s
      else (case split_lines s of [] \<Rightarrow> [[c]] | l # ls \<Rightarrow> (c # l) # ls))"

definition data_line :: "ustring \<Rightarrow> ustring" where
  "data_line line =
     (if take 5 line = [100, 97, 116, 97, 58]
      then let v = drop 5 line in if take 1 v = [32] then drop 1 v else v
      else [])"

definition parse_frame :: "ustring \<Rightarrow> ustring" where
  "parse_frame raw = concat (map data_line (split_lines raw))"

text \<open>\<open>buf.indexOf("\n\n")\<close> with the two slices around it.\<close>

fun cut_frame :: "ustring \<Rightarrow> (ustring \<times> ustring) option" where
  "cut_frame (x # y # r) =
     (if x = 10 \<and> y = 10 then Some ([], r) else map_option (\<lambda>(a, b). (x # a, b)) (cut_frame (y # r)))"
| "cut_frame _ = None"

lemma cut_frame_length: "cut_frame s = Some (a, b) \<Longrightarrow> length b < length s"
  by (induction s arbitrary: a rule: cut_frame.induct) (auto split: if_splits intro: less_SucI)

text \<open>The inner loop: the texts of the complete frames, empty ones skipped, and what is left in the buffer.\<close>

function read_frames :: "ustring \<Rightarrow> ustring list \<times> ustring" where
  "read_frames buf =
     (case cut_frame buf of
        None \<Rightarrow> ([], buf)
      | Some (raw, rest) \<Rightarrow>
          (case read_frames rest of (ts, left) \<Rightarrow> ((if parse_frame raw = [] then ts else parse_frame raw # ts), left)))"
  by pat_completeness auto
termination by (relation "measure length") (auto dest: cut_frame_length)

declare read_frames.simps [simp del]

definition client_feed :: "ustring \<Rightarrow> ustring list \<times> ustring \<Rightarrow> ustring list \<times> ustring" where
  "client_feed chunk st =
     (case st of (seen, buf) \<Rightarrow> case read_frames (buf @ chunk) of (ts, left) \<Rightarrow> (seen @ ts, left))"

section \<open>Reading in pieces\<close>

lemma cut_frame_append: "cut_frame s = Some (a, b) \<Longrightarrow> cut_frame (s @ t) = Some (a, b @ t)"
  by (induction s arbitrary: a rule: cut_frame.induct) (auto split: if_splits)

lemma read_frames_append:
  "read_frames (s @ t) = (case read_frames s of (ts, left) \<Rightarrow> case read_frames (left @ t) of (us, left') \<Rightarrow> (ts @ us, left'))"
proof (induction s rule: read_frames.induct)
  case (1 s)
  show ?case
  proof (cases "cut_frame s")
    case None
    then show ?thesis by (simp add: read_frames.simps[of s] split: prod.split)
  next
    case (Some ab)
    obtain a b where ab: "ab = (a, b)" by force
    from 1[OF Some ab[symmetric]] cut_frame_append[OF Some[unfolded ab], of t] Some ab show ?thesis
      by (simp add: read_frames.simps[of s] read_frames.simps[of "s @ t"] split: prod.split)
  qed
qed

lemma fold_client_feed:
  "fold client_feed chunks (seen, buf)
     = (case read_frames buf of (ts0, left) \<Rightarrow> if chunks = [] then (seen, buf)
        else case read_frames (buf @ concat chunks) of (ts, left') \<Rightarrow> (seen @ ts, left'))"
proof (induction chunks arbitrary: seen buf)
  case (Cons c chunks)
  obtain ts left where r: "read_frames (buf @ c) = (ts, left)" by force
  have idem: "read_frames left = ([], left)"
    using read_frames_append[of "buf @ c" "[]"] r by (simp split: prod.splits)
  have "read_frames ((buf @ c) @ concat chunks) = (case read_frames (left @ concat chunks) of (us, left') \<Rightarrow> (ts @ us, left'))"
    using read_frames_append[of "buf @ c" "concat chunks"] r by simp
  then show ?case using Cons.IH[of "seen @ ts" left] r idem
    by (cases "chunks = []") (auto simp: client_feed_def split: prod.splits)
qed (simp split: prod.split)

section \<open>Frames\<close>

lemma split_lines_plain: "10 \<notin> set s \<Longrightarrow> split_lines s = [s]"
  by (induction s) auto

lemma split_lines_newline: "10 \<notin> set a \<Longrightarrow> split_lines (a @ 10 # b) = a # split_lines b"
  by (induction a) auto

lemma parse_frame_plain: "10 \<notin> set t \<Longrightarrow> parse_frame ([100, 97, 116, 97, 58, 32] @ t) = t"
  using split_lines_plain[of "[100, 97, 116, 97, 58, 32] @ t"] by (simp add: parse_frame_def data_line_def)

lemma cut_frame_plain: "10 \<notin> set s \<Longrightarrow> cut_frame (s @ 10 # 10 # r) = Some (s, r)"
proof (induction s)
  case (Cons c s)
  then show ?case by (cases s) auto
qed simp

lemma cut_frame_newline:
  assumes "10 \<notin> set a" "b \<noteq> []" "10 \<notin> set b"
  shows "cut_frame (a @ 10 # b @ 10 # 10 # r) = Some (a @ 10 # b, r)"
  using assms
proof (induction a)
  case Nil
  then obtain x b' where "b = x # b'" by (cases b) auto
  with Nil cut_frame_plain[of b r] show ?case by simp
next
  case (Cons c a)
  then show ?case by (cases a) auto
qed

lemma read_frames_texts:
  assumes "\<forall>t \<in> set ts. 10 \<notin> set t"
  shows "read_frames (concat (map sse_frame ts)) = (filter (\<lambda>t. t \<noteq> []) ts, [])"
  using assms
proof (induction ts)
  case Nil
  then show ?case by (simp add: read_frames.simps[of "[]"])
next
  case (Cons t ts)
  have "cut_frame (concat (map sse_frame (t # ts))) = Some ([100, 97, 116, 97, 58, 32] @ t, concat (map sse_frame ts))"
    using cut_frame_plain[of "[100, 97, 116, 97, 58, 32] @ t" "concat (map sse_frame ts)"] Cons.prems
    by (simp add: sse_frame_def)
  with Cons parse_frame_plain[of t] show ?case
    by (subst read_frames.simps) (simp split: prod.split)
qed

lemma client_reads_texts:
  assumes "\<forall>t \<in> set ts. 10 \<notin> set t" "concat pieces = concat (map sse_frame ts)"
  shows "fold client_feed pieces ([], []) = (filter (\<lambda>t. t \<noteq> []) ts, [])"
proof (cases "pieces = []")
  case True
  then have "ts = []" using assms(2) by (cases ts) (auto simp: sse_frame_def)
  with True show ?thesis by simp
next
  case False
  with read_frames_texts[of ts] assms show ?thesis by (simp add: fold_client_feed read_frames.simps[of "[]"])
qed

section \<open>Properties\<close>

text \<open>
  Round trip over the wire: texts without a line feed, none of them empty, wrapped into frames and
  received in pieces cut anywhere, are read by the demo client exactly as they were sent.
\<close>

theorem sse_roundtrip:
  assumes "\<forall>t \<in> set ts. t \<noteq> [] \<and> 10 \<notin> set t" "concat chunks = concat (map sse_frame ts)"
  shows "fold client_feed chunks ([], []) = (ts, [])"
proof -
  have "filter (\<lambda>t. t \<noteq> []) ts = ts" using assms(1) by (intro filter_True) auto
  with client_reads_texts[of ts chunks] assms show ?thesis by simp
qed

theorem sse_roundtrip_witness:
  "fold client_feed [[100, 97, 116], [97, 58, 32, 72, 105, 10], [10]] ([], []) = ([[72, 105]], [])"
  using sse_roundtrip[of "[[72, 105]]" "[[100, 97, 116], [97, 58, 32, 72, 105, 10], [10]]"] by (simp add: sse_frame_def)

text \<open>
  C40. A line feed inside a text breaks the framing: of a text with one line feed, the client keeps what
  stands before it and loses what follows, although the frame as a whole was received.
\<close>

theorem sse_newline_truncates:
  assumes "10 \<notin> set a" "a \<noteq> []" "10 \<notin> set b" "b \<noteq> []" "take 5 b \<noteq> [100, 97, 116, 97, 58]"
  shows "fold client_feed [sse_frame (a @ 10 # b)] ([], []) = ([a], [])"
proof -
  let ?h = "[100, 97, 116, 97, 58, 32] @ a"
  have cut: "cut_frame (sse_frame (a @ 10 # b)) = Some (?h @ 10 # b, [])"
    using cut_frame_newline[of ?h b "[]"] assms by (simp add: sse_frame_def)
  have "parse_frame (?h @ 10 # b) = a"
    using split_lines_newline[of ?h b] split_lines_plain[of b] assms
    by (simp add: parse_frame_def data_line_def)
  with cut assms(2) show ?thesis
    by (simp add: client_feed_def read_frames.simps[of "sse_frame (a @ 10 # b)"] read_frames.simps[of "[]"])
qed

theorem sse_newline_truncates_witness:
  "fold client_feed [sse_frame [72, 105, 10, 66, 111, 98]] ([], []) = ([[72, 105]], [])"
  using sse_newline_truncates[of "[72, 105]" "[66, 111, 98]"] by simp

end
