(* ===== verification/Batch_Builder.thy ===== *)
theory Batch_Builder
  imports TS_Prelude
begin

text \<open>
  The batch builder of \<^verbatim>\<open>tinyserve/batch/builder.py\<close>: the pure transformation from in-flight
  sequences to the rows of one \<open>llama_decode\<close> call. \<open>build_batch\<close> sorts the sequences by the length
  of their pending tokens and hands out the capacity in that order (\<open>fill_batch\<close> is its loop).

  The proofs go through \<open>takes\<close>, the list of slice lengths the loop decides on, so that the rows of
  one sequence, the total size, work conservation and the priority of decode steps are facts about
  a list of integers.
\<close>

record active_sequence =
  seq_id :: int
  pending_tokens :: "int list"
  n_past :: int

record batch_row =
  row_seq_id :: int
  row_token :: int
  row_pos :: int
  needs_logits :: bool

type_synonym prepared_batch = "batch_row list"

definition row_count :: "prepared_batch \<Rightarrow> int \<Rightarrow> int" where
  "row_count rows sid = int (length (filter (\<lambda>row. row_seq_id row = sid) rows))"

definition DEFAULT_CHUNK_SIZE :: int where
  "DEFAULT_CHUNK_SIZE = 512"

text \<open>The rows of one slice: \<open>t\<close> is the local \<open>take\<close> of the loop body.\<close>

definition slice_rows :: "active_sequence \<Rightarrow> int \<Rightarrow> batch_row list" where
  "slice_rows seq t =
     (let is_final_slice = (t = int (length (pending_tokens seq))) in
      map (\<lambda>(i, token). \<lparr>row_seq_id = seq_id seq, row_token = token,
             row_pos = n_past seq + int i,
             needs_logits = (is_final_slice \<and> int i = t - 1)\<rparr>)
          (enumerate 0 (py_take t (pending_tokens seq))))"

fun fill_batch :: "int \<Rightarrow> active_sequence list \<Rightarrow> int \<Rightarrow> batch_row list" where
  "fill_batch chunk_size [] remaining = []"
| "fill_batch chunk_size (seq # rest) remaining =
     (if pending_tokens seq = [] \<or> remaining \<le> 0 then fill_batch chunk_size rest remaining
      else let t = min chunk_size (min (int (length (pending_tokens seq))) remaining)
           in slice_rows seq t @ fill_batch chunk_size rest (remaining - t))"

definition build_batch :: "active_sequence list \<Rightarrow> int \<Rightarrow> int \<Rightarrow> prepared_batch" where
  "build_batch active capacity chunk_size =
     fill_batch chunk_size (sort_key (\<lambda>seq. length (pending_tokens seq)) active) capacity"

section \<open>Slice lengths\<close>

text \<open>How many pending tokens the loop takes of each sequence, in loop order.\<close>

fun takes :: "int \<Rightarrow> active_sequence list \<Rightarrow> int \<Rightarrow> int list" where
  "takes c [] r = []"
| "takes c (s # ss) r =
     (let t = (if pending_tokens s = [] \<or> r \<le> 0 then 0
               else min c (min (int (length (pending_tokens s))) r))
      in t # takes c ss (r - t))"

text \<open>What a sequence asks for in one tick.\<close>

abbreviation demand :: "int \<Rightarrow> active_sequence \<Rightarrow> int" where
  "demand c s \<equiv> min c (int (length (pending_tokens s)))"

lemma slice_rows_0 [simp]: "slice_rows s 0 = []"
  by (simp add: slice_rows_def)

lemma length_takes [simp]: "length (takes c ss r) = length ss"
  by (induction ss arbitrary: r) (simp_all add: Let_def)

lemma fill_batch_takes:
  "fill_batch c ss r = concat (map2 slice_rows ss (takes c ss r))"
  by (induction ss arbitrary: r) (auto simp: Let_def)

lemma takes_bounds:
  assumes "0 < c" "(s, t) \<in> set (zip ss (takes c ss r))"
  shows "0 \<le> t" "t \<le> demand c s"
  using assms by (induction ss arbitrary: r) (auto simp: Let_def split: if_splits)

lemma takes_sum:
  assumes "0 < c"
  shows "sum_list (takes c ss r) \<le> max 0 r"
proof (induction ss arbitrary: r)
  case (Cons s ss)
  let ?t = "if pending_tokens s = [] \<or> r \<le> 0 then 0 else min c (min (int (length (pending_tokens s))) r)"
  have "sum_list (takes c ss (r - ?t)) \<le> max 0 (r - ?t)" by (rule Cons.IH)
  then show ?case using assms by (auto simp: Let_def min_def max_def split: if_splits)
qed simp

lemma takes_full:
  assumes "0 < c" "sum_list (map (demand c) ss) \<le> r"
  shows "takes c ss r = map (demand c) ss"
  using assms(2)
proof (induction ss arbitrary: r)
  case (Cons s ss)
  have nn: "0 \<le> sum_list (map (demand c) ss)" using assms(1) by (intro sum_list_nonneg) auto
  show ?case
  proof (cases "pending_tokens s = []")
    case True
    with Cons assms(1) show ?thesis by (simp add: Let_def)
  next
    case False
    then have "0 < demand c s" using assms(1) by (simp add: min_def)
    moreover have "demand c s + sum_list (map (demand c) ss) \<le> r" using Cons.prems by simp
    ultimately have "0 < r" "demand c s \<le> r" "sum_list (map (demand c) ss) \<le> r - demand c s"
      using nn by linarith+
    moreover from this have "min c (min (int (length (pending_tokens s))) r) = demand c s" by linarith
    ultimately show ?thesis using False Cons.IH by (simp add: Let_def)
  qed
qed simp

text \<open>Work conservation: a sequence is cut short only when the capacity is used up.\<close>

lemma takes_work_conserving:
  assumes "0 < c" "0 \<le> r" "(s, t) \<in> set (zip ss (takes c ss r))" "t < demand c s"
  shows "sum_list (takes c ss r) = r"
  using assms(2-4)
proof (induction ss arbitrary: r)
  case (Cons a ss)
  have zero: "sum_list (takes c ss 0) = 0" for ss
    by (induction ss) (simp_all add: Let_def)
  define u where "u = (if pending_tokens a = [] \<or> r \<le> 0 then 0
     else min c (min (int (length (pending_tokens a))) r))"
  have u: "0 \<le> r - u" using Cons.prems(1) by (auto simp: u_def)
  have tk: "takes c (a # ss) r = u # takes c ss (r - u)" by (simp add: u_def Let_def)
  show ?case
  proof (cases "(s, t) \<in> set (zip ss (takes c ss (r - u)))")
    case True
    with Cons.IH[OF u] Cons.prems(3) show ?thesis unfolding tk by simp
  next
    case False
    with Cons.prems(2) tk have "s = a" "t = u" by auto
    with Cons.prems(1,3) assms(1) have "u = r" by (auto simp: u_def split: if_splits)
    then show ?thesis unfolding tk by (simp add: zero)
  qed
qed simp

section \<open>Rows of one sequence\<close>

lemma row_seq_slice_rows: "row \<in> set (slice_rows s t) \<Longrightarrow> row_seq_id row = seq_id s"
  by (auto simp: slice_rows_def Let_def)

lemma filter_slice_rows:
  "filter (\<lambda>row. row_seq_id row = sid) (slice_rows s t) = (if seq_id s = sid then slice_rows s t else [])"
  by (auto simp: filter_empty_conv filter_id_conv dest: row_seq_slice_rows)

lemma length_slice_rows:
  assumes "0 \<le> t" "t \<le> int (length (pending_tokens s))"
  shows "length (slice_rows s t) = nat t"
  using assms by (simp add: slice_rows_def Let_def)

lemma nth_slice_rows:
  assumes "0 \<le> t" "t \<le> int (length (pending_tokens s))" "i < nat t"
  shows "slice_rows s t ! i =
    \<lparr>row_seq_id = seq_id s, row_token = pending_tokens s ! i, row_pos = n_past s + int i,
     needs_logits = (t = int (length (pending_tokens s)) \<and> int i = t - 1)\<rparr>"
  using assms by (simp add: slice_rows_def Let_def nth_enumerate_eq)

lemma filter_concat_slices:
  assumes "distinct (map seq_id ss)" "length ts = length ss" "(s, t) \<in> set (zip ss ts)"
  shows "filter (\<lambda>row. row_seq_id row = seq_id s) (concat (map2 slice_rows ss ts)) = slice_rows s t"
  using assms(2,1,3)
proof (induction ts ss rule: list_induct2)
  case (Cons u ts a ss)
  show ?case
  proof (cases "s = a \<and> t = u")
    case True
    have "seq_id x \<noteq> seq_id s" if "(x, v) \<in> set (zip ss ts)" for x v
      using set_zip_leftD[OF that] True Cons.prems(1) by (auto simp: image_iff)
    then have "filter (\<lambda>row. row_seq_id row = seq_id s) (concat (map2 slice_rows ss ts)) = []"
      by (auto simp: filter_empty_conv dest: row_seq_slice_rows)
    with True show ?thesis by (simp add: filter_slice_rows)
  next
    case False
    with Cons.prems have st: "(s, t) \<in> set (zip ss ts)" by auto
    have "seq_id a \<noteq> seq_id s" using set_zip_leftD[OF st] Cons.prems(1) by (auto simp: image_iff)
    with Cons st show ?thesis by (simp add: filter_slice_rows)
  qed
qed simp

text \<open>
  The slice of a sequence in a batch, and the batch rows seen sequence by sequence: every active
  sequence has one contiguous slice of its pending tokens, at positions from \<open>n_past\<close> on.
\<close>

definition taken :: "active_sequence list \<Rightarrow> int \<Rightarrow> int \<Rightarrow> active_sequence \<Rightarrow> int" where
  "taken active capacity c s = row_count (build_batch active capacity c) (seq_id s)"

lemma build_batch_slice:
  assumes "0 < c" "distinct (map seq_id active)" "s \<in> set active"
  shows "\<exists>t. (s, t) \<in> set (zip (sort_key (\<lambda>q. length (pending_tokens q)) active)
               (takes c (sort_key (\<lambda>q. length (pending_tokens q)) active) capacity))
     \<and> filter (\<lambda>row. row_seq_id row = seq_id s) (build_batch active capacity c) = slice_rows s t
     \<and> 0 \<le> t \<and> t \<le> demand c s \<and> taken active capacity c s = t"
proof -
  let ?ss = "sort_key (\<lambda>q. length (pending_tokens q)) active"
  have "mset (map seq_id ?ss) = mset (map seq_id active)" by simp
  with assms(2) have d: "distinct (map seq_id ?ss)" by (metis mset_eq_imp_distinct_iff)
  have "s \<in> set ?ss" using assms(3) by simp
  then obtain i where i: "i < length ?ss" "?ss ! i = s" by (metis in_set_conv_nth)
  let ?t = "takes c ?ss capacity ! i"
  have st: "(s, ?t) \<in> set (zip ?ss (takes c ?ss capacity))"
    using i by (force simp: set_zip)
  note b = takes_bounds[OF assms(1) st]
  have f: "filter (\<lambda>row. row_seq_id row = seq_id s) (build_batch active capacity c) = slice_rows s ?t"
    unfolding build_batch_def fill_batch_takes by (rule filter_concat_slices[OF d _ st]) simp
  then have "taken active capacity c s = ?t"
    using b by (simp add: taken_def row_count_def length_slice_rows)
  with st f b show ?thesis by blast
qed

lemmas taken_slice = build_batch_slice [THEN exE]

lemma filter_build_batch:
  assumes "0 < c" "distinct (map seq_id active)" "s \<in> set active"
  shows "filter (\<lambda>row. row_seq_id row = seq_id s) (build_batch active capacity c)
           = slice_rows s (taken active capacity c s)"
  using build_batch_slice[OF assms, of capacity] by auto

lemma taken_bounds:
  assumes "0 < c" "distinct (map seq_id active)" "s \<in> set active"
  shows "0 \<le> taken active capacity c s" "taken active capacity c s \<le> demand c s"
    "taken active capacity c s \<le> int (length (pending_tokens s))"
  using build_batch_slice[OF assms, of capacity] by auto

lemma length_build_batch:
  assumes "0 < c"
  shows "int (length (build_batch active capacity c))
           = sum_list (takes c (sort_key (\<lambda>q. length (pending_tokens q)) active) capacity)"
proof -
  have "int (length (concat (map2 slice_rows ss ts))) = sum_list ts"
    if "length ts = length ss" "\<forall>(s, t) \<in> set (zip ss ts). 0 \<le> t \<and> t \<le> int (length (pending_tokens s))" for ss ts
    using that by (induction ts ss rule: list_induct2) (auto simp: length_slice_rows)
  moreover have "\<forall>(s, t) \<in> set (zip ss (takes c ss capacity)). 0 \<le> t \<and> t \<le> int (length (pending_tokens s))" for ss
    using takes_bounds[OF assms] by fastforce
  ultimately show ?thesis unfolding build_batch_def fill_batch_takes by simp
qed

lemma build_batch_capacity:
  assumes "0 < c" "0 \<le> capacity"
  shows "int (length (build_batch active capacity c)) \<le> capacity"
  using takes_sum[OF assms(1), of _ capacity] assms(2)
  by (simp add: length_build_batch[OF assms(1)] max_def split: if_splits)

lemma build_batch_full:
  assumes "0 < c" "distinct (map seq_id active)" "s \<in> set active"
    and "(\<Sum>q\<leftarrow>active. demand c q) \<le> capacity"
  shows "taken active capacity c s = demand c s"
proof -
  let ?ss = "sort_key (\<lambda>q. length (pending_tokens q)) active"
  have "mset (map (demand c) ?ss) = mset (map (demand c) active)" by simp
  then have "sum_list (map (demand c) ?ss) \<le> capacity" using assms(4) by (metis sum_mset_sum_list)
  then have "takes c ?ss capacity = map (demand c) ?ss" using assms(1) by (intro takes_full)
  moreover obtain t where "(s, t) \<in> set (zip ?ss (takes c ?ss capacity))" "taken active capacity c s = t"
    using build_batch_slice[OF assms(1-3), of capacity] by blast
  ultimately show ?thesis by (auto simp: zip_map2 zip_same_conv_map)
qed

lemma build_batch_work_conserving:
  assumes "0 < c" "0 \<le> capacity" "distinct (map seq_id active)" "s \<in> set active"
    and "taken active capacity c s < demand c s"
  shows "int (length (build_batch active capacity c)) = capacity"
proof -
  from build_batch_slice[OF assms(1,3,4), of capacity] assms(5) obtain t where
    "(s, t) \<in> set (zip (sort_key (\<lambda>q. length (pending_tokens q)) active)
       (takes c (sort_key (\<lambda>q. length (pending_tokens q)) active) capacity))" "t < demand c s"
    by auto
  then show ?thesis
    unfolding length_build_batch[OF assms(1)] by (rule takes_work_conserving[OF assms(1,2)])
qed

text \<open>Decode steps, sequences with a single pending token, come first.\<close>

lemma takes_decode_first:
  assumes "0 < c" "sorted (map (\<lambda>q. length (pending_tokens q)) ss)"
    and "int (length (filter (\<lambda>q. length (pending_tokens q) = 1) ss)) \<le> r"
    and "(s, t) \<in> set (zip ss (takes c ss r))" "length (pending_tokens s) = 1"
  shows "t = 1"
  using assms(2-4)
proof (induction ss arbitrary: r)
  case (Cons a ss)
  consider "length (pending_tokens a) = 0" | "length (pending_tokens a) = 1" | "1 < length (pending_tokens a)"
    by linarith
  then show ?case
  proof cases
    case 1
    with Cons assms(5) show ?thesis by (auto simp: Let_def)
  next
    case 2
    then have "pending_tokens a \<noteq> []" by auto
    moreover from 2 Cons.prems(2) have "1 \<le> r" by simp
    moreover from this 2 assms(1) have "min c (min (int (length (pending_tokens a))) r) = 1" by simp
    ultimately have tk: "takes c (a # ss) r = 1 # takes c ss (r - 1)" by (simp add: Let_def)
    have "int (length (filter (\<lambda>q. length (pending_tokens q) = 1) ss)) \<le> r - 1"
      using 2 Cons.prems(2) by simp
    with Cons.IH[of "r - 1"] Cons.prems(1,3) show ?thesis unfolding tk by auto
  next
    case 3
    then have "s \<noteq> a \<and> s \<notin> set ss" using Cons.prems(1) assms(5) by force
    with Cons.prems(3) show ?thesis by (auto simp: Let_def dest: set_zip_leftD)
  qed
qed simp

lemma build_batch_decode_first:
  assumes "0 < c" "distinct (map seq_id active)" "s \<in> set active" "length (pending_tokens s) = 1"
    and "int (length (filter (\<lambda>q. length (pending_tokens q) = 1) active)) \<le> capacity"
  shows "taken active capacity c s = 1"
proof -
  let ?ss = "sort_key (\<lambda>q. length (pending_tokens q)) active"
  obtain t where t: "(s, t) \<in> set (zip ?ss (takes c ?ss capacity))" "taken active capacity c s = t"
    using build_batch_slice[OF assms(1-3), of capacity] by blast
  have "mset (filter (\<lambda>q. length (pending_tokens q) = 1) ?ss)
          = mset (filter (\<lambda>q. length (pending_tokens q) = 1) active)" by simp
  then have "length (filter (\<lambda>q. length (pending_tokens q) = 1) ?ss)
          = length (filter (\<lambda>q. length (pending_tokens q) = 1) active)" by (metis size_mset)
  with takes_decode_first[OF assms(1) _ _ t(1) assms(4)] assms(5) t(2) show ?thesis by simp
qed

section \<open>Properties\<close>

text \<open>
  C26. What a batch holds of each sequence: one contiguous slice of its pending tokens, in order, at
  the positions that follow what is already in the cache; and logits are requested for exactly one
  row, the last one of a slice that reaches the end of the pending tokens, and for no other row.
\<close>

theorem batch_slice_layout:
  assumes "0 < c" "distinct (map seq_id active)" "s \<in> set active"
    and "t = taken active capacity c s"
    and "rows = filter (\<lambda>row. row_seq_id row = seq_id s) (build_batch active capacity c)"
  shows "map row_token rows = take (nat t) (pending_tokens s)
     \<and> map row_pos rows = map (\<lambda>i. n_past s + int i) [0..<nat t]
     \<and> map needs_logits rows = map (\<lambda>i. Suc i = length (pending_tokens s)) [0..<nat t]"
proof -
  note b = taken_bounds[OF assms(1-3), of capacity]
  have rows: "rows = slice_rows s t" using filter_build_batch[OF assms(1-3)] assms(4,5) by simp
  have len: "length rows = nat t" using b assms(4) rows by (simp add: length_slice_rows)
  have nth: "rows ! i = \<lparr>row_seq_id = seq_id s, row_token = pending_tokens s ! i, row_pos = n_past s + int i,
       needs_logits = (t = int (length (pending_tokens s)) \<and> int i = t - 1)\<rparr>" if "i < nat t" for i
    using nth_slice_rows[of t s i] b assms(4) rows that by simp
  have "nat t \<le> length (pending_tokens s)" using b assms(4) by simp
  then show ?thesis using len nth b assms(4) by (auto intro!: nth_equalityI)
qed

theorem batch_slice_layout_witness:
  "map needs_logits (filter (\<lambda>row. row_seq_id row = 5)
     (build_batch [\<lparr>seq_id = 5, pending_tokens = [10, 11, 12], n_past = 4\<rparr>] 8 2)) = [False, False]"
proof -
  let ?s = "\<lparr>seq_id = 5, pending_tokens = [10, 11, 12], n_past = 4\<rparr>"
  have "taken [?s] 8 2 ?s = 2"
    by (simp add: taken_def row_count_def build_batch_def slice_rows_def Let_def)
  with batch_slice_layout[of 2 "[?s]" ?s _ 8, OF _ _ _ refl refl] show ?thesis by (simp add: upt_rec)
qed

text \<open>
  C27. The batch never exceeds the capacity, and it is work-conserving: a sequence gets less than its
  chunk of pending tokens only when the batch is exactly full, so if all chunks fit, all are served.
\<close>

theorem batch_capacity_work_conserving:
  assumes "0 < c" "0 \<le> capacity" "distinct (map seq_id active)" "s \<in> set active"
  shows "int (length (build_batch active capacity c)) \<le> capacity
     \<and> taken active capacity c s \<le> demand c s
     \<and> (taken active capacity c s < demand c s \<longrightarrow> int (length (build_batch active capacity c)) = capacity)
     \<and> ((\<Sum>q\<leftarrow>active. demand c q) \<le> capacity \<longrightarrow> taken active capacity c s = demand c s)"
  using build_batch_capacity[OF assms(1,2)] taken_bounds(2)[OF assms(1,3,4)]
    build_batch_work_conserving[OF assms] build_batch_full[OF assms(1,3,4)] by blast

theorem batch_capacity_work_conserving_witness:
  "int (length (build_batch [\<lparr>seq_id = 0, pending_tokens = [1, 2, 3], n_past = 0\<rparr>,
      \<lparr>seq_id = 1, pending_tokens = [4], n_past = 9\<rparr>] 2 512)) \<le> 2"
  using batch_capacity_work_conserving[of 512 2 "[\<lparr>seq_id = 0, pending_tokens = [1, 2, 3], n_past = 0\<rparr>,
      \<lparr>seq_id = 1, pending_tokens = [4], n_past = 9\<rparr>]" "\<lparr>seq_id = 1, pending_tokens = [4], n_past = 9\<rparr>"]
  by simp

text \<open>
  Decode steps come before prefills: as long as the single-token sequences fit the capacity,
  each of them is in the batch, however long the prompts being prefilled are.
\<close>

theorem decode_steps_first:
  assumes "0 < c" "distinct (map seq_id active)" "s \<in> set active" "length (pending_tokens s) = 1"
    and "int (length (filter (\<lambda>q. length (pending_tokens q) = 1) active)) \<le> capacity"
  shows "\<lparr>row_seq_id = seq_id s, row_token = hd (pending_tokens s), row_pos = n_past s, needs_logits = True\<rparr>
     \<in> set (build_batch active capacity c)"
proof -
  have t: "taken active capacity c s = 1" by (rule build_batch_decode_first[OF assms])
  obtain x where "pending_tokens s = [x]" using assms(4) by (cases "pending_tokens s") auto
  then have "slice_rows s 1
    = [\<lparr>row_seq_id = seq_id s, row_token = hd (pending_tokens s), row_pos = n_past s, needs_logits = True\<rparr>]"
    by (simp add: slice_rows_def)
  moreover have "set (slice_rows s 1) \<subseteq> set (build_batch active capacity c)"
    using filter_build_batch[OF assms(1-3), of capacity] t by (metis filter_is_subset)
  ultimately show ?thesis by simp
qed

theorem decode_steps_first_witness:
  "\<lparr>row_seq_id = 1, row_token = 4, row_pos = 9, needs_logits = True\<rparr>
     \<in> set (build_batch [\<lparr>seq_id = 0, pending_tokens = [1, 2, 3], n_past = 0\<rparr>,
      \<lparr>seq_id = 1, pending_tokens = [4], n_past = 9\<rparr>] 1 512)"
  using decode_steps_first[of 512 "[\<lparr>seq_id = 0, pending_tokens = [1, 2, 3], n_past = 0\<rparr>,
      \<lparr>seq_id = 1, pending_tokens = [4], n_past = 9\<rparr>]" "\<lparr>seq_id = 1, pending_tokens = [4], n_past = 9\<rparr>" 1]
  by simp

end
