(* ===== verification/Llama_Runtime.thy ===== *)
theory Llama_Runtime
  imports Batch_Builder Utf8 TS_Float
begin

text \<open>
  The runtime of \<^verbatim>\<open>tinyserve/runtime/llama_runtime.py\<close>, the only module that calls llama.cpp. The
  library itself is not part of the repository, so its functions are a parameter of every definition
  here: a record \<open>lib\<close> of the calls the class makes, over an abstract type \<open>'m\<close> of context states.

  \<open>llama_ok lib cells lm\<close> collects what the program relies on, as llama.cpp documents it: \<open>cells m s p\<close>
  is the token whose KV cell sequence \<open>s\<close> holds at position \<open>p\<close>, and \<open>lm h\<close> are the logits the model
  computes after the token history \<open>h\<close>. Nothing is assumed about whether \<open>llama_decode\<close> succeeds.
  The staging buffers of \<open>llama_batch_init\<close> are C arrays without bounds checks: a write past the end
  is the error \<open>MemoryFault\<close> of the model.
\<close>

section \<open>The library as a parameter\<close>

record llama_batch =
  b_n_tokens :: nat
  b_token :: "int list"
  b_pos :: "int list"
  b_n_seq_id :: "int list"
  b_seq_id :: "int list"
  b_logits :: "bool list"

record 'm llama_lib =
  lib_tokenize :: "bytes \<Rightarrow> bool \<Rightarrow> int list"
  lib_detokenize :: "int list \<Rightarrow> bytes"
  lib_token_eos :: int
  lib_n_vocab :: nat
  lib_seq_rm :: "int \<Rightarrow> int \<Rightarrow> int \<Rightarrow> 'm \<Rightarrow> 'm"
  lib_seq_cp :: "int \<Rightarrow> int \<Rightarrow> int \<Rightarrow> int \<Rightarrow> 'm \<Rightarrow> 'm"
  lib_seq_pos_max :: "'m \<Rightarrow> int \<Rightarrow> int"
  lib_decode :: "llama_batch \<Rightarrow> 'm \<Rightarrow> int \<times> 'm"
  lib_logits_ith :: "'m \<Rightarrow> nat \<Rightarrow> float64 list"

text \<open>The rows \<open>llama_decode\<close> reads: the first \<open>n_tokens\<close> entries of each array.\<close>

definition batch_rows :: "llama_batch \<Rightarrow> batch_row list" where
  "batch_rows b = map (\<lambda>i. \<lparr>row_seq_id = b_seq_id b ! i, row_token = b_token b ! i,
     row_pos = b_pos b ! i, needs_logits = b_logits b ! i\<rparr>) [0..<b_n_tokens b]"

section \<open>LlamaRuntime\<close>

datatype freed = FreedBatch | FreedContext | FreedModel

record 'm runtime =
  rt_ctx :: 'm
  rt_batch :: llama_batch
  rt_capacity :: int
  rt_eos :: int
  rt_closed :: bool
  rt_freed :: "freed list"

text \<open>
  \<open>__init__\<close>: the batch capacity is \<open>n_ctx\<close>. The arrays start with unspecified contents; zeros here,
  and no row is read before it is written.
\<close>

definition runtime_init :: "'m llama_lib \<Rightarrow> 'm \<Rightarrow> int \<Rightarrow> 'm runtime" where
  "runtime_init lib ctx n_ctx =
     \<lparr>rt_ctx = ctx,
      rt_batch = \<lparr>b_n_tokens = 0, b_token = replicate (nat n_ctx) 0, b_pos = replicate (nat n_ctx) 0,
                  b_n_seq_id = replicate (nat n_ctx) 0, b_seq_id = replicate (nat n_ctx) 0,
                  b_logits = replicate (nat n_ctx) False\<rparr>,
      rt_capacity = n_ctx, rt_eos = lib_token_eos lib, rt_closed = False, rt_freed = []\<rparr>"

definition runtime_close :: "'m runtime \<Rightarrow> 'm runtime" where
  "runtime_close rt =
     (if rt_closed rt then rt
      else rt\<lparr>rt_closed := True, rt_freed := rt_freed rt @ [FreedBatch, FreedContext, FreedModel]\<rparr>)"

text \<open>\<open>with LlamaRuntime(...) as runtime\<close>: what the block does to the runtime is \<open>body\<close>, raised or not.\<close>

definition runtime_enter :: "'m runtime \<Rightarrow> 'm runtime" where
  "runtime_enter rt = rt"

definition runtime_exit :: "'m runtime \<Rightarrow> 'm runtime" where
  "runtime_exit rt = runtime_close rt"

definition with_runtime :: "('m runtime \<Rightarrow> 'a res \<times> 'm runtime) \<Rightarrow> 'm runtime \<Rightarrow> 'a res \<times> 'm runtime" where
  "with_runtime body rt = (case body (runtime_enter rt) of (r, rt') \<Rightarrow> (r, runtime_exit rt'))"

definition batch_capacity :: "'m runtime \<Rightarrow> int" where
  "batch_capacity rt = rt_capacity rt"

definition tokenize :: "'m llama_lib \<Rightarrow> ustring \<Rightarrow> int list res" where
  "tokenize lib prompt =
     (if list_all scalar prompt then Inr (lib_tokenize lib (utf8_encode prompt) True) else Inl ValueError)"

definition detokenize :: "'m llama_lib \<Rightarrow> int list \<Rightarrow> bytes" where
  "detokenize lib tokens = lib_detokenize lib tokens"

definition free_sequence :: "'m llama_lib \<Rightarrow> int \<Rightarrow> 'm runtime \<Rightarrow> 'm runtime" where
  "free_sequence lib sid rt = rt\<lparr>rt_ctx := lib_seq_rm lib sid (-1) (-1) (rt_ctx rt)\<rparr>"

definition reuse_prefix :: "'m llama_lib \<Rightarrow> int \<Rightarrow> int \<Rightarrow> int \<Rightarrow> 'm runtime \<Rightarrow> bool \<times> 'm runtime" where
  "reuse_prefix lib src dst n rt =
     (if n \<le> 0 \<or> src = dst then (False, rt)
      else if lib_seq_pos_max lib (rt_ctx rt) src < n - 1 then (False, rt)
      else (True, rt\<lparr>rt_ctx := lib_seq_cp lib src dst 0 n (rt_ctx rt)\<rparr>))"

text \<open>The staging loop of \<open>_decode_sync\<close>, from row \<open>i\<close> on.\<close>

fun write_rows :: "nat \<Rightarrow> batch_row list \<Rightarrow> llama_batch \<Rightarrow> llama_batch res" where
  "write_rows i [] b = Inr b"
| "write_rows i (row # rows) b =
     (if i < length (b_token b)
      then write_rows (Suc i) rows
             (b\<lparr>b_token := (b_token b)[i := row_token row], b_pos := (b_pos b)[i := row_pos row],
                b_n_seq_id := (b_n_seq_id b)[i := 1], b_seq_id := (b_seq_id b)[i := row_seq_id row],
                b_logits := (b_logits b)[i := needs_logits row]\<rparr>)
      else Inl MemoryFault)"

text \<open>\<open>np.argmax\<close>: the first index of the largest logit; it raises on an empty array.\<close>

definition argmax :: "float64 list \<Rightarrow> int res" where
  "argmax xs = (if xs = [] then Inl ValueError
                else Inr (int (length (takeWhile (\<lambda>x. x < Max (set xs)) xs))))"

definition sample_greedy :: "'m llama_lib \<Rightarrow> 'm \<Rightarrow> nat \<Rightarrow> int res" where
  "sample_greedy lib m i = argmax (lib_logits_ith lib m i)"

fun sample_rows :: "'m llama_lib \<Rightarrow> 'm \<Rightarrow> nat \<Rightarrow> batch_row list \<Rightarrow> (int, int) dict \<Rightarrow> (int, int) dict res" where
  "sample_rows lib m i [] sampled = Inr sampled"
| "sample_rows lib m i (row # rows) sampled =
     (if needs_logits row
      then res_bind (sample_greedy lib m i)
             (\<lambda>t. sample_rows lib m (Suc i) rows (dict_set (row_seq_id row) t sampled))
      else sample_rows lib m (Suc i) rows sampled)"

text \<open>
  \<open>decode\<close> / \<open>_decode_sync\<close>: the context may change even when the call raises, so the new runtime is
  returned beside the result.
\<close>

text \<open>
  \<open>perf_snapshot\<close>. \<open>perf\<close> stands for \<open>llama_perf_context\<close>, with the times in milliseconds as doubles.
\<close>

record perf_data =
  perf_t_p_eval_ms :: float64
  perf_t_eval_ms :: float64
  perf_n_p_eval :: int
  perf_n_eval :: int
  perf_n_reused :: int

definition perf_snapshot :: "('m \<Rightarrow> perf_data) \<Rightarrow> 'm runtime \<Rightarrow> (string, float64) dict" where
  "perf_snapshot perf rt =
     (let data = perf (rt_ctx rt)
      in [(''t_p_eval_ms'', perf_t_p_eval_ms data), (''t_eval_ms'', perf_t_eval_ms data),
          (''n_p_eval'', fl (of_int (perf_n_p_eval data))), (''n_eval'', fl (of_int (perf_n_eval data))),
          (''n_reused'', fl (of_int (perf_n_reused data)))])"

definition decode :: "'m llama_lib \<Rightarrow> prepared_batch \<Rightarrow> 'm runtime \<Rightarrow> (int, int) dict res \<times> 'm runtime" where
  "decode lib rows rt =
     (case write_rows 0 rows ((rt_batch rt)\<lparr>b_n_tokens := length rows\<rparr>) of
        Inl e \<Rightarrow> (Inl e, rt)
      | Inr b \<Rightarrow>
          (case lib_decode lib b (rt_ctx rt) of (return_code, m) \<Rightarrow>
             let rt' = rt\<lparr>rt_batch := b, rt_ctx := m\<rparr> in
             if return_code \<noteq> 0 then (Inl (RuntimeError return_code), rt')
             else (sample_rows lib m 0 rows [], rt')))"

section \<open>What the program relies on\<close>

type_synonym kv_cells = "int \<Rightarrow> int \<Rightarrow> int option"

definition put_row :: "batch_row \<Rightarrow> kv_cells \<Rightarrow> kv_cells" where
  "put_row row c = c(row_seq_id row := (c (row_seq_id row))(row_pos row \<mapsto> row_token row))"

definition history_of :: "kv_cells \<Rightarrow> int \<Rightarrow> int \<Rightarrow> int list" where
  "history_of c s p = map (\<lambda>q. the (c s (int q))) [0..<nat (p + 1)]"

text \<open>Removing a sequence with an open range drops all its cells and no others.\<close>

definition seq_rm_law :: "'m llama_lib \<Rightarrow> ('m \<Rightarrow> kv_cells) \<Rightarrow> bool" where
  "seq_rm_law lib cells \<longleftrightarrow>
     (\<forall>m s. cells (lib_seq_rm lib s (-1) (-1) m) = (cells m)(s := Map.empty))"

text \<open>The largest position of a sequence, \<open>-1\<close> when it is empty.\<close>

definition pos_max_law :: "'m llama_lib \<Rightarrow> ('m \<Rightarrow> kv_cells) \<Rightarrow> bool" where
  "pos_max_law lib cells \<longleftrightarrow>
     (\<forall>m s p. cells m s p \<noteq> None \<longrightarrow> p \<le> lib_seq_pos_max lib m s)
   \<and> (\<forall>m s. lib_seq_pos_max lib m s = -1 \<or> cells m s (lib_seq_pos_max lib m s) \<noteq> None)"

text \<open>Copying a range shares the source's cells with the destination.\<close>

definition seq_cp_law :: "'m llama_lib \<Rightarrow> ('m \<Rightarrow> kv_cells) \<Rightarrow> bool" where
  "seq_cp_law lib cells \<longleftrightarrow>
     (\<forall>m a b n. a \<noteq> b \<longrightarrow> cells (lib_seq_cp lib a b 0 n m)
        = (cells m)(b := (\<lambda>p. if 0 \<le> p \<and> p < n \<and> cells m a p \<noteq> None then cells m a p else cells m b p)))"

text \<open>
  A decode with return code 0 stores the cells of its rows; any decode leaves the sequences that are
  not in the batch alone.
\<close>

definition decode_law :: "'m llama_lib \<Rightarrow> ('m \<Rightarrow> kv_cells) \<Rightarrow> bool" where
  "decode_law lib cells \<longleftrightarrow>
     (\<forall>b m m'. lib_decode lib b m = (0, m') \<longrightarrow> cells m' = fold put_row (batch_rows b) (cells m))
   \<and> (\<forall>b m m' rc s. lib_decode lib b m = (rc, m') \<longrightarrow> s \<notin> row_seq_id ` set (batch_rows b)
        \<longrightarrow> cells m' s = cells m s)"

text \<open>
  The logits of a row depend only on the tokens its own sequence holds up to the row's position: the
  model is causal and sequences do not attend to each other.
\<close>

definition logits_law :: "'m llama_lib \<Rightarrow> ('m \<Rightarrow> kv_cells) \<Rightarrow> (int list \<Rightarrow> float64 list) \<Rightarrow> bool" where
  "logits_law lib cells lm \<longleftrightarrow>
     (\<forall>b m m' i. lib_decode lib b m = (0, m') \<longrightarrow> i < length (batch_rows b)
        \<longrightarrow> needs_logits (batch_rows b ! i) \<longrightarrow> 0 \<le> row_pos (batch_rows b ! i)
        \<longrightarrow> (\<forall>q. 0 \<le> q \<and> q \<le> row_pos (batch_rows b ! i)
               \<longrightarrow> cells m' (row_seq_id (batch_rows b ! i)) q \<noteq> None)
        \<longrightarrow> lib_logits_ith lib m' i
             = lm (history_of (cells m') (row_seq_id (batch_rows b ! i)) (row_pos (batch_rows b ! i))))
   \<and> (\<forall>h. lm h \<noteq> [])"

text \<open>The tokenizer adds a beginning-of-sequence token, so no prompt tokenizes to nothing, and a token is an \<open>int32_t\<close>.\<close>

definition tokenizer_law :: "'m llama_lib \<Rightarrow> bool" where
  "tokenizer_law lib \<longleftrightarrow> (\<forall>bs. (bs \<noteq> [] \<longrightarrow> lib_tokenize lib bs True \<noteq> []) \<and> list_all int32 (lib_tokenize lib bs True))"

definition llama_ok :: "'m llama_lib \<Rightarrow> ('m \<Rightarrow> kv_cells) \<Rightarrow> (int list \<Rightarrow> float64 list) \<Rightarrow> bool" where
  "llama_ok lib cells lm \<longleftrightarrow> seq_rm_law lib cells \<and> pos_max_law lib cells \<and> seq_cp_law lib cells
     \<and> decode_law lib cells \<and> logits_law lib cells lm \<and> tokenizer_law lib"

lemma llama_okD:
  assumes "llama_ok lib cells lm"
  shows "cells (lib_seq_rm lib s (-1) (-1) m) = (cells m)(s := Map.empty)"
    "cells m s p \<noteq> None \<Longrightarrow> p \<le> lib_seq_pos_max lib m s"
    "lib_seq_pos_max lib m s = -1 \<or> cells m s (lib_seq_pos_max lib m s) \<noteq> None"
    "a \<noteq> b \<Longrightarrow> cells (lib_seq_cp lib a b 0 n m)
        = (cells m)(b := (\<lambda>p. if 0 \<le> p \<and> p < n \<and> cells m a p \<noteq> None then cells m a p else cells m b p))"
    "lib_decode lib bt m = (0, m') \<Longrightarrow> cells m' = fold put_row (batch_rows bt) (cells m)"
    "lib_decode lib bt m = (rc, m') \<Longrightarrow> s \<notin> row_seq_id ` set (batch_rows bt) \<Longrightarrow> cells m' s = cells m s"
    "lm h \<noteq> []" "bs \<noteq> [] \<Longrightarrow> lib_tokenize lib bs True \<noteq> []"
    "list_all int32 (lib_tokenize lib bs True)"
proof -
  have L: "seq_rm_law lib cells" "pos_max_law lib cells" "seq_cp_law lib cells" "decode_law lib cells"
    "logits_law lib cells lm" "tokenizer_law lib" using assms by (simp_all add: llama_ok_def)
  show "cells (lib_seq_rm lib s (-1) (-1) m) = (cells m)(s := Map.empty)"
    using L(1) by (simp add: seq_rm_law_def)
  show "cells m s p \<noteq> None \<Longrightarrow> p \<le> lib_seq_pos_max lib m s"
    "lib_seq_pos_max lib m s = -1 \<or> cells m s (lib_seq_pos_max lib m s) \<noteq> None"
    using L(2) unfolding pos_max_law_def by blast+
  show "a \<noteq> b \<Longrightarrow> cells (lib_seq_cp lib a b 0 n m)
        = (cells m)(b := (\<lambda>p. if 0 \<le> p \<and> p < n \<and> cells m a p \<noteq> None then cells m a p else cells m b p))"
    using L(3) unfolding seq_cp_law_def by blast
  show "lib_decode lib bt m = (0, m') \<Longrightarrow> cells m' = fold put_row (batch_rows bt) (cells m)"
    "lib_decode lib bt m = (rc, m') \<Longrightarrow> s \<notin> row_seq_id ` set (batch_rows bt) \<Longrightarrow> cells m' s = cells m s"
    using L(4) unfolding decode_law_def by blast+
  show "lm h \<noteq> []" using L(5) unfolding logits_law_def by blast
  show "bs \<noteq> [] \<Longrightarrow> lib_tokenize lib bs True \<noteq> []" "list_all int32 (lib_tokenize lib bs True)"
    using L(6) unfolding tokenizer_law_def by blast+
qed

lemma llama_ok_logits:
  assumes "llama_ok lib cells lm" "lib_decode lib bt m = (0, m')" "i < length (batch_rows bt)"
    "batch_rows bt ! i = row" "needs_logits row" "0 \<le> row_pos row"
    "\<And>q. 0 \<le> q \<Longrightarrow> q \<le> row_pos row \<Longrightarrow> cells m' (row_seq_id row) q \<noteq> None"
  shows "lib_logits_ith lib m' i = lm (history_of (cells m') (row_seq_id row) (row_pos row))"
proof -
  have "logits_law lib cells lm" using assms(1) by (simp add: llama_ok_def)
  with assms(2-) show ?thesis unfolding logits_law_def by blast
qed

section \<open>Staging\<close>

definition batch_wf :: "nat \<Rightarrow> llama_batch \<Rightarrow> bool" where
  "batch_wf n b \<longleftrightarrow> length (b_token b) = n \<and> length (b_pos b) = n \<and> length (b_n_seq_id b) = n
     \<and> length (b_seq_id b) = n \<and> length (b_logits b) = n"

definition runtime_wf :: "'m runtime \<Rightarrow> bool" where
  "runtime_wf rt \<longleftrightarrow> 0 \<le> rt_capacity rt \<and> batch_wf (nat (rt_capacity rt)) (rt_batch rt)"

lemma runtime_init_wf: "0 \<le> n \<Longrightarrow> runtime_wf (runtime_init lib m n)"
  by (simp add: runtime_wf_def runtime_init_def batch_wf_def)

definition row_at :: "llama_batch \<Rightarrow> nat \<Rightarrow> batch_row" where
  "row_at b i = \<lparr>row_seq_id = b_seq_id b ! i, row_token = b_token b ! i,
     row_pos = b_pos b ! i, needs_logits = b_logits b ! i\<rparr>"

lemma write_rows_ok:
  assumes "batch_wf n b" "i + length rows \<le> n"
  shows "\<exists>b'. write_rows i rows b = Inr b' \<and> batch_wf n b' \<and> b_n_tokens b' = b_n_tokens b
     \<and> (\<forall>j < i. row_at b' j = row_at b j) \<and> (\<forall>j < length rows. row_at b' (i + j) = rows ! j)"
  using assms
proof (induction rows arbitrary: i b)
  case Nil
  then show ?case by simp
next
  case (Cons r rows)
  let ?b = "b\<lparr>b_token := (b_token b)[i := row_token r], b_pos := (b_pos b)[i := row_pos r],
     b_n_seq_id := (b_n_seq_id b)[i := 1], b_seq_id := (b_seq_id b)[i := row_seq_id r],
     b_logits := (b_logits b)[i := needs_logits r]\<rparr>"
  have wf: "batch_wf n ?b" using Cons.prems by (simp add: batch_wf_def)
  from Cons.IH[OF wf, of "Suc i"] Cons.prems(2) obtain b' where b':
    "write_rows (Suc i) rows ?b = Inr b'" "batch_wf n b'" "b_n_tokens b' = b_n_tokens b"
    "\<forall>j < Suc i. row_at b' j = row_at ?b j" "\<forall>j < length rows. row_at b' (Suc i + j) = rows ! j"
    by auto
  have here: "row_at ?b i = r" "j < i \<Longrightarrow> row_at ?b j = row_at b j" for j
    using Cons.prems by (auto simp: row_at_def batch_wf_def)
  have "row_at b' (i + j) = (r # rows) ! j" if "j < length (r # rows)" for j
    using that b'(4,5) here(1) by (cases j) auto
  with b' here Cons.prems show ?case by (intro exI[of _ b']) (simp add: batch_wf_def)
qed

text \<open>A batch within capacity is staged completely, row for row.\<close>

lemma staged_rows:
  assumes "runtime_wf rt" "int (length rows) \<le> rt_capacity rt"
  shows "\<exists>b. write_rows 0 rows ((rt_batch rt)\<lparr>b_n_tokens := length rows\<rparr>) = Inr b
     \<and> batch_wf (nat (rt_capacity rt)) b \<and> batch_rows b = rows"
proof -
  have "batch_wf (nat (rt_capacity rt)) ((rt_batch rt)\<lparr>b_n_tokens := length rows\<rparr>)"
    using assms(1) by (simp add: runtime_wf_def batch_wf_def)
  moreover have "0 + length rows \<le> nat (rt_capacity rt)" using assms(2) by simp
  ultimately obtain b where b:
    "write_rows 0 rows ((rt_batch rt)\<lparr>b_n_tokens := length rows\<rparr>) = Inr b"
    "batch_wf (nat (rt_capacity rt)) b" "b_n_tokens b = length rows" "\<forall>j < length rows. row_at b j = rows ! j"
    using write_rows_ok[of "nat (rt_capacity rt)" "(rt_batch rt)\<lparr>b_n_tokens := length rows\<rparr>" 0 rows] by auto
  have "batch_rows b = map (row_at b) [0..<length rows]" by (simp add: batch_rows_def row_at_def b(3))
  also have "\<dots> = rows" using b(4) by (intro nth_equalityI) simp_all
  finally show ?thesis using b by blast
qed

text \<open>A batch beyond the capacity writes outside the arrays.\<close>

lemma write_rows_overflow:
  "length (b_token b) < i + length rows \<Longrightarrow> i \<le> length (b_token b) \<Longrightarrow> write_rows i rows b = Inl MemoryFault"
  by (induction rows arbitrary: i b) auto

section \<open>Cells after a batch\<close>

lemma fold_put_row_other:
  "s \<notin> row_seq_id ` set rows \<Longrightarrow> fold put_row rows c s = c s"
  by (induction rows arbitrary: c) (auto simp: put_row_def)

lemma fold_put_row_filter:
  "fold put_row rows c s = fold put_row (filter (\<lambda>r. row_seq_id r = s) rows) c s"
proof -
  have "fold put_row rows c s = fold put_row (filter (\<lambda>r. row_seq_id r = s) rows) c' s" if "c s = c' s" for c c'
    using that
  proof (induction rows arbitrary: c c')
    case (Cons r rows)
    have same: "row_seq_id r = s \<Longrightarrow> put_row r c s = put_row r c' s"
      and other: "row_seq_id r \<noteq> s \<Longrightarrow> put_row r c s = c' s"
      using Cons.prems by (auto simp: put_row_def)
    show ?case
    proof (cases "row_seq_id r = s")
      case True
      have "fold put_row rows (put_row r c) s = fold put_row (filter (\<lambda>r. row_seq_id r = s) rows) (put_row r c') s"
        by (rule Cons.IH) (rule same[OF True])
      with True show ?thesis by simp
    next
      case False
      have "fold put_row rows (put_row r c) s = fold put_row (filter (\<lambda>r. row_seq_id r = s) rows) c' s"
        by (rule Cons.IH) (rule other[OF False])
      with False show ?thesis by simp
    qed
  qed simp
  then show ?thesis by blast
qed

lemma fold_put_slice:
  assumes "0 \<le> t" "t \<le> int (length (pending_tokens q))"
  shows "fold put_row (slice_rows q t) c (seq_id q) p =
     (if n_past q \<le> p \<and> p < n_past q + t then Some (pending_tokens q ! nat (p - n_past q))
      else c (seq_id q) p)"
proof -
  have "fold put_row (map (\<lambda>i. \<lparr>row_seq_id = s, row_token = f i, row_pos = n0 + int i, needs_logits = g i\<rparr>) [0..<k]) c s p
     = (if n0 \<le> p \<and> p < n0 + int k then Some (f (nat (p - n0))) else c s p)" for f :: "nat \<Rightarrow> int" and n0 s g k
    by (induction k) (auto simp: put_row_def)
  moreover have "slice_rows q t = map (\<lambda>i. \<lparr>row_seq_id = seq_id q, row_token = pending_tokens q ! i,
      row_pos = n_past q + int i, needs_logits = (t = int (length (pending_tokens q)) \<and> int i = t - 1)\<rparr>) [0..<nat t]"
    using assms by (intro nth_equalityI) (simp_all add: length_slice_rows nth_slice_rows)
  ultimately show ?thesis using assms by simp
qed

text \<open>The prefix copy: on success the destination holds what the donor holds there.\<close>

lemma reuse_prefix_cells:
  assumes ok: "llama_ok lib cells lm" and r: "reuse_prefix lib a b n rt = (True, rt')"
    and empty: "cells (rt_ctx rt) b = Map.empty"
    and contig: "\<And>p. cells (rt_ctx rt) a p \<noteq> None \<Longrightarrow> \<forall>q. 0 \<le> q \<and> q \<le> p \<longrightarrow> cells (rt_ctx rt) a q \<noteq> None"
  shows "0 < n" "a \<noteq> b" "\<forall>q. 0 \<le> q \<and> q < n \<longrightarrow> cells (rt_ctx rt) a q \<noteq> None"
    "cells (rt_ctx rt') = (cells (rt_ctx rt))(b := (\<lambda>p. if 0 \<le> p \<and> p < n then cells (rt_ctx rt) a p else None))"
    "rt' = rt\<lparr>rt_ctx := rt_ctx rt'\<rparr>"
proof -
  from r have n: "0 < n" "a \<noteq> b" "n - 1 \<le> lib_seq_pos_max lib (rt_ctx rt) a"
    and rt': "rt' = rt\<lparr>rt_ctx := lib_seq_cp lib a b 0 n (rt_ctx rt)\<rparr>"
    by (auto simp: reuse_prefix_def not_less split: if_splits)
  show "0 < n" "a \<noteq> b" using n by auto
  have "cells (rt_ctx rt) a (lib_seq_pos_max lib (rt_ctx rt) a) \<noteq> None"
    using llama_okD(3)[OF ok, of "rt_ctx rt" a] n(1,3) by auto
  from contig[OF this] n(3) show present: "\<forall>q. 0 \<le> q \<and> q < n \<longrightarrow> cells (rt_ctx rt) a q \<noteq> None" by auto
  show "cells (rt_ctx rt') = (cells (rt_ctx rt))(b := (\<lambda>p. if 0 \<le> p \<and> p < n then cells (rt_ctx rt) a p else None))"
    using present empty unfolding rt' by (auto simp: llama_okD(4)[OF ok n(2)] fun_eq_iff)
  show "rt' = rt\<lparr>rt_ctx := rt_ctx rt'\<rparr>" using rt' by simp
qed

section \<open>One decode step\<close>

text \<open>The cells of a sequence that holds exactly the token history \<open>h\<close>.\<close>

definition holds :: "kv_cells \<Rightarrow> int \<Rightarrow> int list \<Rightarrow> bool" where
  "holds c s h \<longleftrightarrow> (\<forall>p. c s p = (if 0 \<le> p \<and> p < int (length h) then Some (h ! nat p) else None))"

text \<open>The greedy choice after a history, as \<open>np.argmax\<close> makes it.\<close>

definition greedy :: "(int list \<Rightarrow> float64 list) \<Rightarrow> int list \<Rightarrow> int" where
  "greedy lm h = int (length (takeWhile (\<lambda>x. x < Max (set (lm h))) (lm h)))"

lemma holds_Nil: "holds c s [] \<longleftrightarrow> c s = Map.empty"
  by (auto simp: holds_def)

lemma holds_unique: "holds c s h \<Longrightarrow> holds c s h' \<Longrightarrow> h = h'"
proof -
  have le: "length h \<le> length h'" if "holds c s h" "holds c s h'" for h h'
  proof (rule ccontr)
    assume "\<not> length h \<le> length h'"
    moreover have "c s (int (length h')) = None" using that(2) by (simp add: holds_def)
    ultimately show False using that(1) by (simp add: holds_def)
  qed
  assume "holds c s h" "holds c s h'"
  with le have l: "length h = length h'" by (meson le_antisym)
  have "h ! i = h' ! i" if "i < length h" for i
    using \<open>holds c s h\<close> \<open>holds c s h'\<close> that l unfolding holds_def
    by (metis nat_int of_nat_0_le_iff of_nat_less_iff option.inject)
  with l show "h = h'" by (rule nth_equalityI)
qed

lemma history_of_holds:
  assumes "holds c s h"
  shows "history_of c s (int (length h) - 1) = h"
  using assms by (auto simp: history_of_def holds_def intro!: nth_equalityI)

lemma holds_slice:
  assumes "holds c (seq_id q) h" "n_past q = int (length h)"
    and "0 \<le> t" "t \<le> int (length (pending_tokens q))"
  shows "holds (fold put_row (slice_rows q t) c) (seq_id q) (h @ take (nat t) (pending_tokens q))"
  unfolding holds_def using assms(1,2,4) fold_put_slice[OF assms(3,4), of c]
  by (auto simp: holds_def nth_append nat_diff_distrib' less_nat_zero_code)

lemma sample_rows_ok:
  assumes "\<And>j. j < length rows \<Longrightarrow> needs_logits (rows ! j)
     \<Longrightarrow> sample_greedy lib m (i + j) = Inr (g (row_seq_id (rows ! j)))"
  shows "sample_rows lib m i rows d
     = Inr (fold (\<lambda>s. dict_set s (g s)) (map row_seq_id (filter needs_logits rows)) d)"
  using assms
proof (induction rows arbitrary: i d)
  case (Cons r rows)
  have "sample_rows lib m (Suc i) rows d'
     = Inr (fold (\<lambda>s. dict_set s (g s)) (map row_seq_id (filter needs_logits rows)) d')" for d'
    using Cons.prems[of "Suc j" for j] by (intro Cons.IH) auto
  with Cons.prems[of 0] show ?case by auto
qed simp

lemma dict_get_fold_set:
  "dict_get (fold (\<lambda>s. dict_set s (g s)) ss d) k = (if k \<in> set ss then Some (g k) else dict_get d k)"
  by (induction ss arbitrary: d) auto

lemma dict_wf_fold_set: "dict_wf d \<Longrightarrow> dict_wf (fold (\<lambda>s. dict_set s (g s)) ss d)"
  by (induction ss arbitrary: d) auto

text \<open>The sequences whose pending tokens are all in the batch, and only those, get a row with logits.\<close>

lemma logits_rows:
  assumes "0 < c" "distinct (map seq_id active)"
  shows "row \<in> set (build_batch active capacity c) \<and> needs_logits row \<longleftrightarrow>
     (\<exists>s \<in> set active. pending_tokens s \<noteq> [] \<and> taken active capacity c s = int (length (pending_tokens s))
        \<and> row = \<lparr>row_seq_id = seq_id s, row_token = last (pending_tokens s),
                row_pos = n_past s + int (length (pending_tokens s)) - 1, needs_logits = True\<rparr>)"
    (is "?L \<longleftrightarrow> ?R")
proof
  assume L: ?L
  have "\<exists>s \<in> set active. row_seq_id row = seq_id s"
    using L by (auto simp: build_batch_def fill_batch_takes dest!: set_zip_leftD row_seq_slice_rows)
  then obtain s where s: "s \<in> set active" "row_seq_id row = seq_id s" by blast
  let ?t = "taken active capacity c s"
  have b: "0 \<le> ?t" "?t \<le> int (length (pending_tokens s))" using taken_bounds[OF assms s(1)] by auto
  have "row \<in> set (filter (\<lambda>row. row_seq_id row = seq_id s) (build_batch active capacity c))" using L s by simp
  then have "row \<in> set (slice_rows s ?t)" by (simp only: filter_build_batch[OF assms s(1)])
  then obtain i where i: "i < nat ?t" "slice_rows s ?t ! i = row"
    using length_slice_rows[OF b] by (metis in_set_conv_nth)
  note n = nth_slice_rows[OF b i(1)]
  with L i have e: "?t = int (length (pending_tokens s))" "int i = ?t - 1" by auto
  then have "pending_tokens s \<noteq> []" "i = length (pending_tokens s) - 1" using i(1) by auto
  with n i e s show ?R by (intro bexI[of _ s]) (auto simp: last_conv_nth algebra_simps)
next
  assume ?R
  then obtain s where s: "s \<in> set active" "pending_tokens s \<noteq> []"
    and t: "taken active capacity c s = int (length (pending_tokens s))"
    and row: "row = \<lparr>row_seq_id = seq_id s, row_token = last (pending_tokens s),
                row_pos = n_past s + int (length (pending_tokens s)) - 1, needs_logits = True\<rparr>" by blast
  let ?t = "int (length (pending_tokens s))"
  have "int (length (pending_tokens s) - Suc 0) = int (length (pending_tokens s)) - 1"
    using s(2) by (cases "pending_tokens s") auto
  then have "slice_rows s ?t ! (length (pending_tokens s) - 1) = row"
    using nth_slice_rows[of ?t s "length (pending_tokens s) - 1"] s(2) row by (simp add: last_conv_nth)
  moreover have "length (slice_rows s ?t) = length (pending_tokens s)" by (simp add: length_slice_rows)
  ultimately have "row \<in> set (slice_rows s ?t)" using s(2) by (metis diff_less length_greater_0_conv nth_mem zero_less_one)
  then have "row \<in> set (build_batch active capacity c)"
    using filter_build_batch[OF assms s(1), of capacity] t by (metis filter_is_subset subsetD)
  with row show ?L by simp
qed

lemma batch_seq_ids:
  assumes "0 < c" "distinct (map seq_id active)"
  shows "row_seq_id ` set (build_batch active capacity c) = seq_id ` {s \<in> set active. 0 < taken active capacity c s}"
proof (intro equalityI subsetI)
  fix x assume "x \<in> row_seq_id ` set (build_batch active capacity c)"
  then obtain row where row: "row \<in> set (build_batch active capacity c)" "x = row_seq_id row" by blast
  then obtain s where s: "s \<in> set active" "row_seq_id row = seq_id s"
    by (auto simp: build_batch_def fill_batch_takes dest!: set_zip_leftD row_seq_slice_rows)
  then have "filter (\<lambda>row. row_seq_id row = seq_id s) (build_batch active capacity c) \<noteq> []"
    using row by (auto simp: filter_empty_conv)
  then have "0 < taken active capacity c s" by (simp add: taken_def row_count_def)
  with s row show "x \<in> seq_id ` {s \<in> set active. 0 < taken active capacity c s}" by auto
next
  fix x assume "x \<in> seq_id ` {s \<in> set active. 0 < taken active capacity c s}"
  then obtain s :: active_sequence where "0 < row_count (build_batch active capacity c) (seq_id s)" "x = seq_id s"
    by (auto simp: taken_def)
  then show "x \<in> row_seq_id ` set (build_batch active capacity c)"
    by (force simp: row_count_def filter_empty_conv)
qed

text \<open>The result of a decode and the runtime after it, whatever the library does.\<close>

lemma decode_result:
  assumes ok: "llama_ok lib cells lm" and wf: "runtime_wf rt" and len: "int (length rows) \<le> rt_capacity rt"
    and d: "decode lib rows rt = (r, rt')"
  shows "runtime_wf rt'" "rt_capacity rt' = rt_capacity rt" "rt_eos rt' = rt_eos rt"
    "s \<notin> row_seq_id ` set rows \<Longrightarrow> cells (rt_ctx rt') s = cells (rt_ctx rt) s"
    "(\<exists>rc b. rc \<noteq> 0 \<and> lib_decode lib b (rt_ctx rt) = (rc, rt_ctx rt') \<and> batch_rows b = rows \<and> r = Inl (RuntimeError rc)) \<or>
     (\<exists>b. lib_decode lib b (rt_ctx rt) = (0, rt_ctx rt') \<and> batch_rows b = rows \<and> r = sample_rows lib (rt_ctx rt') 0 rows [])"
proof -
  obtain b where b: "write_rows 0 rows ((rt_batch rt)\<lparr>b_n_tokens := length rows\<rparr>) = Inr b"
    "batch_wf (nat (rt_capacity rt)) b" "batch_rows b = rows" using staged_rows[OF wf len] by blast
  obtain rc m where m: "lib_decode lib b (rt_ctx rt) = (rc, m)" by force
  have rt': "rt' = rt\<lparr>rt_batch := b, rt_ctx := m\<rparr>"
    and r: "r = (if rc \<noteq> 0 then Inl (RuntimeError rc) else sample_rows lib m 0 rows [])"
    using d b(1) m by (auto simp: decode_def Let_def split: if_splits)
  show "runtime_wf rt'" "rt_capacity rt' = rt_capacity rt" "rt_eos rt' = rt_eos rt"
    using wf b(2) rt' by (auto simp: runtime_wf_def)
  show "s \<notin> row_seq_id ` set rows \<Longrightarrow> cells (rt_ctx rt') s = cells (rt_ctx rt) s"
    using llama_okD(6)[OF ok m, of s] b(3) rt' by simp
  show "(\<exists>rc b. rc \<noteq> 0 \<and> lib_decode lib b (rt_ctx rt) = (rc, rt_ctx rt') \<and> batch_rows b = rows \<and> r = Inl (RuntimeError rc)) \<or>
     (\<exists>b. lib_decode lib b (rt_ctx rt) = (0, rt_ctx rt') \<and> batch_rows b = rows \<and> r = sample_rows lib (rt_ctx rt') 0 rows [])"
    using r m b(3) rt' by (cases "rc = 0") auto
qed

text \<open>
  The heart of the runtime: if every active sequence holds its history, a successful decode of the
  built batch appends the batch's slices to the histories and samples, for exactly the sequences
  whose pending tokens it used up, the greedy continuation of history and pending tokens.
\<close>

lemma decode_sampling:
  assumes ok: "llama_ok lib cells lm" and c: "0 < c" and dist: "distinct (map seq_id active)"
    and h: "\<And>s. s \<in> set active \<Longrightarrow> holds (cells m0) (seq_id s) (h s) \<and> n_past s = int (length (h s))"
    and b: "lib_decode lib b m0 = (0, m)" "batch_rows b = build_batch active capacity c"
  defines "hist \<equiv> \<lambda>k. the (map_of (map (\<lambda>s. (seq_id s, h s @ pending_tokens s)) active) k)"
  shows "s \<in> set active \<Longrightarrow> holds (cells m) (seq_id s) (h s @ take (nat (taken active capacity c s)) (pending_tokens s))"
    "s \<in> set active \<Longrightarrow> hist (seq_id s) = h s @ pending_tokens s"
    "sample_rows lib m 0 (build_batch active capacity c) [] = Inr (fold (\<lambda>s. dict_set s (greedy lm (hist s)))
        (map row_seq_id (filter needs_logits (build_batch active capacity c))) [])"
proof -
  let ?t = "taken active capacity c" and ?rows = "build_batch active capacity c"
  have cells: "cells m = fold put_row ?rows (cells m0)" using llama_okD(5)[OF ok b(1)] b(2) by simp
  show H: "holds (cells m) (seq_id s) (h s @ take (nat (?t s)) (pending_tokens s))" if s: "s \<in> set active" for s
  proof -
    have "cells m (seq_id s) = fold put_row (slice_rows s (?t s)) (cells m0) (seq_id s)"
      unfolding cells by (subst fold_put_row_filter) (simp add: filter_build_batch[OF c dist s])
    moreover have "holds (fold put_row (slice_rows s (?t s)) (cells m0)) (seq_id s)
        (h s @ take (nat (?t s)) (pending_tokens s))"
      using h[OF s] taken_bounds[OF c dist s] by (intro holds_slice) auto
    ultimately show ?thesis by (simp add: holds_def)
  qed
  show hist: "hist (seq_id s) = h s @ pending_tokens s" if "s \<in> set active" for s
  proof -
    have "map_of (map (\<lambda>s. (seq_id s, h s @ pending_tokens s)) active) (seq_id s) = Some (h s @ pending_tokens s)"
      using that dist by (intro map_of_is_SomeI) (auto simp: comp_def)
    then show ?thesis by (simp add: hist_def)
  qed
  have "sample_greedy lib m (0 + j) = Inr (greedy lm (hist (row_seq_id (?rows ! j))))"
    if j: "j < length ?rows" "needs_logits (?rows ! j)" for j
  proof -
    have "?rows ! j \<in> set ?rows" using j(1) by simp
    with j(2) obtain s where s: "s \<in> set active" "pending_tokens s \<noteq> []" "?t s = int (length (pending_tokens s))"
      and row: "?rows ! j = \<lparr>row_seq_id = seq_id s, row_token = last (pending_tokens s),
                row_pos = n_past s + int (length (pending_tokens s)) - 1, needs_logits = True\<rparr>"
      using logits_rows[OF c dist, of "?rows ! j" capacity] by blast
    let ?h = "h s @ pending_tokens s"
    have hs: "holds (cells m) (seq_id s) ?h" using H[OF s(1)] s(3) by simp
    have np: "n_past s + int (length (pending_tokens s)) - 1 = int (length ?h) - 1" using h[OF s(1)] by simp
    have nonempty: "0 < int (length (h s)) + int (length (pending_tokens s))" using s(2) by (simp add: add_nonneg_pos)
    have "cells m (seq_id s) q \<noteq> None" if "0 \<le> q" "q \<le> int (length ?h) - 1" for q
      using hs that unfolding holds_def by simp
    then have "lib_logits_ith lib m j = lm (history_of (cells m) (seq_id s) (int (length ?h) - 1))"
      using llama_ok_logits[OF ok b(1) _ _ j(2)] j(1) b(2) nonempty row np by simp
    then have "lib_logits_ith lib m j = lm ?h" by (simp only: history_of_holds[OF hs])
    then show ?thesis using llama_okD(7)[OF ok] by (simp add: sample_greedy_def argmax_def greedy_def row hist[OF s(1)])
  qed
  from sample_rows_ok[of ?rows lib m 0 "\<lambda>k. greedy lm (hist k)", OF this]
  show "sample_rows lib m 0 ?rows [] = Inr (fold (\<lambda>s. dict_set s (greedy lm (hist s)))
        (map row_seq_id (filter needs_logits ?rows)) [])" by simp
qed

lemma decode_histories:
  assumes ok: "llama_ok lib cells lm" and wf: "runtime_wf rt" and c: "0 < c"
    and dist: "distinct (map seq_id active)"
    and h: "\<And>s. s \<in> set active \<Longrightarrow> holds (cells (rt_ctx rt)) (seq_id s) (h s) \<and> n_past s = int (length (h s))"
    and d: "decode lib (build_batch active (rt_capacity rt) c) rt = (r, rt')"
  shows "(\<exists>rc b. rc \<noteq> 0 \<and> lib_decode lib b (rt_ctx rt) = (rc, rt_ctx rt') \<and> r = Inl (RuntimeError rc)) \<or> (\<exists>sampled. r = Inr sampled)"
    "r = Inr sampled \<Longrightarrow> s \<in> set active \<Longrightarrow> holds (cells (rt_ctx rt')) (seq_id s)
           (h s @ take (nat (taken active (rt_capacity rt) c s)) (pending_tokens s))"
    "r = Inr sampled \<Longrightarrow> dict_wf sampled"
    "r = Inr sampled \<Longrightarrow> dict_get sampled k = Some t \<longleftrightarrow> (\<exists>s \<in> set active. seq_id s = k \<and> pending_tokens s \<noteq> []
        \<and> taken active (rt_capacity rt) c s = int (length (pending_tokens s))
        \<and> t = greedy lm (h s @ pending_tokens s))"
proof -
  let ?t = "taken active (rt_capacity rt) c" and ?rows = "build_batch active (rt_capacity rt) c"
  have len: "int (length ?rows) \<le> rt_capacity rt"
    using build_batch_capacity[OF c] wf by (simp add: runtime_wf_def)
  note D = decode_result(5)[OF ok wf len d]
  from D show "(\<exists>rc b. rc \<noteq> 0 \<and> lib_decode lib b (rt_ctx rt) = (rc, rt_ctx rt') \<and> r = Inl (RuntimeError rc)) \<or> (\<exists>sampled. r = Inr sampled)"
    using decode_sampling(3)[OF ok c dist h] by blast
  {
    assume r: "r = Inr sampled"
    from D r obtain b where b: "lib_decode lib b (rt_ctx rt) = (0, rt_ctx rt')" "batch_rows b = ?rows"
      "sample_rows lib (rt_ctx rt') 0 ?rows [] = Inr sampled" by auto
    define hist where "hist k = the (map_of (map (\<lambda>s. (seq_id s, h s @ pending_tokens s)) active) k)" for k
    note S = decode_sampling[OF ok c dist h b(1,2), folded hist_def]
    have sampled: "sampled = fold (\<lambda>s. dict_set s (greedy lm (hist s))) (map row_seq_id (filter needs_logits ?rows)) []"
      using S(3) b(3) by simp
    show "dict_wf sampled" unfolding sampled by (intro dict_wf_fold_set) simp
    show "s \<in> set active \<Longrightarrow> holds (cells (rt_ctx rt')) (seq_id s) (h s @ take (nat (?t s)) (pending_tokens s))"
      by (rule S(1))
    have "k \<in> set (map row_seq_id (filter needs_logits ?rows)) \<longleftrightarrow>
        (\<exists>row. (row \<in> set ?rows \<and> needs_logits row) \<and> row_seq_id row = k)" by (force simp: image_iff)
    also have "\<dots> \<longleftrightarrow>
        (\<exists>s \<in> set active. seq_id s = k \<and> pending_tokens s \<noteq> [] \<and> ?t s = int (length (pending_tokens s)))"
      unfolding logits_rows[OF c dist] by force
    finally have "k \<in> set (map row_seq_id (filter needs_logits ?rows)) \<longleftrightarrow>
        (\<exists>s \<in> set active. seq_id s = k \<and> pending_tokens s \<noteq> [] \<and> ?t s = int (length (pending_tokens s)))" .
    then show "dict_get sampled k = Some t \<longleftrightarrow> (\<exists>s \<in> set active. seq_id s = k \<and> pending_tokens s \<noteq> []
          \<and> ?t s = int (length (pending_tokens s)) \<and> t = greedy lm (h s @ pending_tokens s))"
      unfolding sampled dict_get_fold_set by (auto simp del: set_map set_filter simp flip: S(2) split: if_splits)
  }
qed

lemma pos_max_holds:
  assumes "llama_ok lib cells lm" "holds (cells m) s h"
  shows "lib_seq_pos_max lib m s = int (length h) - 1"
proof (cases "h = []")
  case True
  then show ?thesis using llama_okD(3)[OF assms(1), of m s] assms(2) by (auto simp: holds_Nil)
next
  case False
  then have "cells m s (int (length h) - 1) \<noteq> None" using assms(2) by (auto simp: holds_def Suc_le_eq)
  then have "int (length h) - 1 \<le> lib_seq_pos_max lib m s" by (rule llama_okD(2)[OF assms(1)])
  moreover have "lib_seq_pos_max lib m s < int (length h)"
    using llama_okD(3)[OF assms(1), of m s] assms(2) by (auto simp: holds_def split: if_splits)
  ultimately show ?thesis by linarith
qed

text \<open>A prefix copy between sequences that hold known histories.\<close>

lemma reuse_prefix_holds:
  assumes ok: "llama_ok lib cells lm" and a: "holds (cells (rt_ctx rt)) a h" and b: "holds (cells (rt_ctx rt)) b []"
    and r: "reuse_prefix lib a b n rt = (reused, rt')"
  shows "reused \<longleftrightarrow> 0 < n \<and> a \<noteq> b \<and> n \<le> int (length h)"
    "holds (cells (rt_ctx rt')) b (if reused then take (nat n) h else [])"
    "s \<noteq> b \<Longrightarrow> cells (rt_ctx rt') s = cells (rt_ctx rt) s"
    "rt' = rt\<lparr>rt_ctx := rt_ctx rt'\<rparr>"
proof -
  show re: "reused \<longleftrightarrow> 0 < n \<and> a \<noteq> b \<and> n \<le> int (length h)"
    using r by (auto simp: reuse_prefix_def pos_max_holds[OF ok a] split: if_splits)
  have contig: "\<forall>q. 0 \<le> q \<and> q \<le> p \<longrightarrow> cells (rt_ctx rt) a q \<noteq> None" if "cells (rt_ctx rt) a p \<noteq> None" for p
    using a that by (auto simp: holds_def split: if_splits)
  show "holds (cells (rt_ctx rt')) b (if reused then take (nat n) h else [])"
    "s \<noteq> b \<Longrightarrow> cells (rt_ctx rt') s = cells (rt_ctx rt) s" "rt' = rt\<lparr>rt_ctx := rt_ctx rt'\<rparr>"
  proof -
    have "holds (cells (rt_ctx rt')) b (if reused then take (nat n) h else []) \<and>
      (s \<noteq> b \<longrightarrow> cells (rt_ctx rt') s = cells (rt_ctx rt) s) \<and> rt' = rt\<lparr>rt_ctx := rt_ctx rt'\<rparr>"
    proof (cases reused)
      case True
      with r have r': "reuse_prefix lib a b n rt = (True, rt')" by simp
      have e: "cells (rt_ctx rt) b = Map.empty" using b by (simp add: holds_Nil)
      have C: "cells (rt_ctx rt') = (cells (rt_ctx rt))(b := (\<lambda>p. if 0 \<le> p \<and> p < n then cells (rt_ctx rt) a p else None))"
        by (rule reuse_prefix_cells(4)[OF ok r' e]) (rule contig)
      have "rt' = rt\<lparr>rt_ctx := rt_ctx rt'\<rparr>" by (rule reuse_prefix_cells(5)[OF ok r' e]) (rule contig)
      moreover have "holds (cells (rt_ctx rt')) b (take (nat n) h)"
        using a re True unfolding holds_def C by auto
      ultimately show ?thesis using True C by simp
    next
      case False
      with r have "rt' = rt" by (auto simp: reuse_prefix_def split: if_splits)
      with False b show ?thesis by simp
    qed
    then show "holds (cells (rt_ctx rt')) b (if reused then take (nat n) h else [])"
      "s \<noteq> b \<Longrightarrow> cells (rt_ctx rt') s = cells (rt_ctx rt) s" "rt' = rt\<lparr>rt_ctx := rt_ctx rt'\<rparr>" by auto
  qed
qed

section \<open>A concrete library\<close>

text \<open>
  A small library that keeps the cells as an association list and evaluates a given model \<open>lm\<close> on
  the history of every row; \<open>rc\<close> chooses the return code of a decode. It shows that the laws
  collected in \<open>llama_ok\<close> can hold together, and it makes the definitions above executable.
\<close>

record sim_context =
  sim_kv :: "(int \<times> int, int) dict"
  sim_logits :: "float64 list list"

definition sim_cells :: "sim_context \<Rightarrow> kv_cells" where
  "sim_cells m s p = map_of (sim_kv m) (s, p)"

definition sim_decode :: "(int list \<Rightarrow> float64 list) \<Rightarrow> (llama_batch \<Rightarrow> int) \<Rightarrow> llama_batch \<Rightarrow> sim_context \<Rightarrow> int \<times> sim_context" where
  "sim_decode lm rc b m =
     (if rc b \<noteq> 0 then (rc b, m)
      else let m' = m\<lparr>sim_kv := fold (\<lambda>r kv. ((row_seq_id r, row_pos r), row_token r) # kv) (batch_rows b) (sim_kv m)\<rparr>
           in (0, m'\<lparr>sim_logits := map (\<lambda>r. lm (history_of (sim_cells m') (row_seq_id r) (row_pos r))) (batch_rows b)\<rparr>))"

definition sim_llama :: "(int list \<Rightarrow> float64 list) \<Rightarrow> (llama_batch \<Rightarrow> int) \<Rightarrow> sim_context llama_lib" where
  "sim_llama lm rc =
     \<lparr>lib_tokenize = (\<lambda>bs add_bos. (if add_bos then [1] else []) @ map (\<lambda>b. int b mod 256) bs),
      lib_detokenize = (\<lambda>ts. map (\<lambda>t. nat (t mod 256)) ts),
      lib_token_eos = 2,
      lib_n_vocab = 256,
      lib_seq_rm = (\<lambda>s a b m. m\<lparr>sim_kv := filter (\<lambda>((s', p), t). s' \<noteq> s \<or> 0 \<le> a \<and> p < a \<or> 0 \<le> b \<and> b \<le> p) (sim_kv m)\<rparr>),
      lib_seq_cp = (\<lambda>s d a b m. m\<lparr>sim_kv :=
         map (\<lambda>((s', p), t). ((d, p), t)) (filter (\<lambda>((s', p), t). s' = s \<and> a \<le> p \<and> p < b) (sim_kv m)) @ sim_kv m\<rparr>),
      lib_seq_pos_max = (\<lambda>m s. foldr max (map (\<lambda>((s', p), t). if s' = s then p else -1) (sim_kv m)) (-1)),
      lib_decode = sim_decode lm rc,
      lib_logits_ith = (\<lambda>m i. sim_logits m ! i)\<rparr>"

definition sim_context_init :: sim_context where
  "sim_context_init = \<lparr>sim_kv = [], sim_logits = []\<rparr>"

lemma foldr_max_ge: "foldr max xs (d::int) \<ge> d" "x \<in> set xs \<Longrightarrow> x \<le> foldr max xs d"
  "foldr max xs d = d \<or> foldr max xs d \<in> set xs"
proof -
  show "foldr max xs d \<ge> d" by (induction xs) auto
  show "x \<in> set xs \<Longrightarrow> x \<le> foldr max xs d" by (induction xs) (auto simp: le_max_iff_disj)
  show "foldr max xs d = d \<or> foldr max xs d \<in> set xs" by (induction xs) (auto simp: max_def)
qed

lemma sim_cells_decode:
  "map_of (fold (\<lambda>r kv. ((row_seq_id r, row_pos r), row_token r) # kv) rows kv) (s, p)
     = fold put_row rows (\<lambda>s p. map_of kv (s, p)) s p"
proof (induction rows arbitrary: kv)
  case (Cons r rows)
  have "(\<lambda>s p. map_of (((row_seq_id r, row_pos r), row_token r) # kv) (s, p))
      = put_row r (\<lambda>s p. map_of kv (s, p))" by (auto simp: put_row_def fun_eq_iff)
  then show ?case using Cons.IH[of "((row_seq_id r, row_pos r), row_token r) # kv"] by simp
qed simp

lemma sim_llama_ok:
  assumes "\<And>h. lm h \<noteq> []"
  shows "llama_ok (sim_llama lm rc) sim_cells lm"
proof -
  have rm: "seq_rm_law (sim_llama lm rc) sim_cells"
  proof -
    have "map_of (filter (\<lambda>((s', p), t). s' \<noteq> s) kv) (s', p) = (if s' = s then None else map_of kv (s', p))"
      for s s' p :: int and kv :: "(int \<times> int, int) dict"
      by (induction kv) auto
    then show ?thesis by (auto simp: seq_rm_law_def sim_llama_def sim_cells_def fun_eq_iff)
  qed
  have pm: "pos_max_law (sim_llama lm rc) sim_cells"
  proof -
    have 1: "p \<le> lib_seq_pos_max (sim_llama lm rc) m s" if c: "sim_cells m s p \<noteq> None" for m s p
    proof -
      from c obtain t where "((s, p), t) \<in> set (sim_kv m)" by (auto simp: sim_cells_def dest: map_of_SomeD)
      then have "p \<in> set (map (\<lambda>((s', p), t). if s' = s then p else -1) (sim_kv m))" by force
      then show ?thesis unfolding sim_llama_def by (simp add: foldr_max_ge(2) del: set_map)
    qed
    have 2: "lib_seq_pos_max (sim_llama lm rc) m s = -1 \<or>
        sim_cells m s (lib_seq_pos_max (sim_llama lm rc) m s) \<noteq> None" for m s
    proof -
      let ?f = "\<lambda>((s', p), t). if s' = s then p else -1" 
      from foldr_max_ge(3)[of "map ?f (sim_kv m)" "-1"] have
        "lib_seq_pos_max (sim_llama lm rc) m s = -1 \<or>
         (\<exists>t. ((s, lib_seq_pos_max (sim_llama lm rc) m s), t) \<in> set (sim_kv m))"
        unfolding sim_llama_def by (auto split: if_splits)
      then show ?thesis by (auto simp: sim_cells_def map_of_eq_None_iff image_iff Bex_def)
    qed
    from 1 2 show ?thesis unfolding pos_max_law_def by blast
  qed
  have cp: "seq_cp_law (sim_llama lm rc) sim_cells"
  proof -
    have "map_of (map (\<lambda>((s', p), t). ((d, p), t)) (filter (\<lambda>((s', p), t). s' = s \<and> a \<le> p \<and> p < b) kv)) (s', p)
        = (if s' = d \<and> a \<le> p \<and> p < b then map_of kv (s, p) else None)"
      for d s s' a b p :: int and kv :: "(int \<times> int, int) dict"
      by (induction kv) auto
    then show ?thesis
      by (auto simp: seq_cp_law_def sim_llama_def sim_cells_def fun_eq_iff map_add_def split: option.splits)
  qed
  have eta: "sim_cells m = (\<lambda>s p. map_of (sim_kv m) (s, p))" for m by (simp add: sim_cells_def fun_eq_iff)
  have de: "decode_law (sim_llama lm rc) sim_cells"
    by (auto simp: decode_law_def sim_llama_def sim_decode_def eta fun_eq_iff Let_def
        sim_cells_decode fold_put_row_other split: if_splits)
  have lo: "logits_law (sim_llama lm rc) sim_cells lm"
  proof -
    have "sim_cells (m\<lparr>sim_logits := l\<rparr>) = sim_cells m" for m l by (simp add: sim_cells_def fun_eq_iff)
    then show ?thesis using assms
      by (auto simp: logits_law_def sim_llama_def sim_decode_def Let_def split: if_splits)
  qed
  have "int32 x" if "0 \<le> x" "x < 256" for x using that by (simp add: int32_def)
  then have tk: "tokenizer_law (sim_llama lm rc)" by (auto simp: tokenizer_law_def sim_llama_def list_all_iff)
  from rm pm cp de lo tk show ?thesis by (simp add: llama_ok_def)
qed

section \<open>Properties\<close>

text \<open>A model that answers token 3 until the history has four tokens, and then the end token 2.\<close>

definition demo_lm :: "int list \<Rightarrow> float64 list" where
  "demo_lm h = (if length h < 4 then [0, 0, 0, 1] else [0, 0, 1, 0])"

lemma demo_ok: "llama_ok (sim_llama demo_lm rc) sim_cells demo_lm"
  by (rule sim_llama_ok) (simp add: demo_lm_def)

text \<open>
  C21. One decode call is right for every sequence in the batch at once, however their slices are
  chunked and interleaved: if each active sequence holds its history in the KV cache, a successful
  \<open>decode\<close> of the built batch appends to every history exactly the slice that was taken of it, and
  samples exactly for the sequences whose pending tokens are used up, for each the greedy
  continuation of its own history and pending tokens, independent of the rest of the batch.
\<close>

theorem decode_step_greedy:
  assumes "llama_ok lib cells lm" "runtime_wf rt" "0 < c" "distinct (map seq_id active)"
    and "\<And>s. s \<in> set active \<Longrightarrow> holds (cells (rt_ctx rt)) (seq_id s) (h s) \<and> n_past s = int (length (h s))"
    and "decode lib (build_batch active (batch_capacity rt) c) rt = (Inr sampled, rt')"
  shows "(\<forall>s \<in> set active. holds (cells (rt_ctx rt')) (seq_id s)
            (h s @ take (nat (taken active (batch_capacity rt) c s)) (pending_tokens s)))
     \<and> (\<forall>k t. dict_get sampled k = Some t \<longleftrightarrow> (\<exists>s \<in> set active. seq_id s = k \<and> pending_tokens s \<noteq> []
            \<and> taken active (batch_capacity rt) c s = int (length (pending_tokens s))
            \<and> t = greedy lm (h s @ pending_tokens s)))"
  using decode_histories(2,4)[OF assms(1-5) _ refl] assms(6) unfolding batch_capacity_def by blast

theorem decode_step_greedy_witness:
  "\<exists>sampled rt'. decode (sim_llama demo_lm (\<lambda>_. 0))
       (build_batch [\<lparr>seq_id = 0, pending_tokens = [1, 7], n_past = 0\<rparr>] 4 512)
       (runtime_init (sim_llama demo_lm (\<lambda>_. 0)) sim_context_init 4) = (Inr sampled, rt')
     \<and> holds (sim_cells (rt_ctx rt')) 0 [1, 7] \<and> dict_get sampled 0 = Some 3"
proof -
  let ?lib = "sim_llama demo_lm (\<lambda>_. 0)" and ?s = "\<lparr>seq_id = 0, pending_tokens = [1, 7], n_past = 0\<rparr>"
  let ?rt = "runtime_init ?lib sim_context_init 4"
  have wf: "runtime_wf ?rt" by (rule runtime_init_wf) simp
  have h: "holds (sim_cells (rt_ctx ?rt)) (seq_id s) [] \<and> n_past s = int (length ([] :: int list))" if "s \<in> set [?s]" for s
    using that by (auto simp: holds_def runtime_init_def sim_context_init_def sim_cells_def)
  have cap: "batch_capacity ?rt = 4" "rt_capacity ?rt = 4" by (simp_all add: batch_capacity_def runtime_init_def)
  obtain r rt' where d: "decode ?lib (build_batch [?s] (rt_capacity ?rt) 512) ?rt = (r, rt')" by force
  have z: "lib_decode ?lib b m = (rc, m') \<Longrightarrow> rc = 0" for b m rc m'
    by (simp add: sim_llama_def sim_decode_def Let_def)
  from decode_histories(1)[OF demo_ok wf, of 512 "[?s]" "\<lambda>_. []", OF _ _ h d] z
  obtain sampled where r: "r = Inr sampled" by auto
  have t: "taken [?s] 4 512 ?s = 2" by (simp add: taken_def row_count_def build_batch_def slice_rows_def Let_def)
  from decode_step_greedy[OF demo_ok wf, of 512 "[?s]" "\<lambda>_. []", OF _ _ h] d r
  have "holds (sim_cells (rt_ctx rt')) 0 (take (nat 2) [1, 7])"
    "dict_get sampled 0 = Some (greedy demo_lm [1, 7])" by (simp_all add: cap t)
  moreover have "greedy demo_lm [1, 7] = 3" by (simp add: greedy_def demo_lm_def)
  ultimately show ?thesis using d r unfolding cap by auto
qed

text \<open>
  C30. \<open>reuse_prefix\<close> between a donor with history \<open>h\<close> and an empty slot: it succeeds exactly when the
  request is positive, the two differ and the donor already holds that many tokens; then the slot
  holds exactly that prefix of \<open>h\<close>, and otherwise nothing changes. No other sequence is touched.
\<close>

theorem reuse_prefix_exact:
  assumes "llama_ok lib cells lm" "holds (cells (rt_ctx rt)) a h" "holds (cells (rt_ctx rt)) b []"
    and "reuse_prefix lib a b n rt = (reused, rt')"
  shows "(reused \<longleftrightarrow> 0 < n \<and> a \<noteq> b \<and> n \<le> int (length h))
     \<and> holds (cells (rt_ctx rt')) b (if reused then take (nat n) h else [])
     \<and> (\<forall>s. s \<noteq> b \<longrightarrow> cells (rt_ctx rt') s = cells (rt_ctx rt) s)"
  using reuse_prefix_holds[OF assms] by blast

theorem reuse_prefix_exact_witness:
  "\<exists>rt'. reuse_prefix (sim_llama demo_lm (\<lambda>_. 0)) 0 1 2
       (runtime_init (sim_llama demo_lm (\<lambda>_. 0)) \<lparr>sim_kv = [((0, 0), 1), ((0, 1), 7)], sim_logits = []\<rparr> 4) = (True, rt')
     \<and> holds (sim_cells (rt_ctx rt')) 1 [1, 7]"
proof -
  let ?lib = "sim_llama demo_lm (\<lambda>_. 0)"
  let ?rt = "runtime_init ?lib \<lparr>sim_kv = [((0, 0), 1), ((0, 1), 7)], sim_logits = []\<rparr> 4"
  obtain reused rt' where r: "reuse_prefix ?lib 0 1 2 ?rt = (reused, rt')" by force
  have "holds (sim_cells (rt_ctx ?rt)) 0 [1, 7]" "holds (sim_cells (rt_ctx ?rt)) 1 []"
    by (auto simp: holds_def sim_cells_def runtime_init_def nth_Cons')
  from reuse_prefix_exact[OF demo_ok this r] r show ?thesis by auto
qed



text \<open>
  \<open>close\<close> may be called any number of times inside a \<open>with\<close> block, which closes again on the way out,
  whether or not the block raises: the native handles are freed once each, the batch before the
  context and the context before the model.
\<close>

theorem close_frees_once:
  "rt_freed (snd (with_runtime (\<lambda>rt. (r, (runtime_close ^^ n) rt)) (runtime_init lib m k))) = [FreedBatch, FreedContext, FreedModel]"
proof -
  have "runtime_close ((runtime_close ^^ n) rt) = runtime_close rt" for rt :: "'a runtime"
    by (induction n) (auto simp: runtime_close_def)
  then show ?thesis by (simp add: with_runtime_def runtime_enter_def runtime_exit_def runtime_close_def runtime_init_def)
qed

text \<open>The counters of \<open>llama_perf_context\<close> are 32-bit integers, so their conversion to a float is exact.\<close>

lemma perf_snapshot_exact:
  assumes "int32 (perf_n_reused (perf (rt_ctx rt)))"
  shows "dict_get (perf_snapshot perf rt) ''n_reused'' = Some (of_int (perf_n_reused (perf (rt_ctx rt))))"
proof -
  have "\<bar>perf_n_reused (perf (rt_ctx rt))\<bar> \<le> 2 ^ 53" using assms by (auto simp: int32_def)
  then show ?thesis by (simp add: perf_snapshot_def Let_def fl_of_int)
qed

end
