(* ===== verification/Observability.thy ===== *)
theory Observability
  imports TS_Float
begin

text \<open>
  Metrics and tracing, \<^verbatim>\<open>tinyserve/observability/{metrics,tracing}.py\<close>. Both hand their data to
  libraries that are not part of the repository, so the model keeps what the program sends: a log of
  metric events, and a log of span events with the two span registries of \<open>RequestTracer\<close>.

  \<open>event_ok\<close> is the condition under which \<open>prometheus_client\<close> accepts an event (declared instrument,
  right kind, right number of labels, no negative counter increment). \<open>tracer_inv\<close> says that the
  registries hold exactly the spans that were started and not yet ended.
\<close>

section \<open>Metrics\<close>

datatype metric_kind = Counter | Gauge | Histogram

datatype metric_event =
    MInc string "string list" int
  | MSet string "string list" rat
  | MObserve string rat

definition instruments :: "(string, metric_kind \<times> string list) dict" where
  "instruments =
     [(''admission_accepted_total'', Counter, []),
      (''admission_rejected_total'', Counter, [''reason'']),
      (''queue_depth'', Gauge, []),
      (''queue_wait_seconds'', Histogram, []),
      (''batch_size_tokens'', Histogram, []),
      (''batch_size_requests'', Histogram, []),
      (''batch_utilization'', Histogram, []),
      (''kv_blocks_free'', Gauge, []),
      (''kv_blocks_used'', Gauge, []),
      (''ttft_seconds'', Histogram, []),
      (''inter_token_latency_seconds'', Histogram, []),
      (''tokens_per_second'', Histogram, []),
      (''decode_step_duration_seconds'', Histogram, []),
      (''prefix_cache_lookups_total'', Counter, [''outcome'']),
      (''prefill_tokens_total'', Counter, []),
      (''prefill_tokens_reused_total'', Counter, []),
      (''prefix_cache_nodes'', Gauge, []),
      (''prefix_cache_backend_info'', Gauge, [''backend'']),
      (''scheduler_policy_decision_total'', Counter, [''policy'', ''outcome'']),
      (''cancellations_total'', Counter, [''reason''])]"

fun event_ok :: "metric_event \<Rightarrow> bool" where
  "event_ok (MInc n ls k) =
     (case dict_get instruments n of
        Some (Counter, labels) \<Rightarrow> length ls = length labels \<and> 0 \<le> k
      | _ \<Rightarrow> False)"
| "event_ok (MSet n ls v) =
     (case dict_get instruments n of
        Some (Gauge, labels) \<Rightarrow> length ls = length labels
      | _ \<Rightarrow> False)"
| "event_ok (MObserve n v) =
     (case dict_get instruments n of Some (Histogram, labels) \<Rightarrow> labels = [] | _ \<Rightarrow> False)"

text \<open>The value of a counter after a log of events.\<close>

fun counter_value :: "string \<Rightarrow> string list \<Rightarrow> metric_event list \<Rightarrow> int" where
  "counter_value n ls [] = 0"
| "counter_value n ls (MInc n' ls' k # es) =
     (if n' = n \<and> ls' = ls then k else 0) + counter_value n ls es"
| "counter_value n ls (_ # es) = counter_value n ls es"

text \<open>The value of a gauge without labels: that of its last \<open>set\<close>.\<close>

fun note_gauge :: "string \<Rightarrow> metric_event \<Rightarrow> rat option \<Rightarrow> rat option" where
  "note_gauge n (MSet n' ls v) g = (if n' = n then Some v else g)"
| "note_gauge n _ g = g"

definition gauge_value :: "string \<Rightarrow> metric_event list \<Rightarrow> rat option" where
  "gauge_value n ms = fold (note_gauge n) ms None"

lemma counter_value_append [simp]:
  "counter_value n ls (xs @ ys) = counter_value n ls xs + counter_value n ls ys"
proof (induction xs)
  case (Cons e xs)
  then show ?case by (cases e) auto
qed simp

section \<open>Tracing\<close>

datatype attr = AInt int | ABool bool

datatype span_event =
    SpanStart nat string "nat option"
  | SpanAttr nat string attr
  | SpanEnd nat

record tracer =
  roots :: "(string, nat) dict"
  open_children :: "(string \<times> string, nat) dict"
  next_span :: nat
  span_log :: "span_event list"

definition tracer_init :: tracer where
  "tracer_init = \<lparr>roots = [], open_children = [], next_span = 0, span_log = []\<rparr>"

definition set_attrs :: "nat \<Rightarrow> (string \<times> attr) list \<Rightarrow> span_event list" where
  "set_attrs sp as = map (\<lambda>(k, v). SpanAttr sp k v) as"

definition start_request :: "string \<Rightarrow> (string \<times> attr) list \<Rightarrow> tracer \<Rightarrow> tracer" where
  "start_request rid attributes t =
     (let sp = next_span t
      in t\<lparr>roots := dict_set rid sp (roots t), next_span := sp + 1,
           span_log := span_log t @ SpanStart sp ''request'' None # set_attrs sp attributes\<rparr>)"

definition start_span :: "string \<Rightarrow> string \<Rightarrow> tracer \<Rightarrow> tracer" where
  "start_span rid name t =
     (let sp = next_span t; context = dict_get (roots t) rid
      in t\<lparr>open_children := dict_set (rid, name) sp (open_children t), next_span := sp + 1,
           span_log := span_log t @ [SpanStart sp name context]\<rparr>)"

definition end_span :: "string \<Rightarrow> string \<Rightarrow> tracer \<Rightarrow> tracer" where
  "end_span rid name t =
     (case dict_get (open_children t) (rid, name) of
        None \<Rightarrow> t
      | Some sp \<Rightarrow> t\<lparr>open_children := dict_del (rid, name) (open_children t),
                      span_log := span_log t @ [SpanEnd sp]\<rparr>)"

definition end_request :: "string \<Rightarrow> (string \<times> attr) list \<Rightarrow> tracer \<Rightarrow> tracer" where
  "end_request rid attributes t =
     (case dict_get (roots t) rid of
        None \<Rightarrow> t
      | Some sp \<Rightarrow> t\<lparr>roots := dict_del rid (roots t),
                      span_log := span_log t @ set_attrs sp attributes @ [SpanEnd sp]\<rparr>)"

subsection \<open>Every span is ended at most once\<close>

definition started :: "tracer \<Rightarrow> nat set" where
  "started t = {sp. \<exists>n c. SpanStart sp n c \<in> set (span_log t)}"

definition ended :: "tracer \<Rightarrow> nat list" where
  "ended t = List.map_filter (\<lambda>e. case e of SpanEnd sp \<Rightarrow> Some sp | _ \<Rightarrow> None) (span_log t)"

definition open_spans :: "tracer \<Rightarrow> nat list" where
  "open_spans t = vals (roots t) @ vals (open_children t)"

definition tracer_inv :: "tracer \<Rightarrow> bool" where
  "tracer_inv t \<longleftrightarrow> dict_wf (roots t) \<and> dict_wf (open_children t)
     \<and> distinct (open_spans t @ ended t) \<and> (\<forall>sp \<in> set (open_spans t @ ended t). sp < next_span t)"

lemma ended_append: "List.map_filter f (xs @ ys) = List.map_filter f xs @ List.map_filter f ys"
  by (simp add: List.map_filter_def)

lemma ended_attrs [simp]:
  "List.map_filter (\<lambda>e. case e of SpanEnd sp \<Rightarrow> Some sp | _ \<Rightarrow> None) (set_attrs sp as) = []"
  by (auto simp: List.map_filter_def set_attrs_def filter_empty_conv)

lemmas span_simps = open_spans_def ended_def ended_append List.map_filter_simps

lemma tracer_init_inv: "tracer_inv tracer_init"
  by (simp add: tracer_inv_def tracer_init_def open_spans_def ended_def List.map_filter_simps)

text \<open>Storing under a fresh key and dropping a key, seen through the values.\<close>

lemma vals_set_new: "k \<notin> set (keys d) \<Longrightarrow> vals (dict_set k v d) = vals d @ [v]"
  by (simp add: keys_set_new)

lemma vals_del:
  assumes "dict_wf d" "dict_get d k = Some v"
  shows "mset (vals d) = add_mset v (mset (vals (dict_del k d)))"
  using assms
proof (induction d)
  case (Cons e d)
  show ?case
  proof (cases "fst e = k")
    case True
    with Cons.prems have "k \<notin> fst ` set d" "snd e = v" by (auto simp: dict_wf_def)
    with True show ?thesis by (cases e) simp
  next
    case False
    with Cons show ?thesis by (cases e) (auto simp: dict_wf_def)
  qed
qed simp

lemma start_request_inv:
  assumes "tracer_inv t" "rid \<notin> set (keys (roots t))"
  shows "tracer_inv (start_request rid as t)"
  using assms
  by (auto simp: tracer_inv_def start_request_def Let_def span_simps vals_set_new less_Suc_eq)

lemma start_span_inv:
  assumes "tracer_inv t" "(rid, n) \<notin> set (keys (open_children t))"
  shows "tracer_inv (start_span rid n t)"
  using assms
  by (auto simp: tracer_inv_def start_span_def Let_def span_simps vals_set_new less_Suc_eq)

lemma distinct_move:
  assumes "distinct (a @ b @ c)" "mset (a @ b) = add_mset v (mset (a' @ b'))"
  shows "distinct (a' @ b' @ c @ [v])" "set (a' @ b' @ c @ [v]) = set (a @ b @ c)"
proof -
  have eq: "mset (a' @ b' @ c @ [v]) = mset (a @ b @ c)" using assms(2) by simp
  then show "distinct (a' @ b' @ c @ [v])" using assms(1) by (metis mset_eq_imp_distinct_iff)
  show "set (a' @ b' @ c @ [v]) = set (a @ b @ c)" using eq by (rule mset_eq_setD)
qed

lemma end_span_inv:
  assumes "tracer_inv t"
  shows "tracer_inv (end_span rid n t)"
proof (cases "dict_get (open_children t) (rid, n)")
  case (Some sp)
  let ?d = "open_children t"
  have m: "mset (vals (roots t) @ vals ?d) = add_mset sp (mset (vals (roots t) @ vals (dict_del (rid, n) ?d)))"
    using vals_del[OF _ Some] assms by (simp add: tracer_inv_def)
  have "distinct (vals (roots t) @ vals ?d @ ended t)" using assms by (simp add: tracer_inv_def open_spans_def)
  note D = distinct_move[OF this m]
  have "ended (end_span rid n t) = ended t @ [sp]" using Some by (simp add: end_span_def span_simps)
  with D assms Some show ?thesis unfolding tracer_inv_def
    by (simp add: end_span_def open_spans_def dict_wf_del del: set_append)
qed (use assms in \<open>simp add: end_span_def\<close>)

lemma end_request_inv:
  assumes "tracer_inv t"
  shows "tracer_inv (end_request rid as t)"
proof (cases "dict_get (roots t) rid")
  case (Some sp)
  let ?d = "roots t"
  have m: "mset (vals ?d @ vals (open_children t)) = add_mset sp (mset (vals (dict_del rid ?d) @ vals (open_children t)))"
    using vals_del[OF _ Some] assms by (simp add: tracer_inv_def)
  have "distinct (vals ?d @ vals (open_children t) @ ended t)" using assms by (simp add: tracer_inv_def open_spans_def)
  note D = distinct_move[OF this m]
  have "ended (end_request rid as t) = ended t @ [sp]" using Some by (simp add: end_request_def span_simps)
  with D assms Some show ?thesis unfolding tracer_inv_def
    by (simp add: end_request_def open_spans_def dict_wf_del del: set_append)
qed (use assms in \<open>simp add: end_request_def\<close>)

lemma tracer_frames:
  "roots (start_span r n t) = roots t" "roots (end_span r n t) = roots t"
  "open_children (start_request r as t) = open_children t" "open_children (end_request r as t) = open_children t"
  by (auto simp: start_span_def end_span_def start_request_def end_request_def Let_def split: option.splits)

lemma tracer_keys:
  "set (keys (roots (start_request r as t))) = insert r (set (keys (roots t)))"
  "set (keys (roots (end_request r as t))) = set (keys (roots t)) - {r}"
  "set (keys (open_children (start_span r n t))) = insert (r, n) (set (keys (open_children t)))"
  "set (keys (open_children (end_span r n t))) = set (keys (open_children t)) - {(r, n)}"
  by (auto simp: start_span_def end_span_def start_request_def end_request_def Let_def
      dom_update dict_get_eq_None set_dict_del image_iff split: option.splits)

section \<open>Properties\<close>

text \<open>
  The calls of one traced component, in any order, under the discipline of the callers: a request is
  started when it has no root span, and a child span when it is not open already.
\<close>

datatype trace_call =
    CallStartRequest string "(string \<times> attr) list"
  | CallStartSpan string string
  | CallEndSpan string string
  | CallEndRequest string "(string \<times> attr) list"

fun trace_call_step :: "trace_call \<Rightarrow> tracer \<Rightarrow> tracer" where
  "trace_call_step (CallStartRequest r as) t = start_request r as t"
| "trace_call_step (CallStartSpan r n) t = start_span r n t"
| "trace_call_step (CallEndSpan r n) t = end_span r n t"
| "trace_call_step (CallEndRequest r as) t = end_request r as t"

fun trace_call_ok :: "trace_call \<Rightarrow> tracer \<Rightarrow> bool" where
  "trace_call_ok (CallStartRequest r as) t = (r \<notin> set (keys (roots t)))"
| "trace_call_ok (CallStartSpan r n) t = ((r, n) \<notin> set (keys (open_children t)))"
| "trace_call_ok _ t = True"

fun trace_ok :: "trace_call list \<Rightarrow> tracer \<Rightarrow> bool" where
  "trace_ok [] t = True"
| "trace_ok (x # xs) t = (trace_call_ok x t \<and> trace_ok xs (trace_call_step x t))"

lemma trace_run_inv:
  assumes "tracer_inv t" "trace_ok xs t"
  shows "tracer_inv (fold trace_call_step xs t)"
  using assms
proof (induction xs arbitrary: t)
  case (Cons x xs)
  have "tracer_inv (trace_call_step x t)" using Cons.prems
    by (cases x) (auto simp: start_request_inv start_span_inv end_span_inv end_request_inv)
  with Cons show ?case by simp
qed simp

text \<open>
  C34. Spans are balanced: in every disciplined history no span is ended twice, and no span that is
  still registered as open has been ended; ending an unknown span or request does nothing.
\<close>

theorem spans_end_once:
  assumes "trace_ok xs tracer_init"
  shows "distinct (ended (fold trace_call_step xs tracer_init))
     \<and> set (open_spans (fold trace_call_step xs tracer_init)) \<inter> set (ended (fold trace_call_step xs tracer_init)) = {}"
  using trace_run_inv[OF tracer_init_inv assms] by (simp add: tracer_inv_def)

theorem spans_end_once_witness:
  "distinct (ended (fold trace_call_step [CallStartRequest ''r'' [], CallStartSpan ''r'' ''queue_wait'',
      CallEndSpan ''r'' ''queue_wait'', CallEndSpan ''r'' ''queue_wait'', CallEndRequest ''r'' []] tracer_init))"
proof -
  have "trace_ok [CallStartRequest ''r'' [], CallStartSpan ''r'' ''queue_wait'',
      CallEndSpan ''r'' ''queue_wait'', CallEndSpan ''r'' ''queue_wait'', CallEndRequest ''r'' []] tracer_init"
    by (simp add: tracer_init_def tracer_frames)
  from spans_end_once[OF this] show ?thesis by blast
qed

end
