(* ===== verification/Server_Model.thy ===== *)
theory Server_Model
  imports KV_Cache Prefix_Backend Scheduler Sse_Stream Llama_Runtime Observability
begin

text \<open>
  The server of \<^verbatim>\<open>tinyserve/api/app.py\<close>, with the request schemas of \<^verbatim>\<open>tinyserve/api/schemas.py\<close> and
  the settings of \<^verbatim>\<open>tinyserve/config.py\<close>: the state shared by the HTTP handlers and the batch loop,
  every nested function of \<open>batch_loop\<close>, the handlers, and the step relation of the running server.

  Python code that mutates shared objects and may raise is a function \<open>('s, 'a) prog\<close> from a state to
  a result and a state, so that what was done before an exception stays done. The batch loop is cut at
  its \<open>await\<close>s: \<open>loop_top\<close>, \<open>loop_wake\<close> and \<open>loop_decoded\<close> run from one suspension to the next, and
  \<open>sv_loop\<close> says where it is suspended. asyncio runs the code between two suspensions atomically, so
  the handlers and the consumers interleave with these pieces and with nothing smaller.

  \<open>time.monotonic()\<close> reads the next value of the parameter \<open>clk\<close>; \<open>sv_clock\<close> counts the readings.
  The field \<open>sv_trace\<close> is an auxiliary history of the run (requests accepted, tokens pushed, streams
  closed, texts read, ends of streams reached). No definition reads it; the theorems of the server are stated over it.
\<close>

section \<open>Programs that mutate and may raise\<close>

type_synonym ('s, 'a) prog = "'s \<Rightarrow> 'a res \<times> 's"

definition ret :: "'a \<Rightarrow> ('s, 'a) prog" where
  "ret x s = (Inr x, s)"

definition bnd :: "('s, 'a) prog \<Rightarrow> ('a \<Rightarrow> ('s, 'b) prog) \<Rightarrow> ('s, 'b) prog" where
  "bnd m f s = (case m s of (Inl e, s') \<Rightarrow> (Inl e, s') | (Inr x, s') \<Rightarrow> f x s')"

definition raise :: "py_error \<Rightarrow> ('s, 'a) prog" where
  "raise e s = (Inl e, s)"

definition lift :: "'a res \<Rightarrow> ('s, 'a) prog" where
  "lift r s = (r, s)"

definition gets :: "('s \<Rightarrow> 'a) \<Rightarrow> ('s, 'a) prog" where
  "gets f s = (Inr (f s), s)"

definition upd :: "('s \<Rightarrow> 's) \<Rightarrow> ('s, unit) prog" where
  "upd f s = (Inr (), f s)"

definition asks :: "('s \<Rightarrow> 'a res) \<Rightarrow> ('s, 'a) prog" where
  "asks f s = (f s, s)"

definition call :: "('s \<Rightarrow> 'a \<times> 's) \<Rightarrow> ('s, 'a) prog" where
  "call f s = (case f s of (x, s') \<Rightarrow> (Inr x, s'))"

text \<open>\<open>try: ... finally: ...\<close>\<close>

definition finallyp :: "('s, 'a) prog \<Rightarrow> ('s, unit) prog \<Rightarrow> ('s, 'a) prog" where
  "finallyp m n s = (case m s of (r, s') \<Rightarrow> case n s' of (Inl e, s'') \<Rightarrow> (Inl e, s'') | (Inr _, s'') \<Rightarrow> (r, s''))"

abbreviation seqp :: "('s, unit) prog \<Rightarrow> ('s, 'b) prog \<Rightarrow> ('s, 'b) prog" where
  "seqp m n \<equiv> bnd m (\<lambda>_. n)"

fun for_each :: "'a list \<Rightarrow> ('a \<Rightarrow> ('s, unit) prog) \<Rightarrow> ('s, unit) prog" where
  "for_each [] f = ret ()"
| "for_each (x # xs) f = seqp (f x) (for_each xs f)"

section \<open>Settings and request schemas\<close>

record settings =
  host :: string
  port :: int
  log_level :: string
  model_path :: string
  n_ctx :: int
  n_seq_max :: int
  kv_block_size :: int
  chunk_size :: int
  max_queue_depth :: int
  scheduling_policy_name :: string
  prefix_cache_enabled :: bool
  queue_timeout_seconds :: float64
  generation_timeout_seconds :: float64

definition default_settings :: "string \<Rightarrow> settings" where
  "default_settings path =
     \<lparr>host = ''127.0.0.1'', port = 8000, log_level = ''info'', model_path = path, n_ctx = 2048,
      n_seq_max = 4, kv_block_size = 16, chunk_size = 512, max_queue_depth = 128,
      scheduling_policy_name = ''wfq'', prefix_cache_enabled = True, queue_timeout_seconds = 30,
      generation_timeout_seconds = 120\<rparr>"

record generate_request =
  gr_prompt :: ustring
  gr_max_tokens :: int
  gr_stream :: bool
  gr_priority :: int

definition generate_request_valid :: "generate_request \<Rightarrow> bool" where
  "generate_request_valid body \<longleftrightarrow> 1 \<le> length (gr_prompt body)
     \<and> 0 < gr_max_tokens body \<and> gr_max_tokens body \<le> 4096 \<and> 1 \<le> gr_priority body"

definition default_generate_request :: "ustring \<Rightarrow> generate_request" where
  "default_generate_request prompt =
     \<lparr>gr_prompt = prompt, gr_max_tokens = 128, gr_stream = False, gr_priority = 1\<rparr>"

definition policy_request_valid :: "string \<Rightarrow> bool" where
  "policy_request_valid name \<longleftrightarrow> 1 \<le> length name"

record config_response =
  cr_scheduling_policy :: string
  cr_n_seq_max :: int
  cr_n_ctx :: int
  cr_kv_block_size :: int
  cr_max_queue_depth :: int
  cr_prefix_cache_enabled :: bool
  cr_model_path :: string

section \<open>The state of the server\<close>

record request_state =
  rs_seq_id :: int
  remaining_tokens :: int
  rs_arrival_ts :: float64
  admitted_ts :: float64
  tokens_emitted :: int
  last_token_ts :: "float64 option"

record active_policy =
  ap_policy :: policy
  ap_name :: string

definition active_policy_set :: "string \<Rightarrow> active_policy \<Rightarrow> active_policy res" where
  "active_policy_set name ap =
     res_bind (create_policy name) (\<lambda>p. Inr (ap\<lparr>ap_policy := p, ap_name := name\<rparr>))"

datatype loop_state =
    AtTop
  | AwaitArrival
  | AwaitDecode prepared_batch float64
  | Crashed py_error

datatype event =
    Accepted string "int list" int
  | TokenPushed string int
  | Closed string "string option"
  | TextRead string ustring
  | StreamEnded string

record 'm server =
  sv_settings :: settings
  sv_runtime :: "'m runtime"
  sv_queue :: request_queue
  sv_streams :: stream_manager
  sv_kv :: kv_cache_manager
  sv_policy :: active_policy
  sv_prefix :: "backend option"
  sv_metrics :: "metric_event list"
  sv_tracer :: tracer
  sv_active :: "(string, active_sequence) dict"
  sv_requests :: "(string, request_state) dict"
  sv_free_slots :: "int list"
  sv_loop :: loop_state
  sv_clock :: nat
  sv_trace :: "event list"

text \<open>\<open>prometheus_client\<close> raises \<open>ValueError\<close> on wrong labels and on a negative increment.\<close>

definition emit :: "metric_event \<Rightarrow> ('m server, unit) prog" where
  "emit e s = (if event_ok e then (Inr (), s\<lparr>sv_metrics := sv_metrics s @ [e]\<rparr>) else (Inl ValueError, s))"

definition monotonic :: "(nat \<Rightarrow> float64) \<Rightarrow> ('m server, float64) prog" where
  "monotonic clk s = (Inr (clk (sv_clock s)), s\<lparr>sv_clock := Suc (sv_clock s)\<rparr>)"

definition note_event :: "event \<Rightarrow> ('m server, unit) prog" where
  "note_event e = upd (\<lambda>s. s\<lparr>sv_trace := sv_trace s @ [e]\<rparr>)"

definition trace_op :: "(tracer \<Rightarrow> tracer) \<Rightarrow> ('m server, unit) prog" where
  "trace_op f = upd (\<lambda>s. s\<lparr>sv_tracer := f (sv_tracer s)\<rparr>)"

section \<open>The nested functions of batch\_loop\<close>

text \<open>\<open>free_slots.pop()\<close> takes the last slot and raises on an empty list.\<close>

definition pop_slot :: "('m server, int) prog" where
  "pop_slot s = (if sv_free_slots s = [] then (Inl IndexError, s)
     else (Inr (last (sv_free_slots s)), s\<lparr>sv_free_slots := butlast (sv_free_slots s)\<rparr>))"

text \<open>The two mutations of the prefix cache, with the gauge that follows each.\<close>

definition publish_prefix :: "int list \<Rightarrow> int \<Rightarrow> backend \<Rightarrow> ('m server, unit) prog" where
  "publish_prefix tokens sid c =
     bnd (lift (be_insert tokens sid c)) (\<lambda>(n, c').
     seqp (upd (\<lambda>s. s\<lparr>sv_prefix := Some c'\<rparr>))
          (emit (MSet ''prefix_cache_nodes'' [] (of_int (be_node_count c')))))"

definition claim_prefix :: "'m llama_lib \<Rightarrow> pending_request \<Rightarrow> int \<Rightarrow> ('m server, int) prog" where
  "claim_prefix lib request sid =
     bnd (gets sv_prefix) (\<lambda>pc. case pc of
       None \<Rightarrow> ret 0
     | Some c \<Rightarrow>
         bnd (lift (be_match_for_reuse (prompt_tokens request) c)) (\<lambda>(hit, c1).
         seqp (upd (\<lambda>s. s\<lparr>sv_prefix := Some c1\<rparr>))
        (bnd (if is_hit hit
              then bnd (call (\<lambda>s. case reuse_prefix lib (match_seq_id hit) sid (n_tokens hit) (sv_runtime s) of
                          (ok, rt) \<Rightarrow> (ok, s\<lparr>sv_runtime := rt\<rparr>))) (\<lambda>ok.
                     if ok
                     then seqp (emit (MInc ''prefill_tokens_reused_total'' [] (n_tokens hit)))
                         (seqp (emit (MInc ''prefix_cache_lookups_total'' [''hit''] 1)) (ret (n_tokens hit)))
                     else seqp (emit (MInc ''prefix_cache_lookups_total'' [''stale_donor''] 1)) (ret 0))
              else seqp (emit (MInc ''prefix_cache_lookups_total'' [''miss''] 1)) (ret 0)) (\<lambda>reused.
         seqp (publish_prefix (prompt_tokens request) sid c1) (ret reused)))))"

definition admit :: "'m llama_lib \<Rightarrow> (nat \<Rightarrow> float64) \<Rightarrow> pending_request \<Rightarrow> ('m server, unit) prog" where
  "admit lib clk request =
     bnd (monotonic clk) (\<lambda>now.
     bnd pop_slot (\<lambda>sid.
     bnd (claim_prefix lib request sid) (\<lambda>past.
     seqp (upd (\<lambda>s. s\<lparr>sv_active := dict_set (req_id request)
        \<lparr>seq_id = sid, pending_tokens = py_drop past (prompt_tokens request), n_past = past\<rparr> (sv_active s)\<rparr>))
     (seqp (upd (\<lambda>s. s\<lparr>sv_requests := dict_set (req_id request)
        \<lparr>rs_seq_id = sid, remaining_tokens = max_tokens request, rs_arrival_ts = arrival_ts request,
         admitted_ts = now, tokens_emitted = 0, last_token_ts = None\<rparr> (sv_requests s)\<rparr>))
     (seqp (emit (MInc ''prefill_tokens_total'' [] (int (length (prompt_tokens request)))))
     (seqp (emit (MObserve ''queue_wait_seconds'' (fsub now (arrival_ts request))))
     (bnd (gets (\<lambda>s. ap_name (sv_policy s))) (\<lambda>pname.
     seqp (emit (MInc ''scheduler_policy_decision_total'' [pname, ''admitted''] 1))
     (seqp (trace_op (end_span (req_id request) ''queue_wait''))
           (trace_op (start_span (req_id request) ''generation'')))))))))))"

definition evict_prefix :: "int \<Rightarrow> ('m server, unit) prog" where
  "evict_prefix sid =
     bnd (gets sv_prefix) (\<lambda>pc. case pc of
       None \<Rightarrow> ret ()
     | Some c \<Rightarrow> bnd (lift (be_evict sid c)) (\<lambda>c'.
         seqp (upd (\<lambda>s. s\<lparr>sv_prefix := Some c'\<rparr>))
              (emit (MSet ''prefix_cache_nodes'' [] (of_int (be_node_count c'))))))"

definition pop_request :: "string \<Rightarrow> ('m server, request_state) prog" where
  "pop_request rid s = (case dict_pop (sv_requests s) rid of
     Inl e \<Rightarrow> (Inl e, s) | Inr (st, d) \<Rightarrow> (Inr st, s\<lparr>sv_requests := d\<rparr>))"

definition pop_active :: "string \<Rightarrow> ('m server, unit) prog" where
  "pop_active rid s = (case dict_pop (sv_active s) rid of
     Inl e \<Rightarrow> (Inl e, s) | Inr (sq, d) \<Rightarrow> (Inr (), s\<lparr>sv_active := d\<rparr>))"

definition finish :: "'m llama_lib \<Rightarrow> (nat \<Rightarrow> float64) \<Rightarrow> string \<Rightarrow> string option \<Rightarrow> ('m server, unit) prog" where
  "finish lib clk rid cancel_reason =
     bnd (pop_request rid) (\<lambda>st.
     seqp (evict_prefix (rs_seq_id st))
     (seqp (upd (\<lambda>s. s\<lparr>sv_runtime := free_sequence lib (rs_seq_id st) (sv_runtime s)\<rparr>))
     (seqp (upd (\<lambda>s. s\<lparr>sv_free_slots := sv_free_slots s @ [rs_seq_id st]\<rparr>))
     (seqp (pop_active rid)
     (seqp (upd (\<lambda>s. s\<lparr>sv_kv := release rid (sv_kv s)\<rparr>))
     (seqp (upd (\<lambda>s. s\<lparr>sv_streams := stream_close rid (sv_streams s)\<rparr>))
     (seqp (note_event (Closed rid cancel_reason))
     (seqp (case cancel_reason of None \<Rightarrow> ret () | Some r \<Rightarrow> emit (MInc ''cancellations_total'' [r] 1))
     (seqp (if tokens_emitted st > 0
            then bnd (monotonic clk) (\<lambda>now.
                   bnd (lift (fdiv (of_int (tokens_emitted st)) (fsub now (admitted_ts st)))) (\<lambda>tps.
                   emit (MObserve ''tokens_per_second'' tps)))
            else ret ())
     (seqp (trace_op (end_span rid ''generation''))
           (trace_op (end_request rid [(''completion_tokens'', AInt (tokens_emitted st))]))))))))))))"

definition remove_waiting :: "string \<Rightarrow> ('m server, unit) prog" where
  "remove_waiting rid s = (case queue_remove rid (sv_queue s) of
     Inl e \<Rightarrow> (Inl e, s) | Inr (r, q) \<Rightarrow> (Inr (), s\<lparr>sv_queue := q\<rparr>))"

definition expire_waiter :: "float64 \<Rightarrow> pending_request \<Rightarrow> ('m server, unit) prog" where
  "expire_waiter now request =
     bnd (gets (\<lambda>s. queue_timeout_seconds (sv_settings s))) (\<lambda>timeout.
     if fsub now (arrival_ts request) > timeout
     then seqp (remove_waiting (req_id request))
         (seqp (upd (\<lambda>s. s\<lparr>sv_kv := release (req_id request) (sv_kv s)\<rparr>))
         (seqp (upd (\<lambda>s. s\<lparr>sv_streams := stream_close (req_id request) (sv_streams s)\<rparr>))
         (seqp (note_event (Closed (req_id request) (Some ''queue_timeout'')))
         (seqp (emit (MInc ''cancellations_total'' [''queue_timeout''] 1))
         (seqp (trace_op (end_span (req_id request) ''queue_wait''))
               (trace_op (end_request (req_id request) [(''completion_tokens'', AInt 0)])))))))
     else ret ())"

definition expire_stale_waiters :: "(nat \<Rightarrow> float64) \<Rightarrow> ('m server, unit) prog" where
  "expire_stale_waiters clk =
     bnd (monotonic clk) (\<lambda>now.
     bnd (gets (\<lambda>s. waiting (sv_queue s))) (\<lambda>ws. for_each ws (expire_waiter now)))"

section \<open>The body of the loop\<close>

definition admit_chosen :: "'m llama_lib \<Rightarrow> (nat \<Rightarrow> float64) \<Rightarrow> pending_request \<Rightarrow> ('m server, unit) prog" where
  "admit_chosen lib clk request = seqp (remove_waiting (req_id request)) (admit lib clk request)"

definition run_policy :: "('m server, pending_request list) prog" where
  "run_policy s = (case select (ap_policy (sv_policy s)) (waiting (sv_queue s)) (int (length (sv_free_slots s))) of
     Inl e \<Rightarrow> (Inl e, s)
   | Inr (chosen, p) \<Rightarrow> (Inr chosen, s\<lparr>sv_policy := (sv_policy s)\<lparr>ap_policy := p\<rparr>\<rparr>))"

definition schedule :: "'m llama_lib \<Rightarrow> (nat \<Rightarrow> float64) \<Rightarrow> ('m server, unit) prog" where
  "schedule lib clk =
     bnd (gets sv_free_slots) (\<lambda>slots.
     if slots \<noteq> [] then bnd run_policy (\<lambda>chosen. for_each chosen (admit_chosen lib clk)) else ret ())"

definition set_gauges :: "('m server, unit) prog" where
  "set_gauges =
     bnd (gets (\<lambda>s. (queue_depth (sv_queue s), available_blocks (sv_kv s), total_blocks (sv_kv s)))) (\<lambda>(d, a, t).
     seqp (emit (MSet ''queue_depth'' [] (of_int d)))
     (seqp (emit (MSet ''kv_blocks_free'' [] (of_int a)))
           (emit (MSet ''kv_blocks_used'' [] (of_int (t - a))))))"

text \<open>
  From the gauges to the \<open>await\<close> of the decode call. An empty batch goes back to the top of the loop
  through \<open>asyncio.sleep(0)\<close>.
\<close>

definition start_tick :: "'m llama_lib \<Rightarrow> (nat \<Rightarrow> float64) \<Rightarrow> ('m server, unit) prog" where
  "start_tick lib clk =
     seqp set_gauges
     (seqp (schedule lib clk)
     (bnd (gets (\<lambda>s. build_batch (vals (sv_active s)) (batch_capacity (sv_runtime s)) (chunk_size (sv_settings s)))) (\<lambda>prepared.
     if prepared = [] then upd (\<lambda>s. s\<lparr>sv_loop := AtTop\<rparr>)
     else bnd (monotonic clk) (\<lambda>decode_started. upd (\<lambda>s. s\<lparr>sv_loop := AwaitDecode prepared decode_started\<rparr>)))))"

text \<open>
  One pass of \<open>wait_until_nonempty\<close>: when the queue has something, \<open>expire_stale_waiters\<close> runs again
  and the tick starts; otherwise the coroutine suspends on the event.
\<close>

definition wait_pass :: "'m llama_lib \<Rightarrow> (nat \<Rightarrow> float64) \<Rightarrow> ('m server, unit) prog" where
  "wait_pass lib clk =
     bnd (call (\<lambda>s. case wait_check (sv_queue s) of (ready, q) \<Rightarrow> (ready, s\<lparr>sv_queue := q\<rparr>))) (\<lambda>ready.
     if ready then seqp (expire_stale_waiters clk) (start_tick lib clk)
     else upd (\<lambda>s. s\<lparr>sv_loop := AwaitArrival\<rparr>))"

definition loop_top :: "'m llama_lib \<Rightarrow> (nat \<Rightarrow> float64) \<Rightarrow> ('m server, unit) prog" where
  "loop_top lib clk =
     seqp (expire_stale_waiters clk)
     (bnd (gets (\<lambda>s. sv_active s = [] \<and> queue_depth (sv_queue s) = 0)) (\<lambda>idle.
     if idle then wait_pass lib clk else start_tick lib clk))"

text \<open>The bookkeeping after a successful decode: one sequence of the batch.\<close>

definition advance_seq :: "(int, string) dict \<Rightarrow> prepared_batch \<Rightarrow> int \<Rightarrow> ('m server, unit) prog" where
  "advance_seq request_id_of prepared sid =
     bnd (lift (dict_item request_id_of sid)) (\<lambda>rid.
     bnd (asks (\<lambda>s. dict_item (sv_active s) rid)) (\<lambda>sq.
     let consumed = row_count prepared sid in
     upd (\<lambda>s. s\<lparr>sv_active := dict_set rid
       (sq\<lparr>n_past := n_past sq + consumed, pending_tokens := py_drop consumed (pending_tokens sq)\<rparr>) (sv_active s)\<rparr>)))"

text \<open>The body of the loop over the sampled tokens.\<close>

definition push_sampled :: "'m llama_lib \<Rightarrow> float64 \<Rightarrow> string \<Rightarrow> active_sequence \<Rightarrow> request_state \<Rightarrow> int \<Rightarrow> ('m server, unit) prog" where
  "push_sampled lib now rid sq st token =
     seqp (if tokens_emitted st = 0 then emit (MObserve ''ttft_seconds'' (fsub now (rs_arrival_ts st)))
           else (case last_token_ts st of
                   None \<Rightarrow> ret ()
                 | Some prev \<Rightarrow> emit (MObserve ''inter_token_latency_seconds'' (fsub now prev))))
     (seqp (upd (\<lambda>s. s\<lparr>sv_requests := dict_set rid
              (st\<lparr>tokens_emitted := tokens_emitted st + 1, last_token_ts := Some now\<rparr>) (sv_requests s)\<rparr>))
     (seqp (upd (\<lambda>s. s\<lparr>sv_streams := push_token rid (detokenize lib [token]) (sv_streams s)\<rparr>))
     (seqp (note_event (TokenPushed rid token))
           (upd (\<lambda>s. s\<lparr>sv_active := dict_set rid (sq\<lparr>pending_tokens := [token]\<rparr>) (sv_active s)\<rparr>)))))"

definition handle_token :: "'m llama_lib \<Rightarrow> (nat \<Rightarrow> float64) \<Rightarrow> (int, string) dict \<Rightarrow> float64 \<Rightarrow> int \<times> int \<Rightarrow> ('m server, unit) prog" where
  "handle_token lib clk request_id_of now = (\<lambda>(sid, token).
     bnd (lift (dict_item request_id_of sid)) (\<lambda>rid.
     bnd (asks (\<lambda>s. dict_item (sv_active s) rid)) (\<lambda>sq.
     bnd (asks (\<lambda>s. dict_item (sv_requests s) rid)) (\<lambda>st0.
     let st = st0\<lparr>remaining_tokens := remaining_tokens st0 - 1\<rparr> in
     seqp (upd (\<lambda>s. s\<lparr>sv_requests := dict_set rid st (sv_requests s)\<rparr>))
     (bnd (gets (\<lambda>s. (rt_eos (sv_runtime s), is_cancelled rid (sv_streams s), generation_timeout_seconds (sv_settings s)))) (\<lambda>(eos, gone, limit).
     if token = eos \<or> remaining_tokens st \<le> 0 then finish lib clk rid None
     else if gone then finish lib clk rid (Some ''client_disconnect'')
     else if fsub now (admitted_ts st) > limit then finish lib clk rid (Some ''generation_timeout'')
     else push_sampled lib now rid sq st token))))))"

text \<open>
  \<open>distinct_seq_ids\<close> is a set; the updates it drives are on different sequences, so the order in
  which it is visited does not matter, and the model takes the order of the rows.
\<close>

definition after_decode :: "'m llama_lib \<Rightarrow> (nat \<Rightarrow> float64) \<Rightarrow> prepared_batch \<Rightarrow> float64 \<Rightarrow> (int, int) dict \<Rightarrow> ('m server, unit) prog" where
  "after_decode lib clk prepared decode_started sampled =
     (let distinct_seq_ids = remdups (map row_seq_id prepared) in
     bnd (monotonic clk) (\<lambda>t.
     seqp (emit (MObserve ''decode_step_duration_seconds'' (fsub t decode_started)))
     (seqp (emit (MObserve ''batch_size_tokens'' (of_nat (length prepared))))
     (seqp (emit (MObserve ''batch_size_requests'' (of_nat (length distinct_seq_ids))))
     (bnd (asks (\<lambda>s. fdiv (of_nat (length prepared)) (of_int (batch_capacity (sv_runtime s))))) (\<lambda>u.
     seqp (emit (MObserve ''batch_utilization'' u))
     (bnd (gets (\<lambda>s. foldl (\<lambda>d (rid, st). dict_set (rs_seq_id st) rid d) [] (sv_requests s))) (\<lambda>request_id_of.
     seqp (for_each distinct_seq_ids (advance_seq request_id_of prepared))
     (bnd (monotonic clk) (\<lambda>now.
     for_each sampled (handle_token lib clk request_id_of now)))))))))))"

definition loop_decoded :: "'m llama_lib \<Rightarrow> (nat \<Rightarrow> float64) \<Rightarrow> prepared_batch \<Rightarrow> float64 \<Rightarrow> ('m server, unit) prog" where
  "loop_decoded lib clk prepared decode_started =
     bnd (call (\<lambda>s. case decode lib prepared (sv_runtime s) of (r, rt) \<Rightarrow> (r, s\<lparr>sv_runtime := rt\<rparr>))) (\<lambda>r.
     seqp (case r of
             Inl MemoryFault \<Rightarrow> raise MemoryFault
           | Inl e \<Rightarrow> bnd (gets (\<lambda>s. keys (sv_requests s))) (\<lambda>rids.
                        for_each rids (\<lambda>rid. finish lib clk rid (Some ''decode_error'')))
           | Inr sampled \<Rightarrow> after_decode lib clk prepared decode_started sampled)
          (upd (\<lambda>s. s\<lparr>sv_loop := AtTop\<rparr>)))"

text \<open>An exception that leaves \<open>batch_loop\<close> ends its task.\<close>

definition run_loop :: "('m server, unit) prog \<Rightarrow> 'm server \<Rightarrow> 'm server" where
  "run_loop m s = (case m s of (Inl e, s') \<Rightarrow> s'\<lparr>sv_loop := Crashed e\<rparr> | (Inr _, s') \<Rightarrow> s')"

definition loop_step :: "'m llama_lib \<Rightarrow> (nat \<Rightarrow> float64) \<Rightarrow> 'm server \<Rightarrow> 'm server" where
  "loop_step lib clk s =
     (case sv_loop s of
        AtTop \<Rightarrow> run_loop (loop_top lib clk) s
      | AwaitArrival \<Rightarrow> if arrived (sv_queue s) then run_loop (wait_pass lib clk) s else s
      | AwaitDecode prepared decode_started \<Rightarrow> run_loop (loop_decoded lib clk prepared decode_started) s
      | Crashed e \<Rightarrow> s)"

section \<open>Start-up and the HTTP handlers\<close>

text \<open>
  \<open>lifespan\<close>. \<open>native\<close> is what \<open>NativePrefixCache.load_library\<close> finds, \<open>ctx\<close> the fresh context of the llama
  library.
\<close>

definition lifespan :: "'m llama_lib \<Rightarrow> string option \<Rightarrow> 'm \<Rightarrow> settings \<Rightarrow> 'm server res" where
  "lifespan lib native ctx st =
     res_bind (kv_init (n_ctx st) (kv_block_size st)) (\<lambda>kv.
     res_bind (create_policy (scheduling_policy_name st)) (\<lambda>pol.
     res_bind (if prefix_cache_enabled st
               then res_bind (create_prefix_cache native (kv_block_size st) True) (\<lambda>c. Inr (Some c)) else Inr None) (\<lambda>pc.
     Inr \<lparr>sv_settings = st, sv_runtime = runtime_init lib ctx (n_ctx st), sv_queue = queue_init,
          sv_streams = [], sv_kv = kv,
          sv_policy = \<lparr>ap_policy = pol, ap_name = scheduling_policy_name st\<rparr>, sv_prefix = pc,
          sv_metrics = [MSet ''prefix_cache_backend_info'' [case pc of None \<Rightarrow> ''disabled'' | Some c \<Rightarrow> be_name c] 1],
          sv_tracer = tracer_init, sv_active = [], sv_requests = [],
          sv_free_slots = map int [0..<nat (n_seq_max st)], sv_loop = AtTop, sv_clock = 0, sv_trace = []\<rparr>)))"

datatype response =
    HealthOk
  | UnprocessableEntity
  | BadRequest
  | ServiceUnavailable string
  | InternalServerError py_error
  | Config config_response
  | StreamingBody string
  | CollectedBody string
  | FileBody string string "(string \<times> string) list"
  | PlainBody bytes string

definition get_config :: "'m server \<Rightarrow> config_response" where
  "get_config s =
     \<lparr>cr_scheduling_policy = ap_name (sv_policy s), cr_n_seq_max = n_seq_max (sv_settings s),
      cr_n_ctx = n_ctx (sv_settings s), cr_kv_block_size = kv_block_size (sv_settings s),
      cr_max_queue_depth = max_queue_depth (sv_settings s),
      cr_prefix_cache_enabled = prefix_cache_enabled (sv_settings s), cr_model_path = model_path (sv_settings s)\<rparr>"

definition set_policy :: "string \<Rightarrow> 'm server \<Rightarrow> response \<times> 'm server" where
  "set_policy name s =
     (if \<not> policy_request_valid name then (UnprocessableEntity, s)
      else case active_policy_set name (sv_policy s) of
        Inl e \<Rightarrow> (if e = ValueError then BadRequest else InternalServerError e, s)
      | Inr ap \<Rightarrow> let s' = s\<lparr>sv_policy := ap\<rparr> in (Config (get_config s'), s'))"

text \<open>\<open>RequestTracer.span\<close> as a context manager around \<open>body\<close>: the span ends on both ways out.\<close>

definition in_span :: "string \<Rightarrow> string \<Rightarrow> ('m server, 'a) prog \<Rightarrow> ('m server, 'a) prog" where
  "in_span rid name body =
     seqp (trace_op (start_span rid name)) (finallyp body (trace_op (end_span rid name)))"

definition admission_span :: "string \<Rightarrow> int \<Rightarrow> int \<Rightarrow> ('m server, admission_result) prog" where
  "admission_span rid prompt_len max_toks =
     in_span rid ''admission'' (\<lambda>s.
       case admit_request (max_queue_depth (sv_settings s)) rid prompt_len max_toks (queue_depth (sv_queue s)) (sv_kv s) of
         Inl e \<Rightarrow> (Inl e, s)
       | Inr (result, kv) \<Rightarrow> (Inr result, s\<lparr>sv_kv := kv\<rparr>))"

definition enqueue :: "(nat \<Rightarrow> float64) \<Rightarrow> string \<Rightarrow> int list \<Rightarrow> generate_request \<Rightarrow> ('m server, unit) prog" where
  "enqueue clk rid tokens body =
     seqp (upd (\<lambda>s. s\<lparr>sv_streams := stream_create rid (sv_streams s)\<rparr>))
     (seqp (trace_op (start_span rid ''queue_wait''))
     (bnd (monotonic clk) (\<lambda>now.
     seqp (upd (\<lambda>s. s\<lparr>sv_queue := push \<lparr>req_id = rid, prompt_tokens = tokens, max_tokens = gr_max_tokens body,
              priority = gr_priority body, arrival_ts = now\<rparr> (sv_queue s)\<rparr>))
           (note_event (Accepted rid tokens (gr_max_tokens body))))))"

definition generate_body :: "'m llama_lib \<Rightarrow> (nat \<Rightarrow> float64) \<Rightarrow> string \<Rightarrow> generate_request \<Rightarrow> ('m server, response) prog" where
  "generate_body lib clk rid body =
     bnd (lift (tokenize lib (gr_prompt body))) (\<lambda>tokens.
     seqp (trace_op (start_request rid [(''prompt_tokens'', AInt (int (length tokens))), (''max_tokens'', AInt (gr_max_tokens body))]))
     (bnd (admission_span rid (int (length tokens)) (gr_max_tokens body)) (\<lambda>result.
     if \<not> accepted result
     then seqp (emit (MInc ''admission_rejected_total'' [the (reason result)] 1))
         (seqp (trace_op (end_request rid [(''rejected'', ABool True)]))
               (ret (ServiceUnavailable (the (reason result)))))
     else seqp (emit (MInc ''admission_accepted_total'' [] 1))
         (seqp (enqueue clk rid tokens body)
               (ret (if gr_stream body then StreamingBody rid else CollectedBody rid))))))"

definition generate :: "'m llama_lib \<Rightarrow> (nat \<Rightarrow> float64) \<Rightarrow> string \<Rightarrow> generate_request \<Rightarrow> 'm server \<Rightarrow> response \<times> 'm server" where
  "generate lib clk rid body s =
     (if \<not> generate_request_valid body then (UnprocessableEntity, s)
      else case generate_body lib clk rid body s of
        (Inl e, s') \<Rightarrow> (InternalServerError e, s')
      | (Inr r, s') \<Rightarrow> (r, s'))"

text \<open>
  The two remaining routes read only: the demo page is a file (\<open>_DEMO_PAGE\<close>, relative to the module), and the
  metrics are rendered by the metrics library, whose \<open>generate_latest\<close> and content type are arguments.
\<close>

definition demo_page :: "'m server \<Rightarrow> response" where
  "demo_page s = FileBody ''static/demo.html'' ''text/html'' [(''Cache-Control'', ''no-store'')]"

definition metrics_endpoint :: "(metric_event list \<Rightarrow> bytes) \<Rightarrow> string \<Rightarrow> 'm server \<Rightarrow> response" where
  "metrics_endpoint generate_latest content_type s = PlainBody (generate_latest (sv_metrics s)) content_type"

definition healthz :: "'m server \<Rightarrow> response" where
  "healthz s = HealthOk"

text \<open>The body of a collected answer: \<open>"".join(chunks)\<close> over the texts the handler has taken from its stream.\<close>

record generate_response =
  gresp_text :: ustring

definition collected_response :: "ustring list \<Rightarrow> generate_response" where
  "collected_response chunks = \<lparr>gresp_text = concat chunks\<rparr>"

section \<open>Shutdown\<close>

text \<open>
  The part of \<open>lifespan\<close> after its \<open>yield\<close>. \<open>cancel\<close> does nothing to a task that is done; otherwise
  \<open>CancelledError\<close> is raised at the \<open>await\<close> where the loop is suspended (before its first line when it has not
  run yet), and \<open>except Exception\<close> does not catch it. A decode call that is under way goes on in its
  thread; its result is dropped. The runtime and the prefix cache are not closed.
\<close>

definition lifespan_exit :: "'m server \<Rightarrow> 'm server" where
  "lifespan_exit s = (case sv_loop s of Crashed e \<Rightarrow> s | _ \<Rightarrow> s\<lparr>sv_loop := Crashed CancelledError\<rparr>)"

section \<open>Consumers\<close>

text \<open>
  One pass of the consumer of a stream, seen from the server: the list comprehension of \<open>generate\<close> for
  a collected answer, the loop of \<open>_sse_events\<close> (\<open>sse_events_step\<close>) for a streaming one.
\<close>

definition consume :: "string \<Rightarrow> 'm server \<Rightarrow> 'm server" where
  "consume rid s =
     (case subscribe_step rid (sv_streams s) of
        Inl e \<Rightarrow> s
      | Inr (Yield t, m) \<Rightarrow> s\<lparr>sv_streams := m, sv_trace := sv_trace s @ [TextRead rid t]\<rparr>
      | Inr (Stop, m) \<Rightarrow> s\<lparr>sv_streams := m, sv_trace := sv_trace s @ [StreamEnded rid]\<rparr>
      | Inr (Blocked, m) \<Rightarrow> s\<lparr>sv_streams := m\<rparr>)"

section \<open>The running server\<close>

definition accepted_ids :: "event list \<Rightarrow> string set" where
  "accepted_ids tr = {rid. \<exists>p m. Accepted rid p m \<in> set tr}"

text \<open>
  The steps. What clients and handlers do: a request arrives under a fresh identifier (\<open>uuid4\<close>), the
  policy is swapped, a consumer takes one item, a client disconnects, a consumer task is torn down and
  its \<open>finally\<close> clause runs. In between, the batch loop runs to its next suspension.
\<close>

inductive client_step :: "'m llama_lib \<Rightarrow> (nat \<Rightarrow> float64) \<Rightarrow> 'm server \<Rightarrow> 'm server \<Rightarrow> bool" for lib clk where
  step_generate: "rid \<notin> accepted_ids (sv_trace s) \<Longrightarrow> generate lib clk rid body s = (r, s') \<Longrightarrow> client_step lib clk s s'"
| step_set_policy: "set_policy name s = (r, s') \<Longrightarrow> client_step lib clk s s'"
| step_consume: "client_step lib clk s (consume rid s)"
| step_disconnect: "client_step lib clk s (s\<lparr>sv_streams := cancel rid (sv_streams s)\<rparr>)"
| step_teardown: "client_step lib clk s (s\<lparr>sv_streams := subscribe_exit rid (sv_streams s)\<rparr>)"

inductive server_step :: "'m llama_lib \<Rightarrow> (nat \<Rightarrow> float64) \<Rightarrow> 'm server \<Rightarrow> 'm server \<Rightarrow> bool" for lib clk where
  step_loop: "server_step lib clk s (loop_step lib clk s)"
| step_client: "client_step lib clk s s' \<Longrightarrow> server_step lib clk s s'"

inductive reachable :: "'m llama_lib \<Rightarrow> (nat \<Rightarrow> float64) \<Rightarrow> 'm server \<Rightarrow> 'm server \<Rightarrow> bool" for lib clk s0 where
  reach_init: "reachable lib clk s0 s0"
| reach_step: "reachable lib clk s0 s \<Longrightarrow> server_step lib clk s s' \<Longrightarrow> reachable lib clk s0 s'"

text \<open>Runs in which the loop is resumed a given number of times, the clients stepping in between.\<close>

inductive run_count :: "'m llama_lib \<Rightarrow> (nat \<Rightarrow> float64) \<Rightarrow> nat \<Rightarrow> 'm server \<Rightarrow> 'm server \<Rightarrow> bool" for lib clk where
  rc_start: "run_count lib clk 0 s s"
| rc_loop: "run_count lib clk n s t \<Longrightarrow> run_count lib clk (Suc n) s (loop_step lib clk t)"
| rc_client: "run_count lib clk n s t \<Longrightarrow> client_step lib clk t u \<Longrightarrow> run_count lib clk n s u"

inductive_cases client_stepE: "client_step lib clk s s'"
inductive_cases server_stepE: "server_step lib clk s s'"

end
