(* ===== verification/Server_Inv.thy ===== *)
theory Server_Inv
  imports Server_Model
begin

text \<open>
  The invariant of the running server and the lemmas that carry it. It is a conjunction of small
  predicates over the components of the state, so that an operation only has to be considered where
  it changes something: identifiers and reservations (\<open>ids_inv\<close>), concurrency slots (\<open>slots_inv\<close>), the
  KV-cache contents and budget of every running request (\<open>live_inv\<close>), waiting requests (\<open>wait_inv\<close>), the
  prefix cache (\<open>prefix_inv\<close>), the token history (\<open>hist_inv\<close>), the streams (\<open>str_inv\<close>) and the tracer
  (\<open>spans_inv\<close>).
\<close>

section \<open>Reading the history\<close>

fun acc :: "string \<Rightarrow> event list \<Rightarrow> (int list \<times> int) option" where
  "acc r [] = None"
| "acc r (Accepted r' p m # es) = (if r' = r then Some (p, m) else acc r es)"
| "acc r (_ # es) = acc r es"

fun toks :: "string \<Rightarrow> event list \<Rightarrow> int list" where
  "toks r [] = []"
| "toks r (TokenPushed r' t # es) = (if r' = r then t # toks r es else toks r es)"
| "toks r (_ # es) = toks r es"

fun reads :: "string \<Rightarrow> event list \<Rightarrow> ustring" where
  "reads r [] = []"
| "reads r (TextRead r' t # es) = (if r' = r then t @ reads r es else reads r es)"
| "reads r (_ # es) = reads r es"

text \<open>The texts a consumer has taken, in order.\<close>

fun chunks_read :: "string \<Rightarrow> event list \<Rightarrow> ustring list" where
  "chunks_read r [] = []"
| "chunks_read r (TextRead r' t # es) = (if r' = r then t # chunks_read r es else chunks_read r es)"
| "chunks_read r (_ # es) = chunks_read r es"

lemma concat_chunks_read: "concat (chunks_read r es) = reads r es"
  by (induction r es rule: chunks_read.induct) auto

lemma acc_append: "acc r (xs @ ys) = (case acc r xs of None \<Rightarrow> acc r ys | Some v \<Rightarrow> Some v)"
  by (induction r xs rule: acc.induct) auto

lemma toks_append [simp]: "toks r (xs @ ys) = toks r xs @ toks r ys"
  by (induction r xs rule: toks.induct) auto

lemma reads_append [simp]: "reads r (xs @ ys) = reads r xs @ reads r ys"
  by (induction r xs rule: reads.induct) auto

lemma acc_snoc [simp]:
  "acc r (xs @ [TokenPushed r' t]) = acc r xs" "acc r (xs @ [Closed r' c]) = acc r xs"
  "acc r (xs @ [TextRead r' u]) = acc r xs" "acc r (xs @ [StreamEnded r']) = acc r xs"
  by (auto simp: acc_append split: option.splits)

lemma acc_accepted: "acc r tr \<noteq> None \<longleftrightarrow> r \<in> accepted_ids tr"
  unfolding accepted_ids_def by (induction r tr rule: acc.induct) auto

text \<open>The tokens are the greedy continuation of the prompt, and none of them is the end token.\<close>

definition chain :: "(int list \<Rightarrow> float64 list) \<Rightarrow> int \<Rightarrow> int list \<Rightarrow> int list \<Rightarrow> bool" where
  "chain lm eos p ts \<longleftrightarrow> (\<forall>i < length ts. ts ! i = greedy lm (p @ take i ts) \<and> ts ! i \<noteq> eos)"

lemma chain_Nil [simp]: "chain lm eos p []"
  by (simp add: chain_def)

lemma chain_snoc: "chain lm eos p (ts @ [t]) \<longleftrightarrow> chain lm eos p ts \<and> t = greedy lm (p @ ts) \<and> t \<noteq> eos"
  by (auto simp: chain_def nth_append less_Suc_eq)

definition bytes_of :: "'m llama_lib \<Rightarrow> int list \<Rightarrow> bytes" where
  "bytes_of lib ts = concat (map (\<lambda>t. detokenize lib [t]) ts)"

lemma bytes_of_append [simp]: "bytes_of lib (xs @ ys) = bytes_of lib xs @ bytes_of lib ys"
  by (simp add: bytes_of_def)

section \<open>The parts of the invariant\<close>

definition config_ok :: "settings \<Rightarrow> bool" where
  "config_ok st \<longleftrightarrow> 0 < chunk_size st \<and> 0 < kv_block_size st \<and> 0 < n_ctx st \<and> n_ctx st < 2 ^ 31
     \<and> n_seq_max st < 2 ^ 31 \<and> kv_block_size st < 2 ^ 31"

definition ids_inv :: "(string, active_sequence) dict \<Rightarrow> (string, request_state) dict \<Rightarrow> request_queue \<Rightarrow> (string, int) dict \<Rightarrow> bool" where
  "ids_inv A R Q tbl \<longleftrightarrow> dict_wf A \<and> keys A = keys R \<and> queue_inv Q
     \<and> set (keys A) \<inter> queued_ids Q = {} \<and> set (keys tbl) = set (keys A) \<union> queued_ids Q"

definition slots_inv :: "(string, active_sequence) dict \<Rightarrow> int list \<Rightarrow> int \<Rightarrow> bool" where
  "slots_inv A free n \<longleftrightarrow> distinct (map seq_id (vals A) @ free) \<and> set (map seq_id (vals A) @ free) = {0..<n}"

text \<open>
  Where a slot stands inside a tick: \<open>Due\<close> while its sampled token has not been handled yet, \<open>Torn\<close> after
  a failed decode, when nothing is known about its cells until it is freed, and \<open>Clean\<close> otherwise.
\<close>

datatype mark = Clean | Due | Torn

abbreviation clean :: "int \<Rightarrow> mark" where
  "clean \<equiv> \<lambda>_. Clean"

definition live_req :: "(int \<Rightarrow> mark) \<Rightarrow> kv_cells \<Rightarrow> (nat \<Rightarrow> float64) \<Rightarrow> nat \<Rightarrow> event list \<Rightarrow> (string, int) dict \<Rightarrow> int
    \<Rightarrow> string \<Rightarrow> active_sequence \<Rightarrow> request_state \<Rightarrow> bool" where
  "live_req mk c clk k tr tbl bs rid sq st \<longleftrightarrow>
     (\<exists>p m b. acc rid tr = Some (p, m) \<and> dict_get tbl rid = Some b \<and> int (length p) + m \<le> b * bs
        \<and> remaining_tokens st = m - int (length (toks rid tr))
        \<and> 0 \<le> n_past sq \<and> n_past sq \<le> int (length (p @ toks rid tr))
        \<and> pending_tokens sq = drop (nat (n_past sq)) (p @ toks rid tr)
        \<and> (mk (seq_id sq) \<noteq> Torn \<longrightarrow> holds c (seq_id sq) (take (nat (n_past sq)) (p @ toks rid tr))))
     \<and> rs_seq_id st = seq_id sq \<and> tokens_emitted st = int (length (toks rid tr))
     \<and> (\<exists>i < k. admitted_ts st = clk i)
     \<and> (pending_tokens sq = [] \<longleftrightarrow> mk (seq_id sq) = Due)"

definition live_inv :: "(int \<Rightarrow> mark) \<Rightarrow> kv_cells \<Rightarrow> (nat \<Rightarrow> float64) \<Rightarrow> nat \<Rightarrow> event list \<Rightarrow> (string, int) dict \<Rightarrow> int
    \<Rightarrow> (string, active_sequence) dict \<Rightarrow> (string, request_state) dict \<Rightarrow> bool" where
  "live_inv mk c clk k tr tbl bs A R \<longleftrightarrow>
     (\<forall>rid sq st. dict_get A rid = Some sq \<longrightarrow> dict_get R rid = Some st \<longrightarrow> live_req mk c clk k tr tbl bs rid sq st)"

definition wait_inv :: "event list \<Rightarrow> (string, int) dict \<Rightarrow> int \<Rightarrow> request_queue \<Rightarrow> bool" where
  "wait_inv tr tbl bs Q \<longleftrightarrow> (\<forall>r \<in> set (waiting Q). acc (req_id r) tr = Some (prompt_tokens r, max_tokens r)
     \<and> toks (req_id r) tr = []
     \<and> (\<exists>b. dict_get tbl (req_id r) = Some b \<and> int (length (prompt_tokens r)) + max_tokens r \<le> b * bs))"

definition free_inv :: "kv_cells \<Rightarrow> int list \<Rightarrow> bool" where
  "free_inv c free \<longleftrightarrow> (\<forall>sid \<in> set free. holds c sid [])"

definition claim_ok :: "int \<Rightarrow> event list \<Rightarrow> (string, active_sequence) dict \<Rightarrow> claim \<Rightarrow> bool" where
  "claim_ok bs tr A cl \<longleftrightarrow> (\<exists>rid sq p m. dict_get A rid = Some sq \<and> seq_id sq = fst cl
     \<and> acc rid tr = Some (p, m) \<and> snd cl = blocks bs p)"

definition prefix_inv :: "int \<Rightarrow> event list \<Rightarrow> (string, active_sequence) dict \<Rightarrow> backend option \<Rightarrow> bool" where
  "prefix_inv bs tr A pc \<longleftrightarrow> (case pc of None \<Rightarrow> True
     | Some c \<Rightarrow> be_block_size c = bs \<and> (\<exists>cls. be_rep c cls \<and> (\<forall>cl \<in> set cls. claim_ok bs tr A cl)))"

text \<open>
  Which event may follow a history: a request is accepted once, streams the greedy continuation of its prompt
  while it is open and its budget lasts, and is closed once, normally only at the end token or at the end of
  its budget.
\<close>

fun legal :: "(int list \<Rightarrow> float64 list) \<Rightarrow> int \<Rightarrow> event list \<Rightarrow> event \<Rightarrow> bool" where
  "legal lm eos tr (Accepted rid p m) = (acc rid tr = None \<and> p \<noteq> [] \<and> 0 < m)"
| "legal lm eos tr (TokenPushed rid t) = ((\<forall>r. Closed rid r \<notin> set tr) \<and> (\<exists>p m. acc rid tr = Some (p, m)
     \<and> t = greedy lm (p @ toks rid tr) \<and> t \<noteq> eos \<and> int (length (toks rid tr)) + 1 < m))"
| "legal lm eos tr (Closed rid why) = ((\<forall>r. Closed rid r \<notin> set tr) \<and> (\<exists>p m. acc rid tr = Some (p, m)
     \<and> (why = None \<longrightarrow> greedy lm (p @ toks rid tr) = eos \<or> int (length (toks rid tr)) = m - 1)))"
| "legal lm eos tr (TextRead rid t) = (acc rid tr \<noteq> None)"
| "legal lm eos tr (StreamEnded rid) = (acc rid tr \<noteq> None)"

inductive legal_history :: "(int list \<Rightarrow> float64 list) \<Rightarrow> int \<Rightarrow> event list \<Rightarrow> bool" for lm eos where
  legal_Nil: "legal_history lm eos []"
| legal_snoc: "legal_history lm eos tr \<Longrightarrow> legal lm eos tr e \<Longrightarrow> legal_history lm eos (tr @ [e])"

lemma legal_historyD: "legal_history lm eos (tr @ [e]) \<Longrightarrow> legal_history lm eos tr \<and> legal lm eos tr e"
  by (erule legal_history.cases) auto

definition hist_inv :: "(int list \<Rightarrow> float64 list) \<Rightarrow> int \<Rightarrow> event list \<Rightarrow> string set \<Rightarrow> bool" where
  "hist_inv lm eos tr live \<longleftrightarrow>
     (\<forall>rid p m. acc rid tr = Some (p, m) \<longrightarrow> p \<noteq> [] \<and> list_all int32 p \<and> chain lm eos p (toks rid tr) \<and> int (length (toks rid tr)) < m
        \<and> (rid \<in> live \<or> (\<exists>r. Closed rid r \<in> set tr))
        \<and> (Closed rid None \<in> set tr \<longrightarrow> greedy lm (p @ toks rid tr) = eos \<or> int (length (toks rid tr)) = m - 1))
     \<and> (\<forall>rid \<in> live. acc rid tr \<noteq> None \<and> (\<forall>r. Closed rid r \<notin> set tr))
     \<and> (\<forall>rid. acc rid tr = None \<longrightarrow> toks rid tr = [] \<and> reads rid tr = [] \<and> (\<forall>r. Closed rid r \<notin> set tr)
          \<and> StreamEnded rid \<notin> set tr)
     \<and> legal_history lm eos tr"

definition closed_stream :: "ustring \<Rightarrow> bytes \<Rightarrow> stream \<Rightarrow> bool" where
  "closed_stream seen bs st \<longleftrightarrow> (\<exists>q. out_queue st = q @ [EndOfStream]
     \<and> seen @ texts q = fst (utf8_decode True bs) \<and> (\<forall>x \<in> set q. \<exists>t. x = Text t \<and> t \<noteq> []))"

definition str_inv :: "'m llama_lib \<Rightarrow> event list \<Rightarrow> string set \<Rightarrow> stream_manager \<Rightarrow> bool" where
  "str_inv lib tr live m \<longleftrightarrow> dict_wf m
     \<and> (\<forall>rid st. dict_get m rid = Some st \<longrightarrow> acc rid tr \<noteq> None
          \<and> (if rid \<in> live then stream_ok (reads rid tr) (bytes_of lib (toks rid tr)) st
             else closed_stream (reads rid tr) (bytes_of lib (toks rid tr)) st))
     \<and> (\<forall>rid. StreamEnded rid \<in> set tr \<longrightarrow> dict_get m rid = None \<and> rid \<notin> live
          \<and> reads rid tr = fst (utf8_decode True (bytes_of lib (toks rid tr))))"

definition spans_inv :: "tracer \<Rightarrow> string set \<Rightarrow> string set \<Rightarrow> bool" where
  "spans_inv t act que \<longleftrightarrow> tracer_inv t \<and> set (keys (roots t)) = act \<union> que
     \<and> set (keys (open_children t)) = (\<lambda>r. (r, ''generation'')) ` act \<union> (\<lambda>r. (r, ''queue_wait'')) ` que"

definition loop_inv :: "settings \<Rightarrow> (string, active_sequence) dict \<Rightarrow> request_queue \<Rightarrow> loop_state \<Rightarrow> bool" where
  "loop_inv st A Q l \<longleftrightarrow> (case l of
       AtTop \<Rightarrow> True
     | AwaitArrival \<Rightarrow> A = [] \<and> (waiting_d Q = [] \<or> arrived Q)
     | AwaitDecode prepared t \<Rightarrow> prepared = build_batch (vals A) (n_ctx st) (chunk_size st) \<and> prepared \<noteq> []
     | Crashed e \<Rightarrow> False)"

definition static_inv :: "'m llama_lib \<Rightarrow> settings \<Rightarrow> 'm runtime \<Rightarrow> kv_cache_manager \<Rightarrow> bool" where
  "static_inv lib st rt kv \<longleftrightarrow> config_ok st \<and> runtime_wf rt \<and> rt_capacity rt = n_ctx st \<and> rt_eos rt = lib_token_eos lib
     \<and> kv_inv kv \<and> block_size kv = kv_block_size st \<and> total_blocks_f kv * block_size kv \<le> n_ctx st"

abbreviation live_ids :: "'m server \<Rightarrow> string set" where
  "live_ids s \<equiv> set (keys (sv_active s)) \<union> queued_ids (sv_queue s)"

text \<open>
  The invariant while the loop is inside a tick, with the marks of the slots. The components that the
  programs below change are arguments of each conjunct.
\<close>

definition tick_inv :: "'m llama_lib \<Rightarrow> ('m \<Rightarrow> kv_cells) \<Rightarrow> (int list \<Rightarrow> float64 list) \<Rightarrow> (nat \<Rightarrow> float64)
    \<Rightarrow> (int \<Rightarrow> mark) \<Rightarrow> 'm server \<Rightarrow> bool" where
  "tick_inv lib cells lm clk mk s \<longleftrightarrow>
     static_inv lib (sv_settings s) (sv_runtime s) (sv_kv s)
     \<and> ids_inv (sv_active s) (sv_requests s) (sv_queue s) (block_table (sv_kv s))
     \<and> slots_inv (sv_active s) (sv_free_slots s) (n_seq_max (sv_settings s))
     \<and> live_inv mk (cells (rt_ctx (sv_runtime s))) clk (sv_clock s) (sv_trace s) (block_table (sv_kv s))
         (kv_block_size (sv_settings s)) (sv_active s) (sv_requests s)
     \<and> wait_inv (sv_trace s) (block_table (sv_kv s)) (kv_block_size (sv_settings s)) (sv_queue s)
     \<and> free_inv (cells (rt_ctx (sv_runtime s))) (sv_free_slots s)
     \<and> prefix_inv (kv_block_size (sv_settings s)) (sv_trace s) (sv_active s) (sv_prefix s)
     \<and> hist_inv lm (lib_token_eos lib) (sv_trace s) (live_ids s)
     \<and> str_inv lib (sv_trace s) (live_ids s) (sv_streams s)
     \<and> spans_inv (sv_tracer s) (set (keys (sv_active s))) (queued_ids (sv_queue s))
     \<and> list_all event_ok (sv_metrics s)"

definition server_inv :: "'m llama_lib \<Rightarrow> ('m \<Rightarrow> kv_cells) \<Rightarrow> (int list \<Rightarrow> float64 list) \<Rightarrow> (nat \<Rightarrow> float64)
    \<Rightarrow> 'm server \<Rightarrow> bool" where
  "server_inv lib cells lm clk s \<longleftrightarrow> tick_inv lib cells lm clk clean s
     \<and> loop_inv (sv_settings s) (sv_active s) (sv_queue s) (sv_loop s)"

end
