(* ===== verification/Server_Ops.thy ===== *)
theory Server_Ops
  imports Server_Inv
begin

text \<open>
  What each program of the batch loop does to the state, in closed form: under the conditions the
  invariant provides it does not raise, and the new state is the old one with the listed components
  changed. The metric log and the clock are only described as far as the invariant needs.
\<close>

section \<open>Running programs\<close>

lemma bnd_Inr: "m s = (Inr x, s') \<Longrightarrow> bnd m f s = f x s'"
  by (simp add: bnd_def)

lemma prog_simps [simp]:
  "ret x s = (Inr x, s)" "lift r s = (r, s)" "gets f s = (Inr (f s), s)" "upd g s = (Inr (), g s)"
  "monotonic clk t = (Inr (clk (sv_clock t)), t\<lparr>sv_clock := Suc (sv_clock t)\<rparr>)"
  by (simp_all add: ret_def lift_def gets_def upd_def monotonic_def)

lemma emit_ok: "event_ok e \<Longrightarrow> emit e s = (Inr (), s\<lparr>sv_metrics := sv_metrics s @ [e]\<rparr>)"
  by (simp add: emit_def)

lemma event_oks [simp]:
  "event_ok (MInc ''admission_accepted_total'' [] 1)" "event_ok (MInc ''admission_rejected_total'' [l] 1)"
  "event_ok (MSet ''queue_depth'' [] v)" "event_ok (MObserve ''queue_wait_seconds'' v)"
  "event_ok (MObserve ''batch_size_tokens'' v)" "event_ok (MObserve ''batch_size_requests'' v)"
  "event_ok (MObserve ''batch_utilization'' v)" "event_ok (MSet ''kv_blocks_free'' [] v)"
  "event_ok (MSet ''kv_blocks_used'' [] v)" "event_ok (MObserve ''ttft_seconds'' v)"
  "event_ok (MObserve ''inter_token_latency_seconds'' v)" "event_ok (MObserve ''tokens_per_second'' v)"
  "event_ok (MObserve ''decode_step_duration_seconds'' v)"
  "event_ok (MInc ''prefix_cache_lookups_total'' [l] 1)" "event_ok (MInc ''prefill_tokens_total'' [] (int n))"
  "0 \<le> j \<Longrightarrow> event_ok (MInc ''prefill_tokens_reused_total'' [] j)"
  "event_ok (MSet ''prefix_cache_nodes'' [] v)" "event_ok (MSet ''prefix_cache_backend_info'' [l] v)"
  "event_ok (MInc ''scheduler_policy_decision_total'' [l, l2] 1)" "event_ok (MInc ''cancellations_total'' [l] 1)"
  by (simp_all add: instruments_def)

declare event_ok.simps [simp del]

text \<open>Symbolic execution, one statement at a time.\<close>

lemma run_ret [simp]: "bnd (ret x) f s = f x s"
  and run_lift [simp]: "bnd (lift (Inr y)) f2 s2 = f2 y s2"
  and run_gets [simp]: "bnd (gets g) f3 s3 = f3 (g s3) s3"
  and run_upd [simp]: "bnd (upd h) f4 s4 = f4 () (h s4)"
  and run_bnd [simp]: "bnd (bnd m k) f5 s5 = bnd m (\<lambda>x. bnd (k x) f5) s5"
  by (auto simp: bnd_def split: sum.split prod.split)

lemma run_call: "bnd (call f) k s = (case f s of (x, s') \<Rightarrow> k x s')"
  and run_asks: "g s2 = Inr y \<Longrightarrow> bnd (asks g) h s2 = h y s2"
  by (simp_all add: bnd_def call_def asks_def split: prod.split)

lemma run_emit [simp]: "event_ok e \<Longrightarrow> bnd (emit e) f s = f () (s\<lparr>sv_metrics := sv_metrics s @ [e]\<rparr>)"
  and run_clock [simp]: "bnd (monotonic clk) f2 s2 = f2 (clk (sv_clock s2)) (s2\<lparr>sv_clock := Suc (sv_clock s2)\<rparr>)"
  and run_note [simp]: "bnd (note_event ev) f3 s3 = f3 () (s3\<lparr>sv_trace := sv_trace s3 @ [ev]\<rparr>)"
  and run_trace [simp]: "bnd (trace_op w) f4 s4 = f4 () (s4\<lparr>sv_tracer := w (sv_tracer s4)\<rparr>)"
  by (auto simp: bnd_def emit_ok note_event_def trace_op_def)

text \<open>The span of the admission call is closed again on every way out of it.\<close>

lemma run_admission_span:
  "bnd (admission_span rid n m) k s =
     (let tr = end_span rid ''admission'' (start_span rid ''admission'' (sv_tracer s))
      in case admit_request (max_queue_depth (sv_settings s)) rid n m (queue_depth (sv_queue s)) (sv_kv s) of
           Inl e \<Rightarrow> (Inl e, s\<lparr>sv_tracer := tr\<rparr>)
         | Inr (result, kv) \<Rightarrow> k result (s\<lparr>sv_kv := kv, sv_tracer := tr\<rparr>))"
  by (simp add: admission_span_def in_span_def finallyp_def bnd_def trace_op_def upd_def Let_def split: sum.split prod.split)

lemma run_last [simp]:
  "event_ok e \<Longrightarrow> emit e t = (Inr (), t\<lparr>sv_metrics := sv_metrics t @ [e]\<rparr>)"
  "note_event ev t = (Inr (), t\<lparr>sv_trace := sv_trace t @ [ev]\<rparr>)"
  "trace_op w t = (Inr (), t\<lparr>sv_tracer := w (sv_tracer t)\<rparr>)"
  by (auto simp: emit_ok note_event_def trace_op_def)

text \<open>The rule for loops: an invariant indexed by the elements still to be visited.\<close>

lemma for_each_invariant:
  assumes "I xs s" and "\<And>x ys s. I (x # ys) s \<Longrightarrow> \<exists>s'. f x s = (Inr (), s') \<and> I ys s'"
  shows "\<exists>s'. for_each xs f s = (Inr (), s') \<and> I [] s'"
  using assms(1)
proof (induction xs arbitrary: s)
  case (Cons x xs)
  then obtain s1 where s1: "f x s = (Inr (), s1)" "I xs s1" using assms(2) by blast
  from Cons.IH[OF s1(2)] show ?case by (simp add: bnd_Inr[of "f x", OF s1(1)])
qed simp

lemma run_lift_error [simp]: "bnd (lift (Inl e)) f s = (Inl e, s)"
  by (simp add: bnd_def)

lemma evict_prefix_run:
  assumes "\<And>c. sv_prefix s = Some c \<Longrightarrow> evict_safe sid c"
  obtains pc ms where "evict_prefix sid s = (Inr (), s\<lparr>sv_prefix := pc, sv_metrics := ms\<rparr>)"
    "pc = map_option (be_evicted sid) (sv_prefix s)" "list_all event_ok (sv_metrics s) \<Longrightarrow> list_all event_ok ms"
proof (cases "sv_prefix s")
  case None
  then have "s\<lparr>sv_prefix := None, sv_metrics := sv_metrics s\<rparr> = s" by (intro server.equality) simp_all
  with None show ?thesis by (intro that[of "sv_metrics s" None]) (simp_all add: evict_prefix_def)
next
  case (Some c)
  with evict_safeD[OF assms[OF Some]] show ?thesis
    by (intro that[of "sv_metrics s @ [MSet ''prefix_cache_nodes'' [] (of_int (be_node_count (be_evicted sid c)))]" "Some (be_evicted sid c)"])
      (simp_all add: evict_prefix_def)
qed

lemma finish_run:
  assumes R: "dict_get (sv_requests s) rid = Some st" and A: "dict_get (sv_active s) rid = Some sq"
    and clock: "0 < tokens_emitted st \<Longrightarrow> fsub (clk (sv_clock s)) (admitted_ts st) \<noteq> 0"
    and ms: "list_all event_ok (sv_metrics s)" and safe: "\<And>c. sv_prefix s = Some c \<Longrightarrow> evict_safe (rs_seq_id st) c"
  obtains s' where "finish lib clk rid why s = (Inr (), s')"
    "sv_settings s' = sv_settings s" "sv_queue s' = sv_queue s" "sv_policy s' = sv_policy s" "sv_loop s' = sv_loop s"
    "sv_runtime s' = free_sequence lib (rs_seq_id st) (sv_runtime s)"
    "sv_streams s' = stream_close rid (sv_streams s)"
    "sv_kv s' = release rid (sv_kv s)"
    "sv_prefix s' = map_option (be_evicted (rs_seq_id st)) (sv_prefix s)"
    "list_all event_ok (sv_metrics s')"
    "sv_tracer s' = end_request rid [(''completion_tokens'', AInt (tokens_emitted st))] (end_span rid ''generation'' (sv_tracer s))"
    "sv_active s' = dict_del rid (sv_active s)"
    "sv_requests s' = dict_del rid (sv_requests s)"
    "sv_free_slots s' = sv_free_slots s @ [rs_seq_id st]"
    "sv_clock s \<le> sv_clock s'"
    "sv_trace s' = sv_trace s @ [Closed rid why]"
proof -
  have pop: "pop_request rid s = (Inr st, s\<lparr>sv_requests := dict_del rid (sv_requests s)\<rparr>)"
    using R by (simp add: pop_request_def dict_pop_def)
  have popA: "sv_active u = sv_active s \<Longrightarrow> pop_active rid u = (Inr (), u\<lparr>sv_active := dict_del rid (sv_active s)\<rparr>)" for u
    using A by (simp add: pop_active_def dict_pop_def)
  let ?s0 = "s\<lparr>sv_requests := dict_del rid (sv_requests s)\<rparr>"
  obtain pc1 ms1 where s1: "evict_prefix (rs_seq_id st) ?s0 = (Inr (), ?s0\<lparr>sv_prefix := pc1, sv_metrics := ms1\<rparr>)"
    and pc1: "pc1 = map_option (be_evicted (rs_seq_id st)) (sv_prefix ?s0)" and ms1: "list_all event_ok ms1"
    by (rule evict_prefix_run[of ?s0 "rs_seq_id st"]) (use ms safe in auto)
  define s' where "s' = snd (finish lib clk rid why s)"
  have F: "fst (finish lib clk rid why s) = Inr () \<and> s' = s\<lparr>sv_runtime := free_sequence lib (rs_seq_id st) (sv_runtime s),
       sv_streams := stream_close rid (sv_streams s), sv_kv := release rid (sv_kv s), sv_prefix := pc1,
       sv_metrics := sv_metrics s',
       sv_tracer := end_request rid [(''completion_tokens'', AInt (tokens_emitted st))] (end_span rid ''generation'' (sv_tracer s)),
       sv_active := dict_del rid (sv_active s), sv_requests := dict_del rid (sv_requests s),
       sv_free_slots := sv_free_slots s @ [rs_seq_id st], sv_clock := sv_clock s', sv_trace := sv_trace s @ [Closed rid why]\<rparr>
     \<and> list_all event_ok (sv_metrics s') \<and> sv_clock s \<le> sv_clock s'"
    using clock ms1 unfolding s'_def finish_def bnd_Inr[of "pop_request rid", OF pop] bnd_Inr[of "evict_prefix (rs_seq_id st)", OF s1]
    by (cases why; cases "0 < tokens_emitted st"; simp add: bnd_Inr[OF popA] fdiv_def)
  then have run: "finish lib clk rid why s = (Inr (), s')" by (simp add: s'_def prod_eq_iff)
  define ms2 k2 where "ms2 = sv_metrics s'" and "k2 = sv_clock s'"
  note E = F[folded ms2_def k2_def, THEN conjunct2, THEN conjunct1]
  show thesis
    by (rule that[OF run]; insert F; (simp only: E)?; simp add: pc1 ms2_def k2_def)
qed

lemma remove_waiting_run:
  assumes "dict_get (waiting_d (sv_queue s)) rid = Some r"
  shows "remove_waiting rid s = (Inr (), s\<lparr>sv_queue := (sv_queue s)\<lparr>waiting_d := dict_del rid (waiting_d (sv_queue s))\<rparr>\<rparr>)"
  using assms by (simp add: remove_waiting_def queue_remove_eq)

lemma expire_waiter_run:
  assumes "dict_get (waiting_d (sv_queue s)) (req_id r) = Some r"
  shows "expire_waiter now r s = (Inr (), if fsub now (arrival_ts r) > queue_timeout_seconds (sv_settings s)
     then s\<lparr>sv_queue := (sv_queue s)\<lparr>waiting_d := dict_del (req_id r) (waiting_d (sv_queue s))\<rparr>,
        sv_kv := release (req_id r) (sv_kv s),
        sv_streams := stream_close (req_id r) (sv_streams s),
        sv_trace := sv_trace s @ [Closed (req_id r) (Some ''queue_timeout'')],
        sv_metrics := sv_metrics s @ [MInc ''cancellations_total'' [''queue_timeout''] 1],
        sv_tracer := end_request (req_id r) [(''completion_tokens'', AInt 0)] (end_span (req_id r) ''queue_wait'' (sv_tracer s))\<rparr>
     else s)"
  using assms by (simp add: expire_waiter_def bnd_Inr[OF remove_waiting_run])

lemma claim_prefix_run:
  assumes ms: "list_all event_ok (sv_metrics s)"
    and safe: "\<And>c. sv_prefix s = Some c \<Longrightarrow> claim_safe (prompt_tokens rq) sid c"
  obtains past rt' ms' where
    "claim_prefix lib rq sid s = (Inr past, s\<lparr>sv_runtime := rt', sv_metrics := ms',
       sv_prefix := map_option (be_claimed (prompt_tokens rq) sid) (sv_prefix s)\<rparr>)"
    "list_all event_ok ms'"
    "past = 0 \<and> rt' = sv_runtime s \<or>
     (\<exists>c hit ok. sv_prefix s = Some c \<and> hit = be_hit (prompt_tokens rq) c
        \<and> is_hit hit \<and> reuse_prefix lib (match_seq_id hit) sid (n_tokens hit) (sv_runtime s) = (ok, rt')
        \<and> past = (if ok then n_tokens hit else 0))"
proof (cases "sv_prefix s")
  case None
  then have "s\<lparr>sv_runtime := sv_runtime s, sv_metrics := sv_metrics s,
       sv_prefix := map_option (be_claimed (prompt_tokens rq) sid) (sv_prefix s)\<rparr> = s"
    by (intro server.equality) simp_all
  with None ms show ?thesis by (intro that[of 0 "sv_metrics s" "sv_runtime s"]) (simp_all add: claim_prefix_def)
next
  case (Some c)
  let ?hit = "be_hit (prompt_tokens rq) c"
  from safe[OF Some] obtain c1 n where c1: "be_match_for_reuse (prompt_tokens rq) c = Inr (?hit, c1)"
    "be_insert (prompt_tokens rq) sid c1 = Inr (n, be_claimed (prompt_tokens rq) sid c)" by (rule claim_safeE)
  obtain ok rt where r: "reuse_prefix lib (match_seq_id ?hit) sid (n_tokens ?hit) (sv_runtime s) = (ok, rt)" by force
  define u where "u = claim_prefix lib rq sid s"
  have "\<exists>past rt' ms'. u = (Inr past, s\<lparr>sv_runtime := rt', sv_metrics := ms',
       sv_prefix := Some (be_claimed (prompt_tokens rq) sid c)\<rparr>) \<and> list_all event_ok ms'
     \<and> (past = 0 \<and> rt' = sv_runtime s \<or> is_hit ?hit \<and> rt' = rt \<and> past = (if ok then n_tokens ?hit else 0))"
  proof (cases "is_hit ?hit")
    case True
    then have n: "0 \<le> n_tokens ?hit" by (simp add: is_hit_def)
    have "u = (Inr (if ok then n_tokens ?hit else 0), s\<lparr>sv_runtime := rt, sv_metrics := sv_metrics (snd u),
       sv_prefix := Some (be_claimed (prompt_tokens rq) sid c)\<rparr>) \<and> list_all event_ok (sv_metrics (snd u))"
      unfolding u_def using ms Some True n r c1
      by (cases ok) (simp_all add: claim_prefix_def publish_prefix_def Let_def run_call)
    with True show ?thesis by blast
  next
    case False
    have "u = (Inr 0, s\<lparr>sv_runtime := sv_runtime s, sv_metrics := sv_metrics (snd u),
       sv_prefix := Some (be_claimed (prompt_tokens rq) sid c)\<rparr>) \<and> list_all event_ok (sv_metrics (snd u))"
      unfolding u_def using ms Some False c1 by (simp add: claim_prefix_def publish_prefix_def Let_def)
    then show ?thesis by blast
  qed
  then obtain past rt' ms' where P: "u = (Inr past, s\<lparr>sv_runtime := rt', sv_metrics := ms',
       sv_prefix := Some (be_claimed (prompt_tokens rq) sid c)\<rparr>)" "list_all event_ok ms'"
     "past = 0 \<and> rt' = sv_runtime s \<or> is_hit ?hit \<and> rt' = rt \<and> past = (if ok then n_tokens ?hit else 0)" by blast
  with r Some show ?thesis unfolding u_def by (intro that[of past ms' rt']) auto
qed

lemma admit_chosen_run:
  assumes q: "dict_get (waiting_d (sv_queue s)) (req_id rq) = Some rq"
    and free: "sv_free_slots s = free @ [sid]" and ms: "list_all event_ok (sv_metrics s)"
    and safe: "\<And>c. sv_prefix s = Some c \<Longrightarrow> claim_safe (prompt_tokens rq) sid c"
  obtains past rt' ms' where
    "admit_chosen lib clk rq s = (Inr (), s\<lparr>
       sv_runtime := rt',
       sv_queue := (sv_queue s)\<lparr>waiting_d := dict_del (req_id rq) (waiting_d (sv_queue s))\<rparr>,
       sv_prefix := map_option (be_claimed (prompt_tokens rq) sid) (sv_prefix s),
       sv_metrics := ms',
       sv_tracer := start_span (req_id rq) ''generation'' (end_span (req_id rq) ''queue_wait'' (sv_tracer s)),
       sv_active := dict_set (req_id rq) \<lparr>seq_id = sid, pending_tokens = py_drop past (prompt_tokens rq), n_past = past\<rparr> (sv_active s),
       sv_requests := dict_set (req_id rq) \<lparr>rs_seq_id = sid, remaining_tokens = max_tokens rq, rs_arrival_ts = arrival_ts rq,
         admitted_ts = clk (sv_clock s), tokens_emitted = 0, last_token_ts = None\<rparr> (sv_requests s),
       sv_free_slots := free,
       sv_clock := Suc (sv_clock s)\<rparr>)"
    "list_all event_ok ms'"
    "past = 0 \<and> rt' = sv_runtime s \<or>
     (\<exists>c hit ok. sv_prefix s = Some c \<and> hit = be_hit (prompt_tokens rq) c
        \<and> is_hit hit \<and> reuse_prefix lib (match_seq_id hit) sid (n_tokens hit) (sv_runtime s) = (ok, rt')
        \<and> past = (if ok then n_tokens hit else 0))"
proof -
  let ?s1 = "s\<lparr>sv_queue := (sv_queue s)\<lparr>waiting_d := dict_del (req_id rq) (waiting_d (sv_queue s))\<rparr>,
     sv_clock := Suc (sv_clock s), sv_free_slots := free\<rparr>"
  have ms1: "list_all event_ok (sv_metrics ?s1)" using ms by simp
  obtain past rt' ms' where C: "claim_prefix lib rq sid ?s1 = (Inr past, ?s1\<lparr>sv_runtime := rt', sv_metrics := ms',
       sv_prefix := map_option (be_claimed (prompt_tokens rq) sid) (sv_prefix ?s1)\<rparr>)"
    "list_all event_ok ms'" 
    "past = 0 \<and> rt' = sv_runtime ?s1 \<or>
     (\<exists>c hit ok. sv_prefix ?s1 = Some c \<and> hit = be_hit (prompt_tokens rq) c
        \<and> is_hit hit \<and> reuse_prefix lib (match_seq_id hit) sid (n_tokens hit) (sv_runtime ?s1) = (ok, rt')
        \<and> past = (if ok then n_tokens hit else 0))"
    by (rule claim_prefix_run[OF ms1]) (use safe in auto)
  have pop: "pop_slot u = (Inr sid, u\<lparr>sv_free_slots := free\<rparr>)" if "sv_free_slots u = free @ [sid]" for u :: "'a server"
    using that by (simp add: pop_slot_def)
  note run = admit_chosen_def admit_def bnd_Inr[of "remove_waiting (req_id rq)", OF remove_waiting_run[OF q]]
  show thesis
    by (rule that[where past = past and rt' = rt' and ms' = "sv_metrics (snd (admit_chosen lib clk rq s))"])
      (use C(2,3) free in \<open>simp_all add: run bnd_Inr[of pop_slot, OF pop] bnd_Inr[of "claim_prefix lib rq sid", OF C(1)]\<close>)
qed

end
