(* ===== verification/Server_Preserve.thy ===== *)
theory Server_Preserve
  imports Server_Ops
begin

text \<open>
  Preservation of the server invariant. The first sections treat one change of the state at a time
  (a request leaves, a request enters a slot, a token is pushed, a request is accepted), part by part
  of the invariant; the later ones compose them along the programs of the loop, so that every program
  is shown to return without an exception in a state that satisfies the invariant again.
\<close>

section \<open>Facts about the parts\<close>

lemma tick_invD:
  assumes "tick_inv lib cells lm clk mk s"
  shows "static_inv lib (sv_settings s) (sv_runtime s) (sv_kv s)"
    "ids_inv (sv_active s) (sv_requests s) (sv_queue s) (block_table (sv_kv s))"
    "slots_inv (sv_active s) (sv_free_slots s) (n_seq_max (sv_settings s))"
    "live_inv mk (cells (rt_ctx (sv_runtime s))) clk (sv_clock s) (sv_trace s) (block_table (sv_kv s))
         (kv_block_size (sv_settings s)) (sv_active s) (sv_requests s)"
    "wait_inv (sv_trace s) (block_table (sv_kv s)) (kv_block_size (sv_settings s)) (sv_queue s)"
    "free_inv (cells (rt_ctx (sv_runtime s))) (sv_free_slots s)"
    "prefix_inv (kv_block_size (sv_settings s)) (sv_trace s) (sv_active s) (sv_prefix s)"
    "hist_inv lm (lib_token_eos lib) (sv_trace s) (live_ids s)"
    "str_inv lib (sv_trace s) (live_ids s) (sv_streams s)"
    "spans_inv (sv_tracer s) (set (keys (sv_active s))) (queued_ids (sv_queue s))"
    "list_all event_ok (sv_metrics s)"
  using assms unfolding tick_inv_def by blast+

text \<open>
  What the loop does up to the decode call, seen from the requests: no request appears, no running
  request changes, and the settings stay.
\<close>

definition keeps :: "'m server \<Rightarrow> 'm server \<Rightarrow> bool" where
  "keeps s s' \<longleftrightarrow> sv_settings s' = sv_settings s \<and> live_ids s' \<subseteq> live_ids s
     \<and> (\<forall>r. acc r (sv_trace s') = acc r (sv_trace s))
     \<and> (\<forall>r sq. dict_get (sv_active s) r = Some sq \<longrightarrow> dict_get (sv_active s') r = Some sq)"

lemma keeps_refl [simp]: "keeps s s"
  by (simp add: keeps_def)

lemma keeps_trans: "keeps s t \<Longrightarrow> keeps t u \<Longrightarrow> keeps s u"
  unfolding keeps_def by (auto simp del: set_map)

lemma keeps_active:
  assumes "keeps s s'" "sv_active s \<noteq> []"
  shows "sv_active s' \<noteq> []"
proof -
  obtain k v d where "sv_active s = (k, v) # d" using assms(2) by (metis neq_Nil_conv surj_pair)
  then have "dict_get (sv_active s) k = Some v" by simp
  with assms(1) have "dict_get (sv_active s') k = Some v" unfolding keeps_def by blast
  then show ?thesis by auto
qed

lemma dict_set_same: "dict_get d k = Some v \<Longrightarrow> dict_set k v d = d"
  by (induction d) auto

lemma dict_del_set [simp]: "dict_del k (dict_set k v d) = dict_del k d"
  by (induction d) auto

lemma keys_eq_get: "keys A = keys R \<Longrightarrow> dict_get A k = Some a \<Longrightarrow> \<exists>r. dict_get R k = Some r"
  by (metis dict_get_eq_None not_Some_eq)

lemma in_keys: "dict_get d k = Some v \<Longrightarrow> k \<in> set (keys d)"
  by (metis dict_get_eq_None option.distinct(1))

lemma slots_inj:
  assumes "slots_inv A free n" "dict_wf A" "dict_get A r = Some a" "dict_get A r' = Some b" "seq_id a = seq_id b"
  shows "r = r'"
proof -
  have "distinct (map seq_id (vals A))" using assms(1) by (simp add: slots_inv_def)
  then have "inj_on (\<lambda>e. seq_id (snd e)) (set A)" by (simp add: comp_def distinct_map)
  from inj_onD[OF this _ dict_getD[OF assms(3)] dict_getD[OF assms(4)]] assms(5) show ?thesis by simp
qed

lemma slots_free: "slots_inv A free n \<Longrightarrow> dict_get A r = Some a \<Longrightarrow> seq_id a \<notin> set free"
  by (force simp: slots_inv_def dest: dict_getD)

lemma sum_list_subdict:
  assumes "dict_wf A" "dict_wf T" "\<And>k a. dict_get A k = Some a \<Longrightarrow> \<exists>b. dict_get T k = Some b \<and> f a \<le> g b"
    and "\<And>e. e \<in> set T \<Longrightarrow> 0 \<le> g (snd e)"
  shows "(\<Sum>x\<leftarrow>vals A. f x) \<le> (\<Sum>e\<leftarrow>T. (g (snd e) :: int))"
  using assms
proof (induction A arbitrary: T)
  case Nil
  have "0 \<le> (\<Sum>e\<leftarrow>T. g (snd e))" by (rule sum_list_nonneg) (use Nil.prems(4) in auto)
  then show ?case by simp
next
  case (Cons e A)
  obtain k a where e: "e = (k, a)" by force
  obtain b where b: "dict_get T k = Some b" "f a \<le> g b" using Cons.prems(3)[of k a] e by auto
  have k: "k \<notin> set (keys A)" and wf: "dict_wf A" using Cons.prems(1) e by (simp_all add: dict_wf_def)
  have "(\<Sum>x\<leftarrow>vals A. f x) \<le> (\<Sum>e\<leftarrow>dict_del k T. g (snd e))"
  proof (rule Cons.IH[OF wf])
    show "dict_wf (dict_del k T)" using Cons.prems(2) by (rule dict_wf_del)
    fix k' a' assume g: "dict_get A k' = Some a'"
    then have "k' \<noteq> k" using k in_keys by metis
    with g Cons.prems(3)[of k' a'] e show "\<exists>b. dict_get (dict_del k T) k' = Some b \<and> f a' \<le> g b"
      by (auto simp: dict_get_del)
  next
    fix x assume "x \<in> set (dict_del k T)"
    with Cons.prems(4) show "0 \<le> g (snd x)" by (auto simp: set_dict_del)
  qed
  moreover have "(\<Sum>e\<leftarrow>T. g (snd e)) = g b + (\<Sum>e\<leftarrow>dict_del k T. g (snd e))"
    by (rule sum_list_dict_del[OF Cons.prems(2) b(1)])
  ultimately show ?case using e b(2) by simp
qed

lemma reserved_tokens:
  assumes "static_inv lib st rt kv"
  shows "(\<Sum>e\<leftarrow>block_table kv. snd e * kv_block_size st) \<le> n_ctx st"
    "e \<in> set (block_table kv) \<Longrightarrow> 0 \<le> snd e * kv_block_size st"
    "dict_get (block_table kv) rid = Some b \<Longrightarrow> b * kv_block_size st \<le> n_ctx st" "dict_wf (block_table kv)"
proof -
  have kv: "kv_inv kv" "0 < kv_block_size st" "total_blocks_f kv * kv_block_size st \<le> n_ctx st"
    using assms by (auto simp: static_inv_def config_ok_def)
  show nn: "e \<in> set (block_table kv) \<Longrightarrow> 0 \<le> snd e * kv_block_size st" for e
    using kv_invD(4)[OF kv(1)] kv(2) by (intro mult_nonneg_nonneg) auto
  have "(\<Sum>e\<leftarrow>block_table kv. snd e * kv_block_size st) = (\<Sum>e\<leftarrow>block_table kv. snd e) * kv_block_size st"
    by (simp add: sum_list_mult_const)
  also have "\<dots> \<le> total_blocks_f kv * kv_block_size st"
    using reserved_le_total[OF kv(1)] kv(2) by (intro mult_right_mono) auto
  finally show le: "(\<Sum>e\<leftarrow>block_table kv. snd e * kv_block_size st) \<le> n_ctx st" using kv(3) by linarith
  show "b * kv_block_size st \<le> n_ctx st" if g: "dict_get (block_table kv) rid = Some b"
  proof -
    have "b * kv_block_size st \<in> set (map (\<lambda>e. snd e * kv_block_size st) (block_table kv))" using dict_getD[OF g] by force
    then have "b * kv_block_size st \<le> (\<Sum>e\<leftarrow>block_table kv. snd e * kv_block_size st)"
      using nn by (intro member_le_sum_list) auto
    with le show ?thesis by linarith
  qed
  show "dict_wf (block_table kv)" by (rule kv_invD(3)[OF kv(1)])
qed

lemma slot_int32:
  assumes "static_inv lib st rt kv" "slots_inv A free (n_seq_max st)" "sid \<in> set (map seq_id (vals A) @ free)"
  shows "int32 sid"
proof -
  have "sid \<in> {0..<n_seq_max st}" using assms(2,3) unfolding slots_inv_def by blast
  then show ?thesis using assms(1) by (simp add: static_inv_def config_ok_def int32_def)
qed

lemma active_int32:
  assumes "static_inv lib st rt kv" "slots_inv A free (n_seq_max st)" "dict_get A rid = Some sq"
  shows "int32 (seq_id sq)"
  using slot_int32[OF assms(1,2), of "seq_id sq"] dict_getD[OF assms(3)] by force

lemmas dom_simps = tracer_keys [unfolded set_map] set_keys_del [unfolded set_map] set_keys_set [unfolded set_map]

lemma spans_inv_finish:
  assumes "spans_inv t act que" "r \<in> act" "r \<notin> que"
  shows "spans_inv (end_request r as (end_span r ''generation'' t)) (act - {r}) que"
  using assms unfolding spans_inv_def
  by (auto simp: end_span_inv end_request_inv dom_simps tracer_frames)

lemma spans_inv_expire:
  assumes "spans_inv t act que" "r \<in> que" "r \<notin> act"
  shows "spans_inv (end_request r as (end_span r ''queue_wait'' t)) act (que - {r})"
  using assms unfolding spans_inv_def
  by (auto simp: end_span_inv end_request_inv dom_simps tracer_frames)

lemma spans_inv_admit:
  assumes "spans_inv t act que" "r \<in> que" "r \<notin> act"
  shows "spans_inv (start_span r ''generation'' (end_span r ''queue_wait'' t)) (insert r act) (que - {r})"
  using assms unfolding spans_inv_def
  by (auto simp: end_span_inv dom_simps tracer_frames intro!: start_span_inv)

section \<open>A request leaves its slot\<close>

lemma ids_inv_leave:
  assumes "ids_inv A R Q tbl" "rid \<in> set (keys A)"
  shows "ids_inv (dict_del rid A) (dict_del rid R) Q (dict_del rid tbl)"
proof -
  have "keys (dict_del rid A) = keys (dict_del rid R)" using assms(1) by (simp only: keys_del ids_inv_def)
  moreover have "rid \<notin> queued_ids Q" using assms unfolding ids_inv_def by blast
  ultimately show ?thesis using assms(1) unfolding ids_inv_def set_keys_del by (auto simp del: set_map)
qed

lemma slots_inv_leave:
  assumes "slots_inv A free n" "dict_wf A" "dict_get A rid = Some sq"
  shows "slots_inv (dict_del rid A) (free @ [seq_id sq]) n"
proof -
  have "mset (map seq_id (vals A)) = add_mset (seq_id sq) (mset (map seq_id (vals (dict_del rid A))))"
    using arg_cong[OF vals_del[OF assms(2,3)], of "image_mset seq_id"] by (simp add: image_mset.compositionality)
  then have m: "mset (map seq_id (vals (dict_del rid A)) @ free @ [seq_id sq]) = mset (map seq_id (vals A) @ free)" by simp
  from assms(1) mset_eq_setD[OF m] show ?thesis
    unfolding slots_inv_def mset_eq_imp_distinct_iff[OF m] by simp
qed

lemma live_inv_leave:
  assumes L: "live_inv mk c clk k tr tbl bs A R" and "slots_inv A free n" "dict_wf A"
    and sq: "dict_get A rid = Some sq" and k: "k \<le> k'"
  shows "live_inv (mk(seq_id sq := Clean)) (c(seq_id sq := Map.empty)) clk k' (tr @ [Closed rid why]) (dict_del rid tbl) bs
           (dict_del rid A) (dict_del rid R)"
  unfolding live_inv_def
proof (intro allI impI)
  fix r a st assume a: "dict_get (dict_del rid A) r = Some a" and st: "dict_get (dict_del rid R) r = Some st"
  then have r: "r \<noteq> rid" and a': "dict_get A r = Some a" "dict_get R r = Some st"
    by (auto simp: dict_get_del split: if_splits)
  have ne: "seq_id a \<noteq> seq_id sq" using slots_inj[OF assms(2,3) a'(1) sq] r by blast
  have "live_req mk c clk k tr tbl bs r a st" using L a' by (simp add: live_inv_def)
  then show "live_req (mk(seq_id sq := Clean)) (c(seq_id sq := Map.empty)) clk k' (tr @ [Closed rid why]) (dict_del rid tbl) bs r a st"
    unfolding live_req_def using ne r k
    by (auto simp: holds_def dict_get_del intro: order_less_le_trans)
qed

lemma prefix_inv_leave:
  assumes P: "prefix_inv bs tr A pc" and sq: "dict_get A rid = Some sq" "int32 (seq_id sq)"
  shows "prefix_inv bs (tr @ [Closed rid why]) (dict_del rid A) (map_option (be_evicted (seq_id sq)) pc)"
proof (cases pc)
  case (Some c)
  with P obtain cls where c: "be_block_size c = bs" "be_rep c cls" "\<forall>cl \<in> set cls. claim_ok bs tr A cl"
    by (auto simp: prefix_inv_def)
  have "claim_ok bs (tr @ [Closed rid why]) (dict_del rid A) cl" if "cl \<in> set (spec_evict (seq_id sq) cls)" for cl
  proof -
    from that have cl: "cl \<in> set cls" "fst cl \<noteq> seq_id sq" by (auto simp: spec_evict_def)
    with c(3) obtain r a p m where a: "dict_get A r = Some a" "seq_id a = fst cl" "acc r tr = Some (p, m)" "snd cl = blocks bs p"
      by (auto simp: claim_ok_def)
    then have "r \<noteq> rid" using sq(1) cl(2) by auto
    with a show ?thesis unfolding claim_ok_def by (auto simp: dict_get_del)
  qed
  with Some c be_evict_claims(2,3)[OF c(2) sq(2)] show ?thesis
    by (auto simp: prefix_inv_def)
qed (simp add: prefix_inv_def)

lemma prefix_inv_evict_safe:
  assumes "prefix_inv bs tr A (Some c)" "int32 sid"
  shows "evict_safe sid c"
  using assms be_evict_claims(1) by (auto simp: prefix_inv_def)

lemma hist_inv_leave:
  assumes H: "hist_inv lm eos tr live" and r: "rid \<in> live"
    and why: "why = None \<Longrightarrow> acc rid tr = Some (p, m) \<Longrightarrow> greedy lm (p @ toks rid tr) = eos \<or> int (length (toks rid tr)) = m - 1"
    and a: "acc rid tr = Some (p, m)"
  shows "hist_inv lm eos (tr @ [Closed rid why]) (live - {rid})"
proof -
  have "legal_history lm eos (tr @ [Closed rid why])" using assms by (auto simp: hist_inv_def intro!: legal_snoc)
  with assms show ?thesis unfolding hist_inv_def by (auto split: if_splits) blast
qed

lemma str_inv_leave:
  assumes S: "str_inv lib tr live m" and r: "rid \<in> live"
  shows "str_inv lib (tr @ [Closed rid why]) (live - {rid}) (stream_close rid m)"
proof -
  have "closed_stream (reads rid tr) (bytes_of lib (toks rid tr)) (close_stream st)" if "dict_get m rid = Some st" for st
    using close_stream_queue S that r unfolding str_inv_def closed_stream_def by meson
  with S r show ?thesis
    unfolding str_inv_def stream_close_def by (auto split: option.splits if_splits)
qed

lemma wait_inv_leave:
  assumes "wait_inv tr tbl bs Q" "queue_inv Q" "rid \<notin> queued_ids Q"
  shows "wait_inv (tr @ [Closed rid why]) (dict_del rid tbl) bs Q"
proof -
  have "req_id r \<noteq> rid" if "r \<in> set (waiting Q)" for r
    using that assms(2,3) waiting_ids by (metis imageI list.set_map)
  with assms(1) show ?thesis by (auto simp: wait_inv_def dict_get_del)
qed

lemma static_inv_release:
  assumes "static_inv lib st rt kv"
  shows "static_inv lib st rt (release rid kv)"
  using assms by (auto simp: static_inv_def release_inv release_static)

lemma live_ids_leave:
  assumes "ids_inv A R Q tbl" "rid \<in> set (keys A)"
  shows "set (keys (dict_del rid A)) \<union> queued_ids Q = (set (keys A) \<union> queued_ids Q) - {rid}"
  using assms unfolding ids_inv_def set_keys_del by blast

text \<open>
  \<open>finish\<close>, for a request whose record in \<open>requests\<close> may have had its remaining tokens decremented just
  before, as the token loop does.
\<close>

lemma finish_inv:
  assumes ok: "llama_ok lib cells lm" and clk: "strict_mono clk" and I: "tick_inv lib cells lm clk mk s"
    and sq: "dict_get (sv_active s) rid = Some sq" and st: "dict_get (sv_requests s) rid = Some st"
    and stf: "rs_seq_id stf = rs_seq_id st" "tokens_emitted stf = tokens_emitted st" "admitted_ts stf = admitted_ts st"
    and why: "\<And>p m. why = None \<Longrightarrow> acc rid (sv_trace s) = Some (p, m)
        \<Longrightarrow> greedy lm (p @ toks rid (sv_trace s)) = lib_token_eos lib \<or> int (length (toks rid (sv_trace s))) = m - 1"
  obtains s' where "finish lib clk rid why (s\<lparr>sv_requests := dict_set rid stf (sv_requests s)\<rparr>) = (Inr (), s')"
    "tick_inv lib cells lm clk (mk(seq_id sq := Clean)) s'"
    "sv_active s' = dict_del rid (sv_active s)" "sv_requests s' = dict_del rid (sv_requests s)"
    "sv_settings s' = sv_settings s" "sv_queue s' = sv_queue s" "sv_loop s' = sv_loop s"
    "sv_trace s' = sv_trace s @ [Closed rid why]" "sv_clock s \<le> sv_clock s'"
proof -
  note D = tick_invD[OF I]
  have live: "live_req mk (cells (rt_ctx (sv_runtime s))) clk (sv_clock s) (sv_trace s) (block_table (sv_kv s))
     (kv_block_size (sv_settings s)) rid sq st" using D(4) sq st by (simp add: live_inv_def)
  then have sid: "rs_seq_id stf = seq_id sq" and adm: "\<exists>i < sv_clock s. admitted_ts stf = clk i"
    using stf by (auto simp: live_req_def)
  obtain p m where a: "acc rid (sv_trace s) = Some (p, m)" using live by (auto simp: live_req_def)
  let ?s = "s\<lparr>sv_requests := dict_set rid stf (sv_requests s)\<rparr>"
  have R: "dict_get (sv_requests ?s) rid = Some stf" and A: "dict_get (sv_active ?s) rid = Some sq" using sq by simp_all
  have "clk i < clk (sv_clock s)" if "i < sv_clock s" for i using clk that by (simp add: strict_mono_less)
  then have ne: "fsub (clk (sv_clock ?s)) (admitted_ts stf) \<noteq> 0" using adm fsub_pos by fastforce
  have ms: "list_all event_ok (sv_metrics ?s)" using D(11) by simp
  have i32: "int32 (seq_id sq)" by (rule active_int32[OF D(1,3) sq])
  obtain s' where F: "finish lib clk rid why ?s = (Inr (), s')"
    and f: "sv_settings s' = sv_settings ?s" "sv_queue s' = sv_queue ?s" "sv_policy s' = sv_policy ?s" "sv_loop s' = sv_loop ?s"
    "sv_runtime s' = free_sequence lib (rs_seq_id stf) (sv_runtime ?s)"
    "sv_streams s' = stream_close rid (sv_streams ?s)"
    "sv_kv s' = release rid (sv_kv ?s)"
    "sv_prefix s' = map_option (be_evicted (rs_seq_id stf)) (sv_prefix ?s)"
    "list_all event_ok (sv_metrics s')"
    "sv_tracer s' = end_request rid [(''completion_tokens'', AInt (tokens_emitted stf))] (end_span rid ''generation'' (sv_tracer ?s))"
    "sv_active s' = dict_del rid (sv_active ?s)"
    "sv_requests s' = dict_del rid (sv_requests ?s)"
    "sv_free_slots s' = sv_free_slots ?s @ [rs_seq_id stf]"
    "sv_clock ?s \<le> sv_clock s'"
    "sv_trace s' = sv_trace ?s @ [Closed rid why]"
    by (rule finish_run[OF R A _ ms, of clk lib why]) (use ne D(7) prefix_inv_evict_safe[OF _ i32] sid in auto)
  note f = f[simplified sid, simplified]
  have wfA: "dict_wf (sv_active s)" and rk: "rid \<in> set (keys (sv_active s))" and rq: "rid \<notin> queued_ids (sv_queue s)"
    using D(2) in_keys[OF sq] unfolding ids_inv_def by blast+
  have qi: "queue_inv (sv_queue s)" using D(2) by (simp add: ids_inv_def)
  have ctx: "cells (rt_ctx (sv_runtime s')) = (cells (rt_ctx (sv_runtime s)))(seq_id sq := Map.empty)"
    using llama_okD(1)[OF ok] by (simp add: f free_sequence_def)
  have rt: "static_inv lib (sv_settings s) (sv_runtime s') (sv_kv s)"
    using D(1) by (auto simp: static_inv_def f free_sequence_def runtime_wf_def)
  have li: "live_ids s' = live_ids s - {rid}" using live_ids_leave[OF D(2) rk] by (simp add: f del: set_map)
  have "tick_inv lib cells lm clk (mk(seq_id sq := Clean)) s'"
    unfolding tick_inv_def ctx li
  proof (intro conjI)
    show "static_inv lib (sv_settings s') (sv_runtime s') (sv_kv s')"
      using static_inv_release[OF rt] by (simp add: f)
    show "ids_inv (sv_active s') (sv_requests s') (sv_queue s') (block_table (sv_kv s'))"
      using ids_inv_leave[OF D(2) rk] by (simp add: f release_table)
    show "slots_inv (sv_active s') (sv_free_slots s') (n_seq_max (sv_settings s'))"
      using slots_inv_leave[OF D(3) wfA sq] by (simp add: f)
    show "live_inv (mk(seq_id sq := Clean)) ((cells (rt_ctx (sv_runtime s)))(seq_id sq := Map.empty)) clk (sv_clock s') (sv_trace s')
        (block_table (sv_kv s')) (kv_block_size (sv_settings s')) (sv_active s') (sv_requests s')"
      using live_inv_leave[OF D(4,3) wfA sq f(14), of why] by (simp add: f release_table)
    show "wait_inv (sv_trace s') (block_table (sv_kv s')) (kv_block_size (sv_settings s')) (sv_queue s')"
      using wait_inv_leave[OF D(5) qi rq] by (simp add: f release_table)
    show "free_inv ((cells (rt_ctx (sv_runtime s)))(seq_id sq := Map.empty)) (sv_free_slots s')"
      using D(6) by (auto simp: free_inv_def f holds_def)
    show "prefix_inv (kv_block_size (sv_settings s')) (sv_trace s') (sv_active s') (sv_prefix s')"
      using prefix_inv_leave[OF D(7) sq i32] by (simp add: f)
    show "hist_inv lm (lib_token_eos lib) (sv_trace s') (live_ids s - {rid})"
      using hist_inv_leave[OF D(8) _ why a, of why] rk by (auto simp: f)
    show "str_inv lib (sv_trace s') (live_ids s - {rid}) (sv_streams s')"
      using str_inv_leave[OF D(9), of rid why] rk by (simp add: f del: set_map)
    show "spans_inv (sv_tracer s') (set (keys (sv_active s'))) (queued_ids (sv_queue s'))"
      using spans_inv_finish[OF D(10) rk rq] by (simp add: f set_keys_del del: set_map)
    show "list_all event_ok (sv_metrics s')" by (rule f(9))
  qed
  with F f show thesis by (intro that[of s']) auto
qed

section \<open>A waiting request expires\<close>

lemma waiting_del:
  assumes "queue_inv Q" "dict_get (waiting_d Q) rid = Some r"
  shows "queue_inv (Q\<lparr>waiting_d := dict_del rid (waiting_d Q)\<rparr>)"
    "set (waiting (Q\<lparr>waiting_d := dict_del rid (waiting_d Q)\<rparr>)) = set (waiting Q) - {r}"
    "queued_ids (Q\<lparr>waiting_d := dict_del rid (waiting_d Q)\<rparr>) = queued_ids Q - {rid}"
proof -
  note Q = queue_remove_inv[OF assms(1) queue_remove_eq[OF assms(2)]]
  show "queue_inv (Q\<lparr>waiting_d := dict_del rid (waiting_d Q)\<rparr>)" by (rule Q(1))
  have "distinct (waiting Q)" using distinct_waiting_ids[OF assms(1)] by (simp add: distinct_map)
  then show "set (waiting (Q\<lparr>waiting_d := dict_del rid (waiting_d Q)\<rparr>)) = set (waiting Q) - {r}"
    unfolding Q(3) by (rule set_remove1_eq)
  show "queued_ids (Q\<lparr>waiting_d := dict_del rid (waiting_d Q)\<rparr>) = queued_ids Q - {rid}"
    by (simp add: set_keys_del del: set_map)
qed

lemma expire_inv:
  assumes I: "tick_inv lib cells lm clk mk s" and q: "dict_get (waiting_d (sv_queue s)) (req_id r) = Some r"
  obtains s' where "expire_waiter now r s = (Inr (), s')" "tick_inv lib cells lm clk mk s'"
    "sv_active s' = sv_active s" "sv_settings s' = sv_settings s" "sv_loop s' = sv_loop s"
    "s' = s \<or> waiting_d (sv_queue s') = dict_del (req_id r) (waiting_d (sv_queue s))"
    "arrived (sv_queue s') = arrived (sv_queue s)" "sv_clock s' = sv_clock s" "keeps s s'"
proof (cases "fsub now (arrival_ts r) > queue_timeout_seconds (sv_settings s)")
  case False
  then have "expire_waiter now r s = (Inr (), s)" by (simp add: expire_waiter_run[OF q])
  with I show thesis by (intro that[of s]) auto
next
  case True
  let ?rid = "req_id r" and ?Q = "(sv_queue s)\<lparr>waiting_d := dict_del (req_id r) (waiting_d (sv_queue s))\<rparr>"
  define s' where "s' = snd (expire_waiter now r s)"
  have E: "expire_waiter now r s = (Inr (), s')" by (simp add: s'_def expire_waiter_run[OF q])
  have f: "sv_settings s' = sv_settings s" "sv_runtime s' = sv_runtime s" "sv_queue s' = ?Q"
    "sv_streams s' = stream_close ?rid (sv_streams s)" "sv_kv s' = release ?rid (sv_kv s)" "sv_prefix s' = sv_prefix s"
    "sv_metrics s' = sv_metrics s @ [MInc ''cancellations_total'' [''queue_timeout''] 1]"
    "sv_tracer s' = end_request ?rid [(''completion_tokens'', AInt 0)] (end_span ?rid ''queue_wait'' (sv_tracer s))"
    "sv_active s' = sv_active s" "sv_requests s' = sv_requests s" "sv_free_slots s' = sv_free_slots s" "sv_loop s' = sv_loop s"
    "sv_clock s' = sv_clock s" "sv_trace s' = sv_trace s @ [Closed ?rid (Some ''queue_timeout'')]"
    using True by (simp_all add: s'_def expire_waiter_run[OF q])
  note D = tick_invD[OF I]
  have qi: "queue_inv (sv_queue s)" using D(2) by (simp add: ids_inv_def)
  note W = waiting_del[OF qi q]
  have rq: "?rid \<in> queued_ids (sv_queue s)" by (rule in_keys[OF q])
  then have ra: "?rid \<notin> set (keys (sv_active s))" using D(2) unfolding ids_inv_def by blast
  have li: "live_ids s' = live_ids s - {?rid}" using W(3) ra unfolding f by blast
  obtain p m where a: "acc ?rid (sv_trace s) = Some (p, m)" using D(8) rq unfolding hist_inv_def by fastforce
  have "tick_inv lib cells lm clk mk s'"
    unfolding tick_inv_def li
  proof (intro conjI)
    show "static_inv lib (sv_settings s') (sv_runtime s') (sv_kv s')"
      unfolding f by (rule static_inv_release[OF D(1)])
    show "ids_inv (sv_active s') (sv_requests s') (sv_queue s') (block_table (sv_kv s'))"
      using D(2) W(1,3) ra unfolding ids_inv_def f release_table set_keys_del by (auto simp del: set_map)
    show "slots_inv (sv_active s') (sv_free_slots s') (n_seq_max (sv_settings s'))" unfolding f by (rule D(3))
    show "live_inv mk (cells (rt_ctx (sv_runtime s'))) clk (sv_clock s') (sv_trace s')
        (block_table (sv_kv s')) (kv_block_size (sv_settings s')) (sv_active s') (sv_requests s')"
    proof -
      have "rid' \<noteq> ?rid" if "dict_get (sv_active s) rid' = Some sq" for rid' sq using in_keys[OF that] ra by metis
      with D(4) show ?thesis by (auto simp: live_inv_def live_req_def f release_table dict_get_del)
    qed
    show "wait_inv (sv_trace s') (block_table (sv_kv s')) (kv_block_size (sv_settings s')) (sv_queue s')"
    proof -
      have "req_id x \<noteq> ?rid" if "x \<in> set (waiting (sv_queue s))" "x \<noteq> r" for x
        using that in_waiting[OF qi, of x] q by auto
      with D(5) W(2) show ?thesis by (auto simp: wait_inv_def f release_table dict_get_del)
    qed
    show "free_inv (cells (rt_ctx (sv_runtime s'))) (sv_free_slots s')" unfolding f by (rule D(6))
    show "prefix_inv (kv_block_size (sv_settings s')) (sv_trace s') (sv_active s') (sv_prefix s')"
      using D(7) by (simp add: prefix_inv_def claim_ok_def f split: option.splits)
    show "hist_inv lm (lib_token_eos lib) (sv_trace s') (live_ids s - {?rid})"
      unfolding f by (rule hist_inv_leave[OF D(8) _ _ a]) (use rq in auto)
    show "str_inv lib (sv_trace s') (live_ids s - {?rid}) (sv_streams s')"
      unfolding f by (rule str_inv_leave[OF D(9)]) (use rq in auto)
    show "spans_inv (sv_tracer s') (set (keys (sv_active s'))) (queued_ids (sv_queue s'))"
      using spans_inv_expire[OF D(10) rq ra] unfolding f W(3) .
    show "list_all event_ok (sv_metrics s')" using D(11) by (simp add: f)
  qed
  moreover have "keeps s s'" unfolding keeps_def li by (auto simp: f)
  ultimately show thesis using E f by (intro that[of s']) auto
qed

section \<open>A request enters a slot\<close>

text \<open>
  The reused prefix: whatever the prefix cache offers, afterwards the new slot holds exactly the first
  \<open>past\<close> tokens of its own prompt, and at least one token is left to decode.
\<close>

lemma claimed_prefix_holds:
  assumes ok: "llama_ok lib cells lm"
    and P: "prefix_inv bs tr A (Some c)" and bs: "0 < bs"
    and S: "slots_inv A free n" and sid: "sid \<in> set free" and F: "free_inv (cells (rt_ctx rt)) free"
    and L: "live_inv clean (cells (rt_ctx rt)) clk k tr tbl bs A R" and KA: "keys A = keys R"
    and hit: "hit = be_hit t c" "is_hit hit" and tk: "c_tokens t"
    and r: "reuse_prefix lib (match_seq_id hit) sid (n_tokens hit) rt = (reused, rt')"
    and past: "past = (if reused then n_tokens hit else 0)"
  shows "holds (cells (rt_ctx rt')) sid (take (nat past) t)" "0 \<le> past" "past < int (length t)"
    "\<And>s. s \<noteq> sid \<Longrightarrow> cells (rt_ctx rt') s = cells (rt_ctx rt) s" "rt' = rt\<lparr>rt_ctx := rt_ctx rt'\<rparr>"
proof -
  from P obtain cls where c: "be_block_size c = bs" "be_rep c cls" "\<forall>cl \<in> set cls. claim_ok bs tr A cl"
    by (auto simp: prefix_inv_def)
  have h: "hit = spec_reuse bs t cls" using hit(1) be_lookup[OF c(2) tk] c(1) by simp
  from spec_reuse_sound[OF bs hit(2)[unfolded h]] obtain b where b: "(match_seq_id hit, b) \<in> set cls"
    "n_tokens hit < int (length t)" "nat (n_tokens hit) \<le> length (concat b)"
    "take (nat (n_tokens hit)) (concat b) = take (nat (n_tokens hit)) t" unfolding h by blast
  from b(1) c(3) obtain rid sq p m where d: "dict_get A rid = Some sq" "seq_id sq = match_seq_id hit"
    "acc rid tr = Some (p, m)" "b = blocks bs p" by (fastforce simp: claim_ok_def)
  obtain st where "dict_get R rid = Some st" using keys_eq_get[OF KA d(1)] by blast
  with L d(1) have "live_req clean (cells (rt_ctx rt)) clk k tr tbl bs rid sq st" by (simp add: live_inv_def)
  with d(2,3) have h: "holds (cells (rt_ctx rt)) (match_seq_id hit) (take (nat (n_past sq)) (p @ toks rid tr))"
    by (auto simp: live_req_def)
  have e: "holds (cells (rt_ctx rt)) sid []" using F sid by (simp add: free_inv_def)
  note U = reuse_prefix_holds[OF ok h e r]
  have nhit: "0 < n_tokens hit" using hit(2) by (simp add: is_hit_def)
  show "s \<noteq> sid \<Longrightarrow> cells (rt_ctx rt') s = cells (rt_ctx rt) s" for s by (rule U(3))
  show "rt' = rt\<lparr>rt_ctx := rt_ctx rt'\<rparr>" by (rule U(4))
  show "0 \<le> past" "past < int (length t)" using past nhit b(2) by auto
  have cb: "concat b = take (length b * nat bs) p"
    using concat_take_blocks[OF bs, of "length b" p] d(4) by simp
  then have np: "nat (n_tokens hit) \<le> length p" "nat (n_tokens hit) \<le> length b * nat bs" using b(3) by simp_all
  have "take (nat (n_tokens hit)) (concat b) = take (nat (n_tokens hit)) p" using cb np(2) by (simp add: min_absorb1)
  with b(4) have same: "take (nat (n_tokens hit)) p = take (nat (n_tokens hit)) t" by simp
  show "holds (cells (rt_ctx rt')) sid (take (nat past) t)"
  proof (cases reused)
    case True
    then have "nat (n_tokens hit) \<le> length (take (nat (n_past sq)) (p @ toks rid tr))" using U(1) by linarith
    then have "nat (n_tokens hit) \<le> nat (n_past sq)" by simp
    then have "take (nat (n_tokens hit)) (take (nat (n_past sq)) (p @ toks rid tr)) = take (nat (n_tokens hit)) p"
      using np(1) by (simp add: min_absorb1 del: take_append) simp
    with U(2) True past same show ?thesis by simp
  qed (use U(2) past in simp)
qed

lemma ids_inv_enter:
  assumes "ids_inv A R Q tbl" "dict_get (waiting_d Q) rid = Some r"
  shows "ids_inv (dict_set rid a A) (dict_set rid st R) (Q\<lparr>waiting_d := dict_del rid (waiting_d Q)\<rparr>) tbl"
proof -
  have qi: "queue_inv Q" and ra: "rid \<notin> set (keys A)" and rq: "rid \<in> queued_ids Q" and rr: "rid \<notin> set (keys R)"
    using assms in_keys[OF assms(2)] unfolding ids_inv_def by (metis disjoint_iff)+
  have "keys (dict_set rid a A) = keys (dict_set rid st R)"
    using assms(1) by (simp add: keys_set_new[OF ra] keys_set_new[OF rr] ids_inv_def)
  then show ?thesis using assms(1) rq waiting_del[OF qi assms(2)] ra
    unfolding ids_inv_def set_keys_set by (auto simp del: set_map)
qed

lemma slots_inv_enter:
  assumes "slots_inv A (free @ [sid]) n" "rid \<notin> set (keys A)" "seq_id a = sid"
  shows "slots_inv (dict_set rid a A) free n"
  using assms by (auto simp: slots_inv_def keys_set_new)

lemma prefix_inv_enter:
  assumes P: "prefix_inv bs tr A pc" and new: "rid \<notin> set (keys A)" and a: "seq_id a = sid" "acc rid tr = Some (t, m)"
    and ok: "c_tokens t" "int32 sid"
    and fit: "\<And>c cls. pc = Some c \<Longrightarrow> be_rep c cls \<Longrightarrow> \<forall>cl \<in> set cls. claim_ok bs tr A cl \<Longrightarrow> claims_fit (spec_insert bs t sid cls)"
  shows "prefix_inv bs tr (dict_set rid a A) (map_option (be_claimed t sid) pc)" "pc = Some c \<Longrightarrow> claim_safe t sid c"
proof -
  show "pc = Some c \<Longrightarrow> claim_safe t sid c"
    using P fit[of c] be_claim(1)[OF _ ok, of c] by (auto simp: prefix_inv_def)
  show "prefix_inv bs tr (dict_set rid a A) (map_option (be_claimed t sid) pc)"
  proof (cases pc)
    case (Some c)
    with P obtain cls where c: "be_block_size c = bs" "be_rep c cls" "\<forall>cl \<in> set cls. claim_ok bs tr A cl"
      by (auto simp: prefix_inv_def)
    have "claim_ok bs tr (dict_set rid a A) cl" if "cl \<in> set (spec_insert bs t sid cls)" for cl
    proof -
      have "cl = (sid, blocks bs t) \<or> cl \<in> set cls" using that by (auto simp: spec_insert_def spec_evict_def split: if_splits)
      then show ?thesis
      proof
        assume "cl \<in> set cls"
        with c(3) obtain r b p m where b: "dict_get A r = Some b" "seq_id b = fst cl" "acc r tr = Some (p, m)" "snd cl = blocks bs p"
          by (auto simp: claim_ok_def)
        moreover have "r \<noteq> rid" using in_keys[OF b(1)] new by auto
        ultimately show ?thesis unfolding claim_ok_def by (intro exI[of _ r] exI[of _ b]) auto
      qed (use a in \<open>auto simp: claim_ok_def\<close>)
    qed
    with Some c be_claim(2,3)[OF c(2) ok] fit[OF Some c(2,3)] show ?thesis
      by (auto simp: prefix_inv_def)
  qed (simp add: prefix_inv_def)
qed

text \<open>
  The blocks a running request has published are covered by its reservation, and so are those of the
  request that enters: together they fit the context, and with it 32 bits.
\<close>

lemma waiting_reserved:
  assumes I: "tick_inv lib cells lm clk mk s" and q: "dict_get (waiting_d (sv_queue s)) (req_id rq) = Some rq"
  shows "acc (req_id rq) (sv_trace s) = Some (prompt_tokens rq, max_tokens rq)" "req_id rq \<notin> set (keys (sv_active s))"
    "\<exists>b. dict_get (block_table (sv_kv s)) (req_id rq) = Some b \<and> int (length (prompt_tokens rq)) \<le> b * kv_block_size (sv_settings s)"
    "c_tokens (prompt_tokens rq)"
proof -
  note D = tick_invD[OF I]
  have qi: "queue_inv (sv_queue s)" using D(2) by (auto simp: ids_inv_def)
  then have "rq \<in> set (waiting (sv_queue s))" using in_waiting q by blast
  with D(5) obtain b where a: "acc (req_id rq) (sv_trace s) = Some (prompt_tokens rq, max_tokens rq)" "toks (req_id rq) (sv_trace s) = []"
    and b: "dict_get (block_table (sv_kv s)) (req_id rq) = Some b"
      "int (length (prompt_tokens rq)) + max_tokens rq \<le> b * kv_block_size (sv_settings s)"
    by (auto simp: wait_inv_def)
  show "acc (req_id rq) (sv_trace s) = Some (prompt_tokens rq, max_tokens rq)" by (rule a(1))
  show "req_id rq \<notin> set (keys (sv_active s))" using D(2) in_keys[OF q] unfolding ids_inv_def by blast
  have h: "list_all int32 (prompt_tokens rq)" "0 < max_tokens rq" using D(8) a unfolding hist_inv_def by fastforce+
  with b show "\<exists>b. dict_get (block_table (sv_kv s)) (req_id rq) = Some b \<and> int (length (prompt_tokens rq)) \<le> b * kv_block_size (sv_settings s)"
    by auto
  have "int (length (prompt_tokens rq)) \<le> n_ctx (sv_settings s)" using reserved_tokens(3)[OF D(1) b(1)] b(2) h(2) by linarith
  moreover have "n_ctx (sv_settings s) < 2 ^ 31" using D(1) by (simp add: static_inv_def config_ok_def)
  ultimately show "c_tokens (prompt_tokens rq)" using h(1) by (simp add: c_tokens_def)
qed

lemma claims_fit_enter:
  assumes I: "tick_inv lib cells lm clk mk s" and q: "dict_get (waiting_d (sv_queue s)) (req_id rq) = Some rq"
    and rep: "be_rep c cls" and cls: "\<forall>cl \<in> set cls. claim_ok (kv_block_size (sv_settings s)) (sv_trace s) (sv_active s) cl"
  shows "claims_fit (spec_insert (kv_block_size (sv_settings s)) (prompt_tokens rq) sid cls)"
proof -
  note D = tick_invD[OF I] and W = waiting_reserved[OF I q] and T = reserved_tokens[OF tick_invD(1)[OF I]]
  let ?bs = "kv_block_size (sv_settings s)" and ?t = "prompt_tokens rq" and ?T = "block_table (sv_kv s)"
  let ?N = "spec_insert ?bs ?t sid cls"
  let ?owner = "\<lambda>r. if r = req_id rq then sid else seq_id (the (dict_get (sv_active s) r))"
  have bs: "0 < ?bs" using D(1) by (simp add: static_inv_def config_ok_def)
  have "\<exists>r. ?owner r = fst cl \<and> (\<exists>b. dict_get ?T r = Some b \<and> int (length (snd cl)) \<le> b * ?bs)" if "cl \<in> set ?N" for cl
  proof -
    have "cl = (sid, blocks ?bs ?t) \<or> cl \<in> set cls" using that by (auto simp: spec_insert_def spec_evict_def split: if_splits)
    then show ?thesis
    proof
      assume cl: "cl = (sid, blocks ?bs ?t)"
      then show ?thesis using W(3) length_blocks_le[OF bs, of ?t] by (intro exI[of _ "req_id rq"]) auto
    next
      assume "cl \<in> set cls"
      with cls obtain r sq p m where r: "dict_get (sv_active s) r = Some sq" "seq_id sq = fst cl"
        "acc r (sv_trace s) = Some (p, m)" "snd cl = blocks ?bs p" by (auto simp: claim_ok_def)
      obtain st where "dict_get (sv_requests s) r = Some st" using keys_eq_get[OF _ r(1)] D(2) unfolding ids_inv_def by blast
      with D(4) r(1,3) obtain b where b: "dict_get ?T r = Some b" "int (length p) + m \<le> b * ?bs"
        by (force simp: live_inv_def live_req_def)
      have "0 < m" using D(8) r(3) unfolding hist_inv_def by fastforce
      then have "int (length (snd cl)) \<le> b * ?bs" using b(2) r(4) length_blocks_le[OF bs, of p] by simp
      moreover have "r \<noteq> req_id rq" using W(2) in_keys[OF r(1)] by metis
      ultimately show ?thesis using r(1,2) b(1) by (intro exI[of _ r]) auto
    qed
  qed
  then obtain f where f: "\<forall>cl \<in> set ?N. ?owner (f cl) = fst cl \<and> (\<exists>b. dict_get ?T (f cl) = Some b \<and> int (length (snd cl)) \<le> b * ?bs)"
    using bchoice[of "set ?N" "\<lambda>cl r. ?owner r = fst cl \<and> (\<exists>b. dict_get ?T r = Some b \<and> int (length (snd cl)) \<le> b * ?bs)"] by blast
  have "claims_wf ?N" using spec_insert_wf[OF bs] be.rep_wf[OF rep] by blast
  then have d: "distinct (map fst ?N)" by (simp add: claims_wf_def)
  have "inj_on f (set ?N)"
  proof (rule inj_onI)
    fix x y assume "x \<in> set ?N" "y \<in> set ?N" "f x = f y"
    with f have "fst x = fst y" by metis
    with d \<open>x \<in> set ?N\<close> \<open>y \<in> set ?N\<close> show "x = y" by (metis distinct_map inj_onD)
  qed
  then have wf: "dict_wf (map (\<lambda>cl. (f cl, cl)) ?N)" using d by (simp add: dict_wf_def comp_def distinct_map)
  have "(\<Sum>x\<leftarrow>vals (map (\<lambda>cl. (f cl, cl)) ?N). int (length (snd x))) \<le> (\<Sum>e\<leftarrow>?T. snd e * ?bs)"
  proof (rule sum_list_subdict[OF wf T(4)])
    fix k cl assume "dict_get (map (\<lambda>cl. (f cl, cl)) ?N) k = Some cl"
    then have "cl \<in> set ?N \<and> k = f cl" by (auto dest: dict_getD)
    with f show "\<exists>b. dict_get ?T k = Some b \<and> int (length (snd cl)) \<le> b * ?bs" by blast
  qed (rule T(2))
  then have "(\<Sum>x\<leftarrow>?N. int (length (snd x))) \<le> n_ctx (sv_settings s)" using T(1) by (simp add: comp_def)
  moreover have "int (card (paths ?N - {[]})) \<le> (\<Sum>x\<leftarrow>?N. int (length (snd x)))"
    by (rule card_paths_le)
  moreover have "n_ctx (sv_settings s) < 2 ^ 31" using D(1) by (simp add: static_inv_def config_ok_def)
  ultimately show ?thesis unfolding claims_fit_def by linarith
qed

lemma enter_safe:
  assumes I: "tick_inv lib cells lm clk mk s" and q: "dict_get (waiting_d (sv_queue s)) (req_id rq) = Some rq"
    and sid: "sid \<in> set (sv_free_slots s)"
  shows "sv_prefix s = Some c \<Longrightarrow> claim_safe (prompt_tokens rq) sid c"
    "seq_id a = sid \<Longrightarrow> prefix_inv (kv_block_size (sv_settings s)) (sv_trace s) (dict_set (req_id rq) a (sv_active s))
       (map_option (be_claimed (prompt_tokens rq) sid) (sv_prefix s))"
proof -
  note D = tick_invD[OF I] and W = waiting_reserved[OF I q]
  have i: "int32 sid" using slot_int32[OF D(1,3)] sid by simp
  have sq: "seq_id \<lparr>seq_id = sid, pending_tokens = [], n_past = 0\<rparr> = sid" by simp
  note fit = claims_fit_enter[OF I q]
  show "sv_prefix s = Some c \<Longrightarrow> claim_safe (prompt_tokens rq) sid c"
    by (rule prefix_inv_enter(2)[OF D(7) W(2) sq W(1,4) i]) (use fit in blast)+
  show "prefix_inv (kv_block_size (sv_settings s)) (sv_trace s) (dict_set (req_id rq) a (sv_active s))
       (map_option (be_claimed (prompt_tokens rq) sid) (sv_prefix s))" if "seq_id a = sid"
    by (rule prefix_inv_enter(1)[OF D(7) W(2) that W(1,4) i]) (use fit in blast)
qed

lemma admit_inv:
  assumes ok: "llama_ok lib cells lm" and I: "tick_inv lib cells lm clk clean s"
    and q: "dict_get (waiting_d (sv_queue s)) (req_id rq) = Some rq" and free: "sv_free_slots s \<noteq> []"
  obtains s' where "admit_chosen lib clk rq s = (Inr (), s')" "tick_inv lib cells lm clk clean s'"
    "length (sv_free_slots s') = length (sv_free_slots s) - 1"
    "waiting_d (sv_queue s') = dict_del (req_id rq) (waiting_d (sv_queue s))"
    "sv_settings s' = sv_settings s" "sv_loop s' = sv_loop s"
    "sv_active s' \<noteq> []" "sv_policy s' = sv_policy s" "keeps s s'"
proof -
  note D = tick_invD[OF I]
  let ?rid = "req_id rq" and ?t = "prompt_tokens rq" and ?bs = "kv_block_size (sv_settings s)"
  let ?c = "cells (rt_ctx (sv_runtime s))"
  obtain fr sid where fs: "sv_free_slots s = fr @ [sid]" using free by (metis rev_exhaust)
  have sidf: "sid \<in> set (sv_free_slots s)" by (simp add: fs)
  note safe = enter_safe(1)[OF I q sidf]
  obtain past rt' ms' where run: "admit_chosen lib clk rq s = (Inr (), s\<lparr>
       sv_runtime := rt',
       sv_queue := (sv_queue s)\<lparr>waiting_d := dict_del (req_id rq) (waiting_d (sv_queue s))\<rparr>,
       sv_prefix := map_option (be_claimed (prompt_tokens rq) sid) (sv_prefix s),
       sv_metrics := ms',
       sv_tracer := start_span (req_id rq) ''generation'' (end_span (req_id rq) ''queue_wait'' (sv_tracer s)),
       sv_active := dict_set (req_id rq) \<lparr>seq_id = sid, pending_tokens = py_drop past (prompt_tokens rq), n_past = past\<rparr> (sv_active s),
       sv_requests := dict_set (req_id rq) \<lparr>rs_seq_id = sid, remaining_tokens = max_tokens rq, rs_arrival_ts = arrival_ts rq,
         admitted_ts = clk (sv_clock s), tokens_emitted = 0, last_token_ts = None\<rparr> (sv_requests s),
       sv_free_slots := fr,
       sv_clock := Suc (sv_clock s)\<rparr>)" (is "_ = (Inr (), ?s')")
    and ms': "list_all event_ok ms'"
    and claim: "past = 0 \<and> rt' = sv_runtime s \<or>
     (\<exists>c hit ok. sv_prefix s = Some c \<and> hit = be_hit (prompt_tokens rq) c
        \<and> is_hit hit \<and> reuse_prefix lib (match_seq_id hit) sid (n_tokens hit) (sv_runtime s) = (ok, rt')
        \<and> past = (if ok then n_tokens hit else 0))"
    by (rule admit_chosen_run[OF q fs D(11) safe])
  have qi: "queue_inv (sv_queue s)" and KA: "keys (sv_active s) = keys (sv_requests s)" and wfA: "dict_wf (sv_active s)"
    using D(2) by (auto simp: ids_inv_def)
  note W = waiting_del[OF qi q]
  have rq: "?rid \<in> queued_ids (sv_queue s)" by (rule in_keys[OF q])
  then have ra: "?rid \<notin> set (keys (sv_active s))" using D(2) unfolding ids_inv_def by blast
  have inw: "rq \<in> set (waiting (sv_queue s))" using in_waiting[OF qi] q by blast
  have a: "acc ?rid (sv_trace s) = Some (?t, max_tokens rq)" and tk: "toks ?rid (sv_trace s) = []"
    and bl: "\<exists>b. dict_get (block_table (sv_kv s)) ?rid = Some b \<and> int (length ?t) + max_tokens rq \<le> b * ?bs"
    using D(5) inw by (auto simp: wait_inv_def)
  have tne: "?t \<noteq> []" using D(8) a unfolding hist_inv_def by blast
  have bs: "0 < ?bs" using D(1) by (simp add: static_inv_def config_ok_def)
  have H: "holds (cells (rt_ctx rt')) sid (take (nat past) ?t) \<and> 0 \<le> past \<and> past < int (length ?t)
     \<and> (\<forall>x. x \<noteq> sid \<longrightarrow> cells (rt_ctx rt') x = ?c x) \<and> rt' = (sv_runtime s)\<lparr>rt_ctx := rt_ctx rt'\<rparr>"
    using claim
  proof
    assume "past = 0 \<and> rt' = sv_runtime s"
    with D(6) sidf tne show ?thesis by (simp add: free_inv_def)
  next
    assume "\<exists>c hit ok. sv_prefix s = Some c \<and> hit = be_hit (prompt_tokens rq) c
        \<and> is_hit hit \<and> reuse_prefix lib (match_seq_id hit) sid (n_tokens hit) (sv_runtime s) = (ok, rt')
        \<and> past = (if ok then n_tokens hit else 0)"
    then obtain c hit reused where c: "sv_prefix s = Some c"
      and hit: "hit = be_hit ?t c" "is_hit hit"
      and r: "reuse_prefix lib (match_seq_id hit) sid (n_tokens hit) (sv_runtime s) = (reused, rt')"
      and p: "past = (if reused then n_tokens hit else 0)" by blast
    note C = claimed_prefix_holds[OF ok D(7)[unfolded c] bs D(3) sidf D(6) D(4) KA hit waiting_reserved(4)[OF I q] r p]
    from C show ?thesis by blast
  qed
  then have hold: "holds (cells (rt_ctx rt')) sid (take (nat past) ?t)" and past: "0 \<le> past" "past < int (length ?t)"
    and oth: "\<And>x. x \<noteq> sid \<Longrightarrow> cells (rt_ctx rt') x = ?c x" and rt: "rt' = (sv_runtime s)\<lparr>rt_ctx := rt_ctx rt'\<rparr>" by blast+
  have rtf: "rt_capacity rt' = rt_capacity (sv_runtime s)" "rt_eos rt' = rt_eos (sv_runtime s)" "rt_batch rt' = rt_batch (sv_runtime s)"
    by (subst rt, simp)+
  have li: "live_ids ?s' = live_ids s"
    using rq by (simp add: set_keys_set set_keys_del insert_absorb del: set_map) blast
  have "tick_inv lib cells lm clk clean ?s'"
    unfolding tick_inv_def li
  proof (intro conjI)
    show "static_inv lib (sv_settings ?s') (sv_runtime ?s') (sv_kv ?s')"
      using D(1) by (auto simp: static_inv_def rtf runtime_wf_def)
    show "ids_inv (sv_active ?s') (sv_requests ?s') (sv_queue ?s') (block_table (sv_kv ?s'))"
      using ids_inv_enter[OF D(2) q] by simp
    show "slots_inv (sv_active ?s') (sv_free_slots ?s') (n_seq_max (sv_settings ?s'))"
      using slots_inv_enter[OF D(3)[unfolded fs] ra] by simp
    show "live_inv clean (cells (rt_ctx (sv_runtime ?s'))) clk (sv_clock ?s') (sv_trace ?s')
        (block_table (sv_kv ?s')) (kv_block_size (sv_settings ?s')) (sv_active ?s') (sv_requests ?s')"
      unfolding live_inv_def
    proof (intro allI impI)
      fix r sq st
      assume 1: "dict_get (sv_active ?s') r = Some sq" and 2: "dict_get (sv_requests ?s') r = Some st"
      show "live_req clean (cells (rt_ctx (sv_runtime ?s'))) clk (sv_clock ?s') (sv_trace ?s') (block_table (sv_kv ?s'))
          (kv_block_size (sv_settings ?s')) r sq st"
      proof (cases "r = ?rid")
        case True
        with 1 2 hold past bl a tk show ?thesis by (auto simp: live_req_def)
      next
        case False
        with 1 2 have o: "dict_get (sv_active s) r = Some sq" "dict_get (sv_requests s) r = Some st" by auto
        with D(4) have "live_req clean ?c clk (sv_clock s) (sv_trace s) (block_table (sv_kv s)) ?bs r sq st"
          by (simp add: live_inv_def)
        moreover have "seq_id sq \<noteq> sid" using slots_free[OF D(3) o(1)] sidf by auto
        ultimately show ?thesis using oth by (auto simp: live_req_def holds_def intro: less_SucI)
      qed
    qed
    show "wait_inv (sv_trace ?s') (block_table (sv_kv ?s')) (kv_block_size (sv_settings ?s')) (sv_queue ?s')"
      using D(5) W(2) by (simp add: wait_inv_def)
    show "free_inv (cells (rt_ctx (sv_runtime ?s'))) (sv_free_slots ?s')"
    proof -
      have "sid \<notin> set fr" using D(3) by (auto simp: slots_inv_def fs)
      then have "cells (rt_ctx rt') x = ?c x" if "x \<in> set fr" for x using that by (intro oth) auto
      with D(6) show ?thesis by (simp add: free_inv_def holds_Nil fs)
    qed
    show "prefix_inv (kv_block_size (sv_settings ?s')) (sv_trace ?s') (sv_active ?s') (sv_prefix ?s')"
      using enter_safe(2)[OF I q sidf] by simp
    show "hist_inv lm (lib_token_eos lib) (sv_trace ?s') (live_ids s)" using D(8) by simp
    show "str_inv lib (sv_trace ?s') (live_ids s) (sv_streams ?s')" using D(9) by simp
    show "spans_inv (sv_tracer ?s') (set (keys (sv_active ?s'))) (queued_ids (sv_queue ?s'))"
      using spans_inv_admit[OF D(10) rq ra] W(3) by (simp add: set_keys_set del: set_map)
    show "list_all event_ok (sv_metrics ?s')" using ms' by simp
  qed
  moreover have "keeps s ?s'"
  proof -
    have "r \<noteq> ?rid" if "dict_get (sv_active s) r = Some sq" for r sq using in_keys[OF that] ra by metis
    then show ?thesis unfolding keeps_def li by auto
  qed
  ultimately show thesis using run fs by (intro that[of ?s']) (auto simp: keys_set_new[OF ra])
qed

section \<open>From the top of the loop to the decode call\<close>

lemma tick_inv_cong:
  assumes "tick_inv lib cells lm clk mk s" "sv_clock s \<le> k" "list_all event_ok ms"
    and "queue_inv Q" "waiting_d Q = waiting_d (sv_queue s)"
  shows "tick_inv lib cells lm clk mk (s\<lparr>sv_clock := k, sv_metrics := ms, sv_loop := l, sv_policy := p, sv_queue := Q\<rparr>)"
proof -
  have "live_req mk c clk k tr tbl bs r sq st" if "live_req mk c clk (sv_clock s) tr tbl bs r sq st" for c tr tbl bs r sq st
    using that assms(2) unfolding live_req_def by (auto intro: less_le_trans)
  moreover have "waiting Q = waiting (sv_queue s)" using assms(5) by (simp add: waiting_def)
  moreover have "ids_inv (sv_active s) (sv_requests s) Q (block_table (sv_kv s))"
    using tick_invD(2)[OF assms(1)] assms(4) unfolding ids_inv_def assms(5) by blast
  ultimately show ?thesis using tick_invD[OF assms(1)] assms(3,5)
    unfolding tick_inv_def live_inv_def wait_inv_def by (simp del: set_map)
qed

lemma tick_inv_simps:
  assumes "tick_inv lib cells lm clk mk s"
  shows "sv_clock s \<le> k \<Longrightarrow> tick_inv lib cells lm clk mk (s\<lparr>sv_clock := k\<rparr>)"
    "event_ok e \<Longrightarrow> tick_inv lib cells lm clk mk (s\<lparr>sv_metrics := sv_metrics s @ [e]\<rparr>)"
    "tick_inv lib cells lm clk mk (s\<lparr>sv_loop := l\<rparr>)" "tick_inv lib cells lm clk mk (s\<lparr>sv_policy := p\<rparr>)"
    "queue_inv Q \<Longrightarrow> waiting_d Q = waiting_d (sv_queue s) \<Longrightarrow> tick_inv lib cells lm clk mk (s\<lparr>sv_queue := Q\<rparr>)"
proof -
  note D = tick_invD[OF assms]
  have q: "queue_inv (sv_queue s)" using D(2) by (simp add: ids_inv_def)
  note C = tick_inv_cong[OF assms]
  show "sv_clock s \<le> k \<Longrightarrow> tick_inv lib cells lm clk mk (s\<lparr>sv_clock := k\<rparr>)"
    using C[OF _ D(11) q refl, where k = k and l = "sv_loop s" and p = "sv_policy s"] by simp
  show "event_ok e \<Longrightarrow> tick_inv lib cells lm clk mk (s\<lparr>sv_metrics := sv_metrics s @ [e]\<rparr>)"
    using C[OF le_refl _ q refl, where ms = "sv_metrics s @ [e]" and l = "sv_loop s" and p = "sv_policy s"] D(11) by simp
  show "tick_inv lib cells lm clk mk (s\<lparr>sv_loop := l\<rparr>)" "tick_inv lib cells lm clk mk (s\<lparr>sv_policy := p\<rparr>)"
    using C[OF le_refl D(11) q refl, where l = l and p = "sv_policy s"]
      C[OF le_refl D(11) q refl, where l = "sv_loop s" and p = p] by simp_all
  show "queue_inv Q \<Longrightarrow> waiting_d Q = waiting_d (sv_queue s) \<Longrightarrow> tick_inv lib cells lm clk mk (s\<lparr>sv_queue := Q\<rparr>)"
    using C[OF le_refl D(11), where Q = Q and l = "sv_loop s" and p = "sv_policy s"] by simp
qed

lemma expire_all_inv:
  assumes I: "tick_inv lib cells lm clk mk s"
  obtains s' where "expire_stale_waiters clk s = (Inr (), s')" "tick_inv lib cells lm clk mk s'"
    "sv_active s' = sv_active s" "sv_settings s' = sv_settings s" "sv_loop s' = sv_loop s" "keeps s s'"
proof -
  let ?s = "s\<lparr>sv_clock := Suc (sv_clock s)\<rparr>"
  let ?I = "\<lambda>ys u. tick_inv lib cells lm clk mk u \<and> sv_active u = sv_active s \<and> sv_settings u = sv_settings s
     \<and> sv_loop u = sv_loop s \<and> keeps s u \<and> distinct (map req_id ys)
     \<and> (\<forall>r \<in> set ys. dict_get (waiting_d (sv_queue u)) (req_id r) = Some r)"
  have q: "queue_inv (sv_queue s)" using tick_invD(2)[OF I] by (simp add: ids_inv_def)
  have "keeps s ?s" by (simp add: keeps_def)
  then have "?I (waiting (sv_queue s)) ?s"
    using tick_inv_simps(1)[OF I] distinct_waiting_ids[OF q] in_waiting[OF q] by simp
  then have "\<exists>s'. for_each (waiting (sv_queue s)) (expire_waiter (clk (sv_clock s))) ?s = (Inr (), s') \<and> ?I [] s'"
  proof (rule for_each_invariant)
    fix r ys u assume i: "?I (r # ys) u"
    then have w: "dict_get (waiting_d (sv_queue u)) (req_id r) = Some r" and t: "tick_inv lib cells lm clk mk u" by simp_all
    obtain u' where "expire_waiter (clk (sv_clock s)) r u = (Inr (), u')" "tick_inv lib cells lm clk mk u'"
      "sv_active u' = sv_active u" "sv_settings u' = sv_settings u" "sv_loop u' = sv_loop u"
      "u' = u \<or> waiting_d (sv_queue u') = dict_del (req_id r) (waiting_d (sv_queue u))" "keeps u u'"
      by (rule expire_inv[OF t w, of "clk (sv_clock s)"]) (rule that; assumption)
    moreover have "distinct (map req_id (r # ys))" using i by blast
    then have "\<forall>r' \<in> set ys. req_id r' \<noteq> req_id r" by (auto simp: image_iff)
    moreover have "keeps s u" using i by blast
    ultimately show "\<exists>u'. expire_waiter (clk (sv_clock s)) r u = (Inr (), u') \<and> ?I ys u'"
      using i by (intro exI[of _ u']) (auto simp: dict_get_del intro: keeps_trans)
  qed
  then obtain s' where "for_each (waiting (sv_queue s)) (expire_waiter (clk (sv_clock s))) ?s = (Inr (), s')" "?I [] s'" by blast
  then show thesis by (intro that[of s']) (simp_all add: expire_stale_waiters_def)
qed

lemma schedule_inv:
  assumes ok: "llama_ok lib cells lm" and I: "tick_inv lib cells lm clk clean s"
  obtains s' where "schedule lib clk s = (Inr (), s')" "tick_inv lib cells lm clk clean s'"
    "sv_settings s' = sv_settings s" "sv_loop s' = sv_loop s" "keeps s s'"
    "sv_free_slots s \<noteq> [] \<Longrightarrow> waiting_d (sv_queue s) \<noteq> [] \<Longrightarrow> sv_active s' \<noteq> []"
proof (cases "sv_free_slots s = []")
  case True
  with I show thesis by (intro that[of s]) (simp_all add: schedule_def)
next
  case False
  have q: "queue_inv (sv_queue s)" using tick_invD(2)[OF I] by (simp add: ids_inv_def)
  let ?cap = "int (length (sv_free_slots s))" and ?pol = "ap_policy (sv_policy s)" and ?ws = "waiting (sv_queue s)"
  obtain chosen p' where sel: "select ?pol ?ws ?cap = Inr (chosen, p')" using pol.sel_total[of ?cap ?pol ?ws] by auto
  have sub: "set chosen \<subseteq> set ?ws" and dis: "distinct (map req_id chosen)" and len: "length chosen \<le> length (sv_free_slots s)"
    using pol.sel_subset[OF _ sel] pol.sel_distinct_ids[OF _ sel distinct_waiting_ids[OF q]] pol.sel_mset(2)[OF _ sel] by auto
  let ?s = "s\<lparr>sv_policy := (sv_policy s)\<lparr>ap_policy := p'\<rparr>\<rparr>"
  let ?I = "\<lambda>ys u. tick_inv lib cells lm clk clean u \<and> sv_settings u = sv_settings s \<and> sv_loop u = sv_loop s
     \<and> keeps s u \<and> (ys = chosen \<or> sv_active u \<noteq> []) \<and> distinct (map req_id ys) \<and> length ys \<le> length (sv_free_slots u)
     \<and> (\<forall>r \<in> set ys. dict_get (waiting_d (sv_queue u)) (req_id r) = Some r)"
  have "keeps s ?s" by (simp add: keeps_def)
  then have "?I chosen ?s" using tick_inv_simps(4)[OF I] sub dis len in_waiting[OF q] by auto
  then have "\<exists>s'. for_each chosen (admit_chosen lib clk) ?s = (Inr (), s') \<and> ?I [] s'"
  proof (rule for_each_invariant)
    fix r ys u assume i: "?I (r # ys) u"
    then have w: "dict_get (waiting_d (sv_queue u)) (req_id r) = Some r" and t: "tick_inv lib cells lm clk clean u"
      and fr: "sv_free_slots u \<noteq> []" by auto
    obtain u' where "admit_chosen lib clk r u = (Inr (), u')" "tick_inv lib cells lm clk clean u'"
      "length (sv_free_slots u') = length (sv_free_slots u) - 1"
      "waiting_d (sv_queue u') = dict_del (req_id r) (waiting_d (sv_queue u))"
      "sv_settings u' = sv_settings u" "sv_loop u' = sv_loop u" "keeps u u'" "sv_active u' \<noteq> []"
      by (rule admit_inv[OF ok t w fr]) (rule that; assumption)
    moreover have "distinct (map req_id (r # ys))" using i by blast
    then have "\<forall>r' \<in> set ys. req_id r' \<noteq> req_id r" by (auto simp: image_iff)
    moreover have "keeps s u" using i by blast
    ultimately show "\<exists>u'. admit_chosen lib clk r u = (Inr (), u') \<and> ?I ys u'"
      using i by (intro exI[of _ u']) (auto simp: dict_get_del intro: keeps_trans)
  qed
  then obtain s' where s': "for_each chosen (admit_chosen lib clk) ?s = (Inr (), s')" "?I [] s'" by blast
  have "run_policy s = (Inr chosen, ?s)" using sel by (simp add: run_policy_def)
  moreover have "chosen \<noteq> []" if "waiting_d (sv_queue s) \<noteq> []"
    using pol.sel_mset(2)[OF _ sel] that False by (auto simp: waiting_def min_def split: if_splits)
  ultimately show thesis using s' False by (intro that[of s']) (auto simp: schedule_def bnd_Inr[of run_policy])
qed

text \<open>
  The reservations of the running requests cover what they hold and what is pending, so together they
  fit the context, and one batch serves a chunk of every running request.
\<close>

lemma active_demand:
  assumes I: "tick_inv lib cells lm clk mk s"
  shows "(\<Sum>sq\<leftarrow>vals (sv_active s). n_past sq + int (length (pending_tokens sq))) \<le> n_ctx (sv_settings s)"
proof -
  note D = tick_invD[OF I]
  let ?bs = "kv_block_size (sv_settings s)" and ?T = "block_table (sv_kv s)"
  note T = reserved_tokens[OF D(1)]
  have wf: "dict_wf (sv_active s)" "keys (sv_active s) = keys (sv_requests s)"
    using D(2) by (auto simp: ids_inv_def)
  have "(\<Sum>sq\<leftarrow>vals (sv_active s). n_past sq + int (length (pending_tokens sq))) \<le> (\<Sum>e\<leftarrow>?T. snd e * ?bs)"
  proof (rule sum_list_subdict[OF wf(1) T(4)])
    fix r sq assume g: "dict_get (sv_active s) r = Some sq"
    then obtain st where st: "dict_get (sv_requests s) r = Some st" using keys_eq_get[OF wf(2)] by blast
    with D(4) g have "live_req mk (cells (rt_ctx (sv_runtime s))) clk (sv_clock s) (sv_trace s) ?T ?bs r sq st"
      by (simp add: live_inv_def)
    then obtain p m b where l: "acc r (sv_trace s) = Some (p, m)" "dict_get ?T r = Some b" "int (length p) + m \<le> b * ?bs"
      "0 \<le> n_past sq" "n_past sq \<le> int (length (p @ toks r (sv_trace s)))"
      "pending_tokens sq = drop (nat (n_past sq)) (p @ toks r (sv_trace s))" by (auto simp: live_req_def)
    have "int (length (toks r (sv_trace s))) < m" using D(8) l(1) unfolding hist_inv_def by blast
    moreover have "n_past sq + int (length (pending_tokens sq)) = int (length (p @ toks r (sv_trace s)))"
      using l(4,5) by (simp add: l(6) nat_le_iff)
    ultimately show "\<exists>b. dict_get ?T r = Some b \<and> n_past sq + int (length (pending_tokens sq)) \<le> b * ?bs"
      using l(2,3) by (intro exI[of _ b]) simp
  qed (rule T(2))
  with T(1) show ?thesis by linarith
qed

lemma every_sequence_served:
  assumes I: "tick_inv lib cells lm clk clean s" and sq: "dict_get (sv_active s) rid = Some sq"
  shows "taken (vals (sv_active s)) (n_ctx (sv_settings s)) (chunk_size (sv_settings s)) sq = demand (chunk_size (sv_settings s)) sq"
    "0 < demand (chunk_size (sv_settings s)) sq"
proof -
  note D = tick_invD[OF I]
  let ?act = "vals (sv_active s)" and ?c = "chunk_size (sv_settings s)"
  have c: "0 < ?c" and dist: "distinct (map seq_id ?act)" and K: "keys (sv_active s) = keys (sv_requests s)" and wf: "dict_wf (sv_active s)"
    using D(1-3) by (auto simp: static_inv_def config_ok_def slots_inv_def ids_inv_def)
  have live: "pending_tokens q \<noteq> [] \<and> 0 \<le> n_past q" if g: "dict_get (sv_active s) r = Some q" for r q
  proof -
    obtain st where "dict_get (sv_requests s) r = Some st" using keys_eq_get[OF K g] by blast
    with g D(4) show ?thesis unfolding live_inv_def live_req_def by fastforce
  qed
  have "demand ?c q \<le> n_past q + int (length (pending_tokens q))" if q: "q \<in> set ?act" for q
  proof -
    from q obtain r where "(r, q) \<in> set (sv_active s)" by force
    then have "0 \<le> n_past q" using live[OF dict_get_in[OF wf]] by blast
    then show ?thesis by linarith
  qed
  then have "(\<Sum>q\<leftarrow>?act. demand ?c q) \<le> (\<Sum>q\<leftarrow>?act. n_past q + int (length (pending_tokens q)))"
    by (rule sum_list_mono)
  with active_demand[OF I] have "(\<Sum>q\<leftarrow>?act. demand ?c q) \<le> n_ctx (sv_settings s)" by linarith
  moreover have "sq \<in> set ?act" using dict_getD[OF sq] by force
  ultimately show "taken ?act (n_ctx (sv_settings s)) ?c sq = demand ?c sq" using build_batch_full[OF c dist] by blast
  show "0 < demand ?c sq" using live[OF sq] c by simp
qed

lemma batch_nonempty:
  assumes I: "tick_inv lib cells lm clk clean s"
  shows "build_batch (vals (sv_active s)) (n_ctx (sv_settings s)) (chunk_size (sv_settings s)) = [] \<longleftrightarrow> sv_active s = []"
proof
  assume e: "build_batch (vals (sv_active s)) (n_ctx (sv_settings s)) (chunk_size (sv_settings s)) = []"
  show "sv_active s = []"
  proof (rule ccontr)
    assume "sv_active s \<noteq> []"
    then obtain r sq d where "sv_active s = (r, sq) # d" by (metis neq_Nil_conv surj_pair)
    then have "dict_get (sv_active s) r = Some sq" by simp
    from every_sequence_served[OF I this] e show False by (simp add: taken_def row_count_def)
  qed
qed (simp add: build_batch_def)

lemma start_tick_inv:
  assumes ok: "llama_ok lib cells lm" and I: "tick_inv lib cells lm clk clean s"
  obtains s' where "start_tick lib clk s = (Inr (), s')" "server_inv lib cells lm clk s'" "keeps s s'"
    "if sv_active s' = [] then sv_loop s' = AtTop else \<exists>rows t. sv_loop s' = AwaitDecode rows t"
    "sv_free_slots s \<noteq> [] \<Longrightarrow> waiting_d (sv_queue s) \<noteq> [] \<Longrightarrow> sv_active s' \<noteq> []"
proof -
  define s1 where "s1 = snd (set_gauges s)"
  have g: "set_gauges s = (Inr (), s1)" by (simp add: s1_def set_gauges_def)
  have I1: "tick_inv lib cells lm clk clean s1"
    unfolding s1_def set_gauges_def by (simp add: tick_inv_simps(2)[OF tick_inv_simps(2)[OF tick_inv_simps(2)[OF I]], simplified])
  have k1: "keeps s s1" "sv_free_slots s1 = sv_free_slots s" "sv_queue s1 = sv_queue s"
    by (simp_all add: s1_def set_gauges_def keeps_def)
  obtain s2 where s2: "schedule lib clk s1 = (Inr (), s2)" "tick_inv lib cells lm clk clean s2" "keeps s1 s2"
    "sv_free_slots s1 \<noteq> [] \<Longrightarrow> waiting_d (sv_queue s1) \<noteq> [] \<Longrightarrow> sv_active s2 \<noteq> []"
    by (rule schedule_inv[OF ok I1]) (rule that; assumption)
  let ?p = "build_batch (vals (sv_active s2)) (batch_capacity (sv_runtime s2)) (chunk_size (sv_settings s2))"
  have cap: "batch_capacity (sv_runtime s2) = n_ctx (sv_settings s2)"
    using tick_invD(1)[OF s2(2)] by (simp add: static_inv_def batch_capacity_def)
  note run = start_tick_def bnd_Inr[of set_gauges, OF g] bnd_Inr[of "schedule lib clk", OF s2(1)]
  have k2: "keeps s (s2\<lparr>sv_loop := l\<rparr>)" "keeps s (s2\<lparr>sv_clock := k, sv_loop := l\<rparr>)" for l k
    using keeps_trans[OF k1(1) s2(3)] by (simp_all add: keeps_def del: set_map)
  note N = batch_nonempty[OF s2(2)]
  show thesis
  proof (cases "?p = []")
    case True
    then show thesis using tick_inv_simps(3)[OF s2(2)] k2 N cap s2(4) k1
      by (intro that[of "s2\<lparr>sv_loop := AtTop\<rparr>"]) (simp_all add: run server_inv_def loop_inv_def)
  next
    case False
    then show thesis using tick_inv_simps(3)[OF tick_inv_simps(1)[OF s2(2), of "Suc (sv_clock s2)"]] cap k2 N s2(4) k1
      by (intro that[of "s2\<lparr>sv_clock := Suc (sv_clock s2), sv_loop := AwaitDecode ?p (clk (sv_clock s2))\<rparr>"])
        (simp_all add: run server_inv_def loop_inv_def)
  qed
qed

lemma idle_or_decoding:
  assumes I: "tick_inv lib cells lm clk clean s" and n: "0 < n_seq_max (sv_settings s)" and k: "keeps s s'"
    and l: "if sv_active s' = [] then sv_loop s' = AtTop else \<exists>rows t. sv_loop s' = AwaitDecode rows t"
    and a: "sv_free_slots s \<noteq> [] \<Longrightarrow> waiting_d (sv_queue s) \<noteq> [] \<Longrightarrow> sv_active s' \<noteq> []"
  shows "(\<exists>rows t. sv_loop s' = AwaitDecode rows t) \<or> live_ids s' = {}"
proof (cases "sv_active s' = []")
  case True
  then have A: "sv_active s = []" using keeps_active[OF k] by blast
  have "sv_free_slots s \<noteq> []" using tick_invD(3)[OF I] n unfolding slots_inv_def A by (cases "sv_free_slots s = []") auto
  then have "waiting_d (sv_queue s) = []" using a True by blast
  then have "live_ids s = {}" using A by simp
  then have "live_ids s' = {}" using k unfolding keeps_def by (metis subset_empty)
  then show ?thesis by blast
qed (use l in auto)

lemma wait_pass_inv:
  assumes ok: "llama_ok lib cells lm" and I: "tick_inv lib cells lm clk clean s" and A: "sv_active s = []"
  obtains s' where "wait_pass lib clk s = (Inr (), s')" "server_inv lib cells lm clk s'" "keeps s s'"
    "0 < n_seq_max (sv_settings s) \<Longrightarrow> (\<exists>rows t. sv_loop s' = AwaitDecode rows t) \<or> live_ids s' = {}"
proof (cases "waiting_d (sv_queue s) = []")
  case True
  let ?Q = "(sv_queue s)\<lparr>arrived := False\<rparr>"
  have "queue_inv ?Q" using tick_invD(2)[OF I] by (simp add: ids_inv_def queue_inv_def)
  then have "tick_inv lib cells lm clk clean (s\<lparr>sv_queue := ?Q, sv_loop := AwaitArrival\<rparr>)"
    using tick_inv_simps(3)[OF tick_inv_simps(5)[OF I], of ?Q] by simp
  moreover have "keeps s (s\<lparr>sv_queue := ?Q, sv_loop := AwaitArrival\<rparr>)" by (simp add: keeps_def)
  ultimately show thesis using True A
    by (intro that[of "s\<lparr>sv_queue := ?Q, sv_loop := AwaitArrival\<rparr>"])
      (simp_all add: wait_pass_def wait_check_def run_call server_inv_def loop_inv_def)
next
  case False
  obtain s1 where s1: "expire_stale_waiters clk s = (Inr (), s1)" "tick_inv lib cells lm clk clean s1"
    "sv_active s1 = sv_active s" "sv_settings s1 = sv_settings s" "keeps s s1"
    by (rule expire_all_inv[OF I]) (rule that; assumption)
  obtain s2 where s2: "start_tick lib clk s1 = (Inr (), s2)" "server_inv lib cells lm clk s2" "keeps s1 s2"
    "if sv_active s2 = [] then sv_loop s2 = AtTop else \<exists>rows t. sv_loop s2 = AwaitDecode rows t"
    "sv_free_slots s1 \<noteq> [] \<Longrightarrow> waiting_d (sv_queue s1) \<noteq> [] \<Longrightarrow> sv_active s2 \<noteq> []"
    by (rule start_tick_inv[OF ok s1(2)]) (rule that; assumption)
  have "(\<exists>rows t. sv_loop s2 = AwaitDecode rows t) \<or> live_ids s2 = {}" if n: "0 < n_seq_max (sv_settings s)"
    by (rule idle_or_decoding[OF s1(2) n[folded s1(4)] s2(3-5)])
  then show thesis using False s1 s2 keeps_trans[OF s1(5) s2(3)]
    by (intro that[of s2]) (simp_all add: wait_pass_def wait_check_def run_call bnd_Inr[of "expire_stale_waiters clk", OF s1(1)])
qed

lemma loop_top_inv:
  assumes ok: "llama_ok lib cells lm" and I: "tick_inv lib cells lm clk clean s"
  obtains s' where "loop_top lib clk s = (Inr (), s')" "server_inv lib cells lm clk s'" "keeps s s'"
    "0 < n_seq_max (sv_settings s) \<Longrightarrow> (\<exists>rows t. sv_loop s' = AwaitDecode rows t) \<or> live_ids s' = {}"
proof -
  obtain s1 where s1: "expire_stale_waiters clk s = (Inr (), s1)" "tick_inv lib cells lm clk clean s1"
    "sv_settings s1 = sv_settings s" "keeps s s1"
    by (rule expire_all_inv[OF I]) (rule that; assumption)
  show thesis
  proof (cases "sv_active s1 = [] \<and> queue_depth (sv_queue s1) = 0")
    case True
    obtain s2 where s2: "wait_pass lib clk s1 = (Inr (), s2)" "server_inv lib cells lm clk s2" "keeps s1 s2"
      "0 < n_seq_max (sv_settings s1) \<Longrightarrow> (\<exists>rows t. sv_loop s2 = AwaitDecode rows t) \<or> live_ids s2 = {}"
      by (rule wait_pass_inv[OF ok s1(2) True[THEN conjunct1]]) (rule that; assumption)
    with True s1 keeps_trans[OF s1(4) s2(3)] show thesis by (intro that[of s2]) (simp_all add: loop_top_def bnd_Inr[of "expire_stale_waiters clk", OF s1(1)])
  next
    case False
    obtain s2 where s2: "start_tick lib clk s1 = (Inr (), s2)" "server_inv lib cells lm clk s2" "keeps s1 s2"
      "if sv_active s2 = [] then sv_loop s2 = AtTop else \<exists>rows t. sv_loop s2 = AwaitDecode rows t"
      "sv_free_slots s1 \<noteq> [] \<Longrightarrow> waiting_d (sv_queue s1) \<noteq> [] \<Longrightarrow> sv_active s2 \<noteq> []"
      by (rule start_tick_inv[OF ok s1(2)]) (rule that; assumption)
    have "(\<exists>rows t. sv_loop s2 = AwaitDecode rows t) \<or> live_ids s2 = {}" if n: "0 < n_seq_max (sv_settings s)"
      by (rule idle_or_decoding[OF s1(2) n[folded s1(3)] s2(3-5)])
    with False s1 s2 keeps_trans[OF s1(4) s2(3)] show thesis by (intro that[of s2]) (simp_all add: loop_top_def bnd_Inr[of "expire_stale_waiters clk", OF s1(1)] if_not_P)
  qed
qed

end
