(* ===== verification/Server_Tick.thy ===== *)
theory Server_Tick
  imports Server_Preserve
begin

text \<open>
  The second half of a tick: what the loop does with the result of a decode call. A failed call leaves
  every slot \<open>Torn\<close> and frees all of them; a successful one moves every sequence forward by its slice
  (\<open>advanced\<close>), which makes the sequences with a sampled token \<open>Due\<close>, and then handles the tokens.
\<close>

section \<open>One sampled token\<close>

lemma push_sampled_run:
  assumes "list_all event_ok (sv_metrics s)"
  obtains s' where "push_sampled lib now rid sq st token s = (Inr (), s')"
    "list_all event_ok (sv_metrics s')"
    "s' = s\<lparr>sv_metrics := sv_metrics s',
       sv_requests := dict_set rid (st\<lparr>tokens_emitted := tokens_emitted st + 1, last_token_ts := Some now\<rparr>) (sv_requests s),
       sv_streams := push_token rid (detokenize lib [token]) (sv_streams s),
       sv_trace := sv_trace s @ [TokenPushed rid token],
       sv_active := dict_set rid (sq\<lparr>pending_tokens := [token]\<rparr>) (sv_active s)\<rparr>"
proof -
  define s' where "s' = snd (push_sampled lib now rid sq st token s)"
  have "push_sampled lib now rid sq st token s = (Inr (), s') \<and> list_all event_ok (sv_metrics s') \<and>
     s' = s\<lparr>sv_metrics := sv_metrics s',
       sv_requests := dict_set rid (st\<lparr>tokens_emitted := tokens_emitted st + 1, last_token_ts := Some now\<rparr>) (sv_requests s),
       sv_streams := push_token rid (detokenize lib [token]) (sv_streams s),
       sv_trace := sv_trace s @ [TokenPushed rid token],
       sv_active := dict_set rid (sq\<lparr>pending_tokens := [token]\<rparr>) (sv_active s)\<rparr>"
    using assms by (cases "tokens_emitted st = 0"; cases "last_token_ts st"; simp add: s'_def push_sampled_def)
  then show thesis using that by blast
qed

lemma hist_inv_token:
  assumes "hist_inv lm eos tr live" "rid \<in> live" "acc rid tr = Some (p, m)"
    and "t = greedy lm (p @ toks rid tr)" "t \<noteq> eos" "int (length (toks rid tr)) + 1 < m"
  shows "hist_inv lm eos (tr @ [TokenPushed rid t]) live"
proof -
  have "legal_history lm eos (tr @ [TokenPushed rid t])" using assms by (auto simp: hist_inv_def intro!: legal_snoc)
  with assms show ?thesis unfolding hist_inv_def by (auto simp: chain_snoc)
qed

lemma str_inv_token:
  assumes S: "str_inv lib tr live m" and r: "rid \<in> live"
  shows "str_inv lib (tr @ [TokenPushed rid t]) live (push_token rid (detokenize lib [t]) m)"
proof -
  have "stream_ok (reads rid tr) (bytes_of lib (toks rid tr) @ detokenize lib [t]) (push_stream (detokenize lib [t]) st)"
    if "dict_get m rid = Some st" for st
    using S that r push_stream_ok unfolding str_inv_def by metis
  then show ?thesis using S r
    unfolding str_inv_def push_token_def by (auto simp: bytes_of_def split: option.splits if_splits)
qed

lemma keys_same: "dict_get d k = Some v \<Longrightarrow> keys (dict_set k w d) = keys d"
  by (rule keys_set_old[OF in_keys])

lemma vals_same:
  assumes "dict_get d k = Some v" "f w = f v"
  shows "map f (vals (dict_set k w d)) = map f (vals d)"
  using assms by (induction d) auto

text \<open>
  A token that is neither the end of the answer nor dropped: it is appended to the answer and becomes
  the pending token of its sequence.
\<close>

lemma push_sampled_inv:
  assumes I: "tick_inv lib cells lm clk mk s" and sq: "dict_get (sv_active s) rid = Some sq"
    and st: "dict_get (sv_requests s) rid = Some st" and due: "mk (seq_id sq) = Due"
    and a: "acc rid (sv_trace s) = Some (p, m)" and t: "t = greedy lm (p @ toks rid (sv_trace s))"
    and eos: "t \<noteq> lib_token_eos lib" and rem: "0 < remaining_tokens st - 1"
  obtains s' where "push_sampled lib now rid sq (st\<lparr>remaining_tokens := remaining_tokens st - 1\<rparr>) t
       (s\<lparr>sv_requests := dict_set rid (st\<lparr>remaining_tokens := remaining_tokens st - 1\<rparr>) (sv_requests s)\<rparr>) = (Inr (), s')"
    "tick_inv lib cells lm clk (mk(seq_id sq := Clean)) s'"
    "sv_active s' = dict_set rid (sq\<lparr>pending_tokens := [t]\<rparr>) (sv_active s)" "keys (sv_requests s') = keys (sv_requests s)"
    "sv_settings s' = sv_settings s" "sv_loop s' = sv_loop s" "sv_queue s' = sv_queue s"
    "sv_trace s' = sv_trace s @ [TokenPushed rid t]"
proof -
  note D = tick_invD[OF I]
  let ?st1 = "st\<lparr>remaining_tokens := remaining_tokens st - 1\<rparr>"
  let ?s0 = "s\<lparr>sv_requests := dict_set rid ?st1 (sv_requests s)\<rparr>"
  let ?st2 = "?st1\<lparr>tokens_emitted := tokens_emitted ?st1 + 1, last_token_ts := Some now\<rparr>"
  let ?sq = "sq\<lparr>pending_tokens := [t]\<rparr>" and ?tr = "sv_trace s"
  have ms: "list_all event_ok (sv_metrics ?s0)" using D(11) by simp
  obtain s' where run: "push_sampled lib now rid sq ?st1 t ?s0 = (Inr (), s')" and ms': "list_all event_ok (sv_metrics s')"
    and s': "s' = ?s0\<lparr>sv_metrics := sv_metrics s',
       sv_requests := dict_set rid ?st2 (sv_requests ?s0),
       sv_streams := push_token rid (detokenize lib [t]) (sv_streams ?s0),
       sv_trace := sv_trace ?s0 @ [TokenPushed rid t],
       sv_active := dict_set rid ?sq (sv_active ?s0)\<rparr>"
    by (rule push_sampled_run[OF ms])
  have f: "sv_settings s' = sv_settings s" "sv_queue s' = sv_queue s" "sv_loop s' = sv_loop s" "sv_runtime s' = sv_runtime s"
    "sv_streams s' = push_token rid (detokenize lib [t]) (sv_streams s)" "sv_kv s' = sv_kv s" "sv_prefix s' = sv_prefix s"
    "sv_tracer s' = sv_tracer s" "sv_active s' = dict_set rid ?sq (sv_active s)"
    "sv_requests s' = dict_set rid ?st2 (sv_requests s)" "sv_free_slots s' = sv_free_slots s" "sv_clock s' = sv_clock s"
    "sv_trace s' = ?tr @ [TokenPushed rid t]"
    by (subst s', simp)+
  have kA: "keys (sv_active s') = keys (sv_active s)" "keys (sv_requests s') = keys (sv_requests s)"
    unfolding f by (rule keys_same[OF sq], rule keys_same[OF st])
  have rk: "rid \<in> set (keys (sv_active s))" by (rule in_keys[OF sq])
  have live: "live_req mk (cells (rt_ctx (sv_runtime s))) clk (sv_clock s) ?tr (block_table (sv_kv s))
     (kv_block_size (sv_settings s)) rid sq st" using D(4) sq st by (simp add: live_inv_def)
  have "pending_tokens sq = []" using live due by (simp add: live_req_def)
  then have np: "n_past sq = int (length (p @ toks rid ?tr))" and rm: "remaining_tokens st = m - int (length (toks rid ?tr))"
    using live a by (auto simp: live_req_def)
  have wfA: "dict_wf (sv_active s)" using D(2) by (simp add: ids_inv_def)
  have "tick_inv lib cells lm clk (mk(seq_id sq := Clean)) s'"
    unfolding tick_inv_def kA f(2)
  proof (intro conjI)
    show "static_inv lib (sv_settings s') (sv_runtime s') (sv_kv s')" unfolding f by (rule D(1))
    show "ids_inv (sv_active s') (sv_requests s') (sv_queue s) (block_table (sv_kv s'))"
      using D(2) dict_wf_set[OF wfA] unfolding ids_inv_def kA unfolding f by blast
    show "slots_inv (sv_active s') (sv_free_slots s') (n_seq_max (sv_settings s'))"
      using D(3) vals_same[OF sq, of seq_id ?sq] unfolding slots_inv_def f by simp
    show "live_inv (mk(seq_id sq := Clean)) (cells (rt_ctx (sv_runtime s'))) clk (sv_clock s') (sv_trace s')
        (block_table (sv_kv s')) (kv_block_size (sv_settings s')) (sv_active s') (sv_requests s')"
      unfolding live_inv_def
    proof (intro allI impI)
      fix r b u assume 1: "dict_get (sv_active s') r = Some b" and 2: "dict_get (sv_requests s') r = Some u"
      show "live_req (mk(seq_id sq := Clean)) (cells (rt_ctx (sv_runtime s'))) clk (sv_clock s') (sv_trace s')
          (block_table (sv_kv s')) (kv_block_size (sv_settings s')) r b u"
      proof (cases "r = rid")
        case True
        with 1 2 have bu: "b = ?sq" "u = ?st2" by (simp_all add: f)
        show ?thesis using live a np rm due unfolding live_req_def bu True f by auto
      next
        case False
        with 1 2 have o: "dict_get (sv_active s) r = Some b" "dict_get (sv_requests s) r = Some u" by (simp_all add: f)
        then have "live_req mk (cells (rt_ctx (sv_runtime s))) clk (sv_clock s) ?tr (block_table (sv_kv s))
           (kv_block_size (sv_settings s)) r b u" using D(4) by (simp add: live_inv_def)
        moreover have "seq_id b \<noteq> seq_id sq" using slots_inj[OF D(3) wfA o(1) sq] False by blast
        ultimately show ?thesis using False unfolding live_req_def f by auto
      qed
    qed
    show "wait_inv (sv_trace s') (block_table (sv_kv s')) (kv_block_size (sv_settings s')) (sv_queue s)"
    proof -
      have "req_id x \<noteq> rid" if "x \<in> set (waiting (sv_queue s))" for x
        using that rk D(2) waiting_ids[of "sv_queue s"] unfolding ids_inv_def by (metis disjoint_iff imageI list.set_map)
      with D(5) show ?thesis by (auto simp: wait_inv_def f)
    qed
    show "free_inv (cells (rt_ctx (sv_runtime s'))) (sv_free_slots s')" unfolding f by (rule D(6))
    show "prefix_inv (kv_block_size (sv_settings s')) (sv_trace s') (sv_active s') (sv_prefix s')"
    proof -
      have "claim_ok bs (sv_trace s') (sv_active s') cl" if c: "claim_ok bs ?tr (sv_active s) cl" for bs cl
      proof -
        from c obtain r b p' m' where "dict_get (sv_active s) r = Some b" "seq_id b = fst cl" "acc r ?tr = Some (p', m')"
          "snd cl = blocks bs p'" by (auto simp: claim_ok_def)
        then show ?thesis using sq unfolding claim_ok_def f
          by (cases "r = rid") (auto intro!: exI[of _ r])
      qed
      with D(7) show ?thesis unfolding prefix_inv_def f(7,1) by (auto split: option.splits)
    qed
    show "hist_inv lm (lib_token_eos lib) (sv_trace s') (set (keys (sv_active s)) \<union> queued_ids (sv_queue s))"
      unfolding f by (rule hist_inv_token[OF D(8) _ a t eos]) (use rk rem rm in auto)
    show "str_inv lib (sv_trace s') (set (keys (sv_active s)) \<union> queued_ids (sv_queue s)) (sv_streams s')"
      unfolding f by (rule str_inv_token[OF D(9)]) (use rk in auto)
    show "spans_inv (sv_tracer s') (set (keys (sv_active s))) (queued_ids (sv_queue s))" unfolding f by (rule D(10))
    show "list_all event_ok (sv_metrics s')" by (rule ms')
  qed
  with run kA f show thesis by (intro that[of s']) simp_all
qed

section \<open>The loop over the sampled tokens\<close>

text \<open>
  What handling the tokens does to the running requests: some of them leave, the others keep their
  place. \<open>steps_on\<close> is the same for a whole tick, in which every request that stays moves forward.
\<close>

definition thins :: "'m server \<Rightarrow> 'm server \<Rightarrow> bool" where
  "thins s s' \<longleftrightarrow> sv_settings s' = sv_settings s \<and> sv_queue s' = sv_queue s \<and> (\<forall>r. acc r (sv_trace s') = acc r (sv_trace s))
     \<and> (\<forall>r b. dict_get (sv_active s') r = Some b \<longrightarrow> (\<exists>a. dict_get (sv_active s) r = Some a \<and> n_past b = n_past a))"

definition steps_on :: "'m server \<Rightarrow> 'm server \<Rightarrow> bool" where
  "steps_on s s' \<longleftrightarrow> sv_settings s' = sv_settings s \<and> sv_queue s' = sv_queue s \<and> (\<forall>r. acc r (sv_trace s') = acc r (sv_trace s))
     \<and> (\<forall>r b. dict_get (sv_active s') r = Some b \<longrightarrow> (\<exists>a. dict_get (sv_active s) r = Some a \<and> n_past a < n_past b))"

lemma thins_refl [simp]: "thins s s"
  by (simp add: thins_def)

lemma thins_trans:
  assumes "thins s t" "thins t u"
  shows "thins s u"
  unfolding thins_def
proof (intro conjI allI impI)
  fix r b assume "dict_get (sv_active u) r = Some b"
  then obtain c where c: "dict_get (sv_active t) r = Some c" "n_past b = n_past c" using assms(2) unfolding thins_def by blast
  then obtain a where "dict_get (sv_active s) r = Some a" "n_past c = n_past a" using assms(1) unfolding thins_def by blast
  with c show "\<exists>a. dict_get (sv_active s) r = Some a \<and> n_past b = n_past a" by auto
qed (use assms in \<open>simp_all add: thins_def\<close>)

text \<open>
  \<open>handle_token\<close> for a due slot whose sampled token is the greedy continuation: whichever branch it
  takes, it does not raise, the slot is clean again, and no other request is touched.
\<close>

lemma handle_token_inv:
  assumes ok: "llama_ok lib cells lm" and clk: "strict_mono clk" and I: "tick_inv lib cells lm clk mk s"
    and sq: "dict_get (sv_active s) rid = Some sq" and due: "mk (seq_id sq) = Due"
    and a: "acc rid (sv_trace s) = Some (p, m)" and t: "t = greedy lm (p @ toks rid (sv_trace s))"
    and rio: "dict_get rio (seq_id sq) = Some rid"
  obtains s' where "handle_token lib clk rio now (seq_id sq, t) s = (Inr (), s')"
    "tick_inv lib cells lm clk (mk(seq_id sq := Clean)) s'"
    "\<And>r. r \<noteq> rid \<Longrightarrow> dict_get (sv_active s') r = dict_get (sv_active s) r"
    "\<And>r. r \<noteq> rid \<Longrightarrow> toks r (sv_trace s') = toks r (sv_trace s)" "\<And>r. acc r (sv_trace s') = acc r (sv_trace s)"
    "sv_settings s' = sv_settings s" "sv_loop s' = sv_loop s" "sv_queue s' = sv_queue s" "thins s s'"
proof -
  note result = that
  note D = tick_invD[OF I]
  obtain st where st: "dict_get (sv_requests s) rid = Some st" using keys_eq_get[OF _ sq] D(2) unfolding ids_inv_def by blast
  let ?st1 = "st\<lparr>remaining_tokens := remaining_tokens st - 1\<rparr>"
  let ?s0 = "s\<lparr>sv_requests := dict_set rid ?st1 (sv_requests s)\<rparr>"
  have eos: "rt_eos (sv_runtime s) = lib_token_eos lib" using D(1) by (simp add: static_inv_def)
  have "live_req mk (cells (rt_ctx (sv_runtime s))) clk (sv_clock s) (sv_trace s) (block_table (sv_kv s))
     (kv_block_size (sv_settings s)) rid sq st" using D(4) sq st by (simp add: live_inv_def)
  then have rm: "remaining_tokens st = m - int (length (toks rid (sv_trace s)))" using a by (auto simp: live_req_def)
  have lt: "int (length (toks rid (sv_trace s))) < m" using D(8) a unfolding hist_inv_def by blast
  have run: "handle_token lib clk rio now (seq_id sq, t) s =
     (if t = lib_token_eos lib \<or> remaining_tokens st - 1 \<le> 0 then finish lib clk rid None ?s0
      else if is_cancelled rid (sv_streams s) then finish lib clk rid (Some ''client_disconnect'') ?s0
      else if fsub now (admitted_ts st) > generation_timeout_seconds (sv_settings s)
        then finish lib clk rid (Some ''generation_timeout'') ?s0
      else push_sampled lib now rid sq ?st1 t ?s0)"
    using rio sq st by (simp add: handle_token_def run_asks dict_item_def eos Let_def)
  have fin: thesis if r: "handle_token lib clk rio now (seq_id sq, t) s = finish lib clk rid why ?s0"
    and w: "why = None \<longrightarrow> t = lib_token_eos lib \<or> remaining_tokens st - 1 \<le> 0" for why
  proof -
    have why: "why = None \<Longrightarrow> acc rid (sv_trace s) = Some (p', m') \<Longrightarrow>
       greedy lm (p' @ toks rid (sv_trace s)) = lib_token_eos lib \<or> int (length (toks rid (sv_trace s))) = m' - 1" for p' m'
      using w a t rm lt by auto
    obtain s' where F: "finish lib clk rid why ?s0 = (Inr (), s')" "tick_inv lib cells lm clk (mk(seq_id sq := Clean)) s'"
      "sv_active s' = dict_del rid (sv_active s)" "sv_requests s' = dict_del rid (sv_requests s)"
      "sv_settings s' = sv_settings s" "sv_queue s' = sv_queue s" "sv_loop s' = sv_loop s"
      "sv_trace s' = sv_trace s @ [Closed rid why]" "sv_clock s \<le> sv_clock s'"
      by (rule finish_inv[OF ok clk I sq st, where stf = ?st1 and why = why]) (use why in auto)
    have "thins s s'" unfolding thins_def by (simp add: F dict_get_del)
    with r F show thesis by (intro result[of s']) (simp_all add: dict_get_del)
  qed
  show thesis
  proof (cases "t = lib_token_eos lib \<or> remaining_tokens st - 1 \<le> 0")
    case True
    then show thesis using run by (intro fin[of None]) simp_all
  next
    case False
    note F1 = False
    show thesis
    proof (cases "is_cancelled rid (sv_streams s)")
      case True
      then show thesis using run F1 by (intro fin[of "Some ''client_disconnect''"]) simp_all
    next
      case False
      show thesis
      proof (cases "fsub now (admitted_ts st) > generation_timeout_seconds (sv_settings s)")
        case True
        then show thesis using run F1 False by (intro fin[of "Some ''generation_timeout''"]) simp_all
      next
        case F3: False
        have e: "t \<noteq> lib_token_eos lib" "0 < remaining_tokens st - 1" using F1 by auto
        obtain s' where P: "push_sampled lib now rid sq ?st1 t ?s0 = (Inr (), s')"
          "tick_inv lib cells lm clk (mk(seq_id sq := Clean)) s'"
          "sv_active s' = dict_set rid (sq\<lparr>pending_tokens := [t]\<rparr>) (sv_active s)" "keys (sv_requests s') = keys (sv_requests s)"
          "sv_settings s' = sv_settings s" "sv_loop s' = sv_loop s" "sv_queue s' = sv_queue s"
          "sv_trace s' = sv_trace s @ [TokenPushed rid t]"
          by (rule push_sampled_inv[OF I sq st due a t e])
        have h: "handle_token lib clk rio now (seq_id sq, t) s = (Inr (), s')" using run F1 False F3 P(1) by simp
        have "thins s s'" unfolding thins_def using sq by (simp add: P)
        then show thesis by (intro that[OF h P(2)]) (simp_all add: P)
      qed
    qed
  qed
qed

text \<open>What is known of the tokens still to be handled.\<close>

definition pending_sample :: "(int list \<Rightarrow> float64 list) \<Rightarrow> (int, string) dict \<Rightarrow> 'm server \<Rightarrow> int \<times> int \<Rightarrow> bool" where
  "pending_sample lm rio s = (\<lambda>(sid, t). \<exists>rid sq p m. dict_get rio sid = Some rid \<and> dict_get (sv_active s) rid = Some sq
     \<and> seq_id sq = sid \<and> acc rid (sv_trace s) = Some (p, m) \<and> t = greedy lm (p @ toks rid (sv_trace s)))"

definition due_marks :: "int set \<Rightarrow> int \<Rightarrow> mark" where
  "due_marks X sid = (if sid \<in> X then Due else Clean)"

lemma due_marks_upd: "(due_marks X)(sid := Clean) = due_marks (X - {sid})"
  by (auto simp: due_marks_def)

lemma due_marks_empty [simp]: "due_marks {} = clean"
  by (auto simp: due_marks_def)

lemma tokens_inv:
  assumes ok: "llama_ok lib cells lm" and clk: "strict_mono clk"
    and I: "tick_inv lib cells lm clk (due_marks (set (keys sampled))) s"
    and wf: "dict_wf sampled" and P: "\<forall>x \<in> set sampled. pending_sample lm rio s x"
  obtains s' where "for_each sampled (handle_token lib clk rio now) s = (Inr (), s')"
    "tick_inv lib cells lm clk clean s'" "thins s s'"
proof -
  let ?I = "\<lambda>ys u. tick_inv lib cells lm clk (due_marks (set (keys ys))) u \<and> dict_wf ys
     \<and> (\<forall>x \<in> set ys. pending_sample lm rio u x) \<and> thins s u"
  have "?I sampled s" using I wf P by simp
  then have "\<exists>s'. for_each sampled (handle_token lib clk rio now) s = (Inr (), s') \<and> ?I [] s'"
  proof (rule for_each_invariant)
    fix x ys u assume i: "?I (x # ys) u"
    obtain sid t where x: "x = (sid, t)" by force
    have "pending_sample lm rio u (sid, t)" using i x by simp
    then obtain rid sq p m where r: "dict_get rio sid = Some rid" "dict_get (sv_active u) rid = Some sq" "seq_id sq = sid"
      "acc rid (sv_trace u) = Some (p, m)" "t = greedy lm (p @ toks rid (sv_trace u))" unfolding pending_sample_def by blast
    have new: "sid \<notin> set (keys ys)" using i x by (simp add: dict_wf_def)
    then have mk: "(due_marks (set (keys (x # ys))))(seq_id sq := Clean) = due_marks (set (keys ys))"
      using x r(3) by (simp add: due_marks_upd del: set_map) 
    have T: "tick_inv lib cells lm clk (due_marks (set (keys (x # ys)))) u" using i by blast
    have due: "due_marks (set (keys (x # ys))) (seq_id sq) = Due" using x r(3) by (simp add: due_marks_def)
    obtain u' where H: "handle_token lib clk rio now (seq_id sq, t) u = (Inr (), u')"
      "tick_inv lib cells lm clk ((due_marks (set (keys (x # ys))))(seq_id sq := Clean)) u'"
      "\<And>r. r \<noteq> rid \<Longrightarrow> dict_get (sv_active u') r = dict_get (sv_active u) r"
      "\<And>r. r \<noteq> rid \<Longrightarrow> toks r (sv_trace u') = toks r (sv_trace u)" "\<And>r. acc r (sv_trace u') = acc r (sv_trace u)"
      "thins u u'"
      by (rule handle_token_inv[OF ok clk T r(2) due r(4,5) r(1)[folded r(3)], of now]) (rule that; assumption)
    have "pending_sample lm rio u' y" if y: "y \<in> set ys" for y
    proof -
      obtain sid' t' where y': "y = (sid', t')" by force
      have "pending_sample lm rio u y" using i y by simp
      then obtain rid' sq' p' m' where r': "dict_get rio sid' = Some rid'" "dict_get (sv_active u) rid' = Some sq'"
        "seq_id sq' = sid'" "acc rid' (sv_trace u) = Some (p', m')" "t' = greedy lm (p' @ toks rid' (sv_trace u))"
        unfolding pending_sample_def y' by blast
      have "sid' \<noteq> sid" using new y y' by force
      then have "rid' \<noteq> rid" using r(2,3) r'(2,3) by auto
      with r' H show ?thesis unfolding pending_sample_def y' by auto
    qed
    moreover have "dict_wf ys" using i by (simp add: dict_wf_def)
    moreover have "thins s u'" using i H(6) thins_trans by blast
    ultimately show "\<exists>u'. handle_token lib clk rio now x u = (Inr (), u') \<and> ?I ys u'"
      using H i x r(3) mk by (intro exI[of _ u']) auto
  qed
  then obtain s' where "for_each sampled (handle_token lib clk rio now) s = (Inr (), s')" "?I [] s'" by blast
  then show thesis by (intro that[of s']) simp_all
qed

section \<open>The slices of a successful decode\<close>

definition advanced :: "active_sequence list \<Rightarrow> int \<Rightarrow> int \<Rightarrow> active_sequence \<Rightarrow> active_sequence" where
  "advanced active cap c sq = sq\<lparr>n_past := n_past sq + taken active cap c sq,
     pending_tokens := drop (nat (taken active cap c sq)) (pending_tokens sq)\<rparr>"

lemma seq_id_advanced [simp]: "seq_id (advanced active cap c sq) = seq_id sq"
  by (simp add: advanced_def)

lemma dict_set_map:
  assumes "dict_wf d" "dict_get d k = Some v"
  shows "dict_set k w d = map (\<lambda>(r, x). (r, if r = k then w else x)) d"
  using assms
proof (induction d)
  case (Cons e d)
  obtain r x where e: "e = (r, x)" by force
  show ?case
  proof (cases "r = k")
    case True
    have "map (\<lambda>(r, x). (r, if r = k then w else x)) d = d"
      using Cons.prems(1) e True by (intro map_idI) (force simp: dict_wf_def)
    with True e show ?thesis by simp
  next
    case False
    with Cons e show ?thesis by (simp add: dict_wf_def)
  qed
qed simp

lemma dict_get_map: "dict_get (map (\<lambda>(r, x). (r, f x)) d) k = map_option f (dict_get d k)"
  by (induction d) auto

text \<open>\<open>request_id_of\<close> finds the request that holds a slot.\<close>

lemma request_id_of_get:
  fixes R :: "(string, request_state) dict" and d0 :: "(int, string) dict"
  assumes "distinct (map (\<lambda>e. rs_seq_id (snd e)) R)" "(rid, st) \<in> set R"
  shows "dict_get (foldl (\<lambda>d (rid, st). dict_set (rs_seq_id st) rid d) d0 R) (rs_seq_id st) = Some rid"
proof -
  have other: "dict_get (foldl (\<lambda>d (rid, st). dict_set (rs_seq_id st) rid d) d0 R) sid = dict_get d0 sid"
    if "sid \<notin> (\<lambda>e. rs_seq_id (snd e)) ` set R" for R :: "(string, request_state) dict" and sid and d0 :: "(int, string) dict"
    using that by (induction R arbitrary: d0) (auto split: prod.split)
  show ?thesis using assms
  proof (induction R arbitrary: d0)
    case (Cons e R)
    show ?case
    proof (cases "e = (rid, st)")
      case True
      with Cons.prems have "rs_seq_id st \<notin> (\<lambda>e. rs_seq_id (snd e)) ` set R" by auto
      with other[OF this] True show ?thesis by simp
    next
      case False
      with Cons show ?thesis by (auto split: prod.split)
    qed
  qed simp
qed

lemma advance_all_run:
  assumes wf: "dict_wf (sv_active s)" and dist: "distinct (map seq_id (vals (sv_active s)))" and c: "0 < c"
    and rows: "rows = build_batch (vals (sv_active s)) cap c"
    and rio: "\<And>rid sq. dict_get (sv_active s) rid = Some sq \<Longrightarrow> dict_get rio (seq_id sq) = Some rid"
  shows "for_each (remdups (map row_seq_id rows)) (advance_seq rio rows) s
     = (Inr (), s\<lparr>sv_active := map (\<lambda>(r, sq). (r, advanced (vals (sv_active s)) cap c sq)) (sv_active s)\<rparr>)"
proof -
  let ?A = "sv_active s" and ?adv = "advanced (vals (sv_active s)) cap c" and ?ids = "remdups (map row_seq_id rows)"
  let ?f = "\<lambda>ys sq. if seq_id sq \<in> set ys then sq else ?adv sq"
  let ?I = "\<lambda>ys u. u = s\<lparr>sv_active := map (\<lambda>(r, sq). (r, ?f ys sq)) ?A\<rparr> \<and> distinct ys \<and> set ys \<subseteq> seq_id ` set (vals ?A)"
  have ids: "set ?ids = seq_id ` {q \<in> set (vals ?A). 0 < taken (vals ?A) cap c q}"
    using batch_seq_ids[OF c dist, of cap] rows by simp
  have "?f ?ids sq = sq" if "sq \<in> set (vals ?A)" for sq
  proof (cases "seq_id sq \<in> set ?ids")
    case False
    then have "taken (vals ?A) cap c sq = 0" using ids that taken_bounds(1)[OF c dist that, of cap] by force
    then show ?thesis by (simp add: advanced_def)
  qed simp
  then have "map (\<lambda>(r, sq). (r, ?f ?ids sq)) ?A = ?A" by (intro map_idI) force
  moreover have "set ?ids \<subseteq> seq_id ` set (vals ?A)" unfolding ids by blast
  ultimately have "?I ?ids s" by simp
  then have "\<exists>s'. for_each ?ids (advance_seq rio rows) s = (Inr (), s') \<and> ?I [] s'"
  proof (rule for_each_invariant)
    fix sid ys u assume i: "?I (sid # ys) u"
    then obtain rid sq where sq: "(rid, sq) \<in> set ?A" "seq_id sq = sid" by force
    then have g: "dict_get ?A rid = Some sq" by (intro dict_get_in[OF wf])
    have A: "sv_active u = map (\<lambda>(r, sq). (r, ?f (sid # ys) sq)) ?A" using i by simp
    have gu: "dict_get (sv_active u) rid = Some sq" unfolding A dict_get_map using g sq(2) by simp
    have wfu: "dict_wf (sv_active u)" using wf unfolding A dict_wf_def by (simp add: comp_def case_prod_beta)
    have cons: "row_count rows sid = taken (vals ?A) cap c sq" using sq(2) by (simp add: taken_def rows)
    have nn: "0 \<le> taken (vals ?A) cap c sq" using sq(1) by (intro taken_bounds(1)[OF c dist]) force
    have "advance_seq rio rows sid u = (Inr (), u\<lparr>sv_active := dict_set rid (?adv sq) (sv_active u)\<rparr>)"
      using rio[OF g] sq(2) gu cons nn by (simp add: advance_seq_def run_asks dict_item_def Let_def advanced_def)
    moreover have "dict_set rid (?adv sq) (sv_active u) = map (\<lambda>(r, sq). (r, ?f ys sq)) ?A"
    proof -
      have "(if r = rid then ?adv sq else ?f (sid # ys) x) = ?f ys x" if "(r, x) \<in> set ?A" for r x
      proof (cases "r = rid")
        case True
        then have "x = sq" using dict_get_in[OF wf that] g by simp
        with True i sq(2) show ?thesis by simp
      next
        case False
        have "inj_on (\<lambda>e. seq_id (snd e)) (set ?A)" using dist by (simp add: comp_def distinct_map)
        from inj_onD[OF this _ that sq(1)] False sq(2) have "seq_id x \<noteq> sid" by auto
        with False show ?thesis by simp
      qed
      then have "((\<lambda>(r, x). (r, if r = rid then ?adv sq else x)) \<circ> (\<lambda>(r, sq). (r, ?f (sid # ys) sq))) e = (\<lambda>(r, sq). (r, ?f ys sq)) e"
        if "e \<in> set ?A" for e using that by (cases e) (simp only: o_apply split_conv)
      then show ?thesis unfolding dict_set_map[OF wfu gu] unfolding A map_map by (intro map_cong refl)
    qed
    ultimately show "\<exists>u'. advance_seq rio rows sid u = (Inr (), u') \<and> ?I ys u'" using i by auto
  qed
  then show ?thesis by auto
qed

section \<open>After a successful decode\<close>

lemma live_req_advance:
  assumes L: "live_req clean c clk k tr tbl bs rid sq st"
    and b: "0 \<le> taken act cap ch sq" "taken act cap ch sq \<le> int (length (pending_tokens sq))"
    and h: "\<And>h. holds c (seq_id sq) h \<Longrightarrow>
        holds c' (seq_id sq) (h @ take (nat (taken act cap ch sq)) (pending_tokens sq))"
    and mk: "mk (seq_id sq) = (if taken act cap ch sq = int (length (pending_tokens sq)) then Due else Clean)"
  shows "live_req mk c' clk k tr tbl bs rid (advanced act cap ch sq) st"
proof -
  let ?t = "taken act cap ch sq" and ?n = "nat (n_past sq)"
  from L obtain p m b where p: "acc rid tr = Some (p, m)" "dict_get tbl rid = Some b" "int (length p) + m \<le> b * bs"
    "remaining_tokens st = m - int (length (toks rid tr))" "0 \<le> n_past sq" "n_past sq \<le> int (length (p @ toks rid tr))"
    "pending_tokens sq = drop ?n (p @ toks rid tr)" "holds c (seq_id sq) (take ?n (p @ toks rid tr))"
    by (auto simp: live_req_def)
  let ?h = "p @ toks rid tr"
  have ne: "pending_tokens sq \<noteq> []" using L by (simp add: live_req_def)
  have n: "nat (n_past sq + ?t) = ?n + nat ?t" using p(5) b(1) by (simp add: nat_add_distrib)
  have "holds c' (seq_id sq) (take ?n ?h @ take (nat ?t) (drop ?n ?h))" using h[OF p(8)] p(7) by simp
  then have H: "holds c' (seq_id sq) (take (?n + nat ?t) ?h)" by (simp only: take_add)
  have P: "drop (nat ?t) (pending_tokens sq) = drop (?n + nat ?t) ?h"
    by (simp only: p(7) drop_drop add.commute)
  have le: "n_past sq + ?t \<le> int (length ?h)" using p(5-7) b(2) by auto
  have "drop (nat ?t) (pending_tokens sq) = [] \<longleftrightarrow> ?t = int (length (pending_tokens sq))" using b by auto
  then have D: "drop (nat ?t) (pending_tokens sq) = [] \<longleftrightarrow> mk (seq_id sq) = Due" using mk by auto
  show ?thesis using L p H P le D n b(1) unfolding live_req_def advanced_def by auto
qed

lemma live_histories:
  assumes I: "tick_inv lib cells lm clk clean s"
  shows "\<exists>h. \<forall>sq \<in> set (vals (sv_active s)).
     holds (cells (rt_ctx (sv_runtime s))) (seq_id sq) (h sq) \<and> n_past sq = int (length (h sq))"
proof -
  note D = tick_invD[OF I]
  have "\<exists>h. holds (cells (rt_ctx (sv_runtime s))) (seq_id sq) h \<and> n_past sq = int (length h)"
    if "sq \<in> set (vals (sv_active s))" for sq
  proof -
    have wf: "dict_wf (sv_active s)" and K: "keys (sv_active s) = keys (sv_requests s)" using D(2) by (auto simp: ids_inv_def)
    from that obtain rid where "(rid, sq) \<in> set (sv_active s)" by force
    then have g: "dict_get (sv_active s) rid = Some sq" by (rule dict_get_in[OF wf])
    then obtain st where "dict_get (sv_requests s) rid = Some st" using keys_eq_get[OF K] by blast
    with g D(4) show ?thesis unfolding live_inv_def live_req_def by fastforce
  qed
  then show ?thesis by metis
qed

lemma decode_outcome:
  assumes ok: "llama_ok lib cells lm" and I: "tick_inv lib cells lm clk clean s"
    and rows: "rows = build_batch (vals (sv_active s)) (n_ctx (sv_settings s)) (chunk_size (sv_settings s))"
    and d: "decode lib rows (sv_runtime s) = (r, rt')"
  shows "(\<exists>rc. r = Inl (RuntimeError rc)) \<or> (\<exists>sampled. r = Inr sampled)"
proof -
  note D = tick_invD[OF I]
  obtain h where h: "\<And>sq. sq \<in> set (vals (sv_active s)) \<Longrightarrow>
     holds (cells (rt_ctx (sv_runtime s))) (seq_id sq) (h sq) \<and> n_past sq = int (length (h sq))"
    using live_histories[OF I] by blast
  have c: "0 < chunk_size (sv_settings s)" and cap: "rt_capacity (sv_runtime s) = n_ctx (sv_settings s)" and wf: "runtime_wf (sv_runtime s)"
    and dist: "distinct (map seq_id (vals (sv_active s)))"
    using D(1,3) by (auto simp: static_inv_def config_ok_def slots_inv_def)
  show ?thesis using decode_histories(1)[OF ok wf c dist h, of r rt'] d rows cap by auto
qed

lemma decoded_inv:
  assumes ok: "llama_ok lib cells lm" and I: "tick_inv lib cells lm clk clean s"
    and rows: "rows = build_batch (vals (sv_active s)) (n_ctx (sv_settings s)) (chunk_size (sv_settings s))"
    and d: "decode lib rows (sv_runtime s) = (Inr sampled, rt')"
  shows "tick_inv lib cells lm clk (due_marks (set (keys sampled)))
      (s\<lparr>sv_runtime := rt', sv_active := map (\<lambda>(r, sq). (r, advanced (vals (sv_active s)) (n_ctx (sv_settings s)) (chunk_size (sv_settings s)) sq)) (sv_active s)\<rparr>)"
      (is "tick_inv _ _ _ _ ?mk ?s")
    and "dict_wf sampled"
    and "(sid, t) \<in> set sampled \<Longrightarrow> \<exists>rid sq p m. dict_get (sv_active s) rid = Some sq \<and> seq_id sq = sid
        \<and> acc rid (sv_trace s) = Some (p, m) \<and> t = greedy lm (p @ toks rid (sv_trace s))"
proof -
  note D = tick_invD[OF I]
  let ?A = "sv_active s" and ?cap = "n_ctx (sv_settings s)" and ?c = "chunk_size (sv_settings s)"
  let ?act = "vals ?A" and ?adv = "advanced (vals (sv_active s)) (n_ctx (sv_settings s)) (chunk_size (sv_settings s))"
  let ?C = "cells (rt_ctx (sv_runtime s))" and ?C' = "cells (rt_ctx rt')"
  have wfA: "dict_wf ?A" and KA: "keys ?A = keys (sv_requests s)" using D(2) by (auto simp: ids_inv_def)
  have c: "0 < ?c" and cap: "rt_capacity (sv_runtime s) = ?cap" and wf: "runtime_wf (sv_runtime s)"
    using D(1) by (auto simp: static_inv_def config_ok_def)
  have dist: "distinct (map seq_id ?act)" using D(3) by (simp add: slots_inv_def)
  have live: "\<exists>rid st. dict_get ?A rid = Some sq \<and> live_req clean ?C clk (sv_clock s) (sv_trace s)
      (block_table (sv_kv s)) (kv_block_size (sv_settings s)) rid sq st" if "sq \<in> set ?act" for sq
  proof -
    from that obtain rid where "(rid, sq) \<in> set ?A" by force
    then have g: "dict_get ?A rid = Some sq" by (rule dict_get_in[OF wfA])
    then obtain st where "dict_get (sv_requests s) rid = Some st" using keys_eq_get[OF KA] by blast
    with g D(4) show ?thesis unfolding live_inv_def by blast
  qed
  obtain h where h: "\<And>sq. sq \<in> set ?act \<Longrightarrow> holds ?C (seq_id sq) (h sq) \<and> n_past sq = int (length (h sq))"
    using live_histories[OF I] by blast
  have d': "decode lib (build_batch ?act (rt_capacity (sv_runtime s)) ?c) (sv_runtime s) = (Inr sampled, rt')"
    using d rows cap by simp
  note H = decode_histories[OF ok wf c dist h d', unfolded cap]
  show wfs: "dict_wf sampled" by (rule H(3)[OF _ refl])
  have hist: "holds ?C' (seq_id sq) (g @ take (nat (taken ?act ?cap ?c sq)) (pending_tokens sq))"
    if "sq \<in> set ?act" "holds ?C (seq_id sq) g" for sq g
    using H(2)[OF _ refl that(1)] holds_unique[OF that(2)] h[OF that(1)] by auto
  have mk: "?mk (seq_id sq) = (if taken ?act ?cap ?c sq = int (length (pending_tokens sq)) then Due else Clean)"
    if "sq \<in> set ?act" for sq
  proof -
    have "pending_tokens sq \<noteq> []" using live[OF that] by (auto simp: live_req_def)
    moreover have "x = sq" if "x \<in> set ?act" "seq_id x = seq_id sq" for x
      by (rule inj_onD[OF dist[THEN distinct_map[THEN iffD1], THEN conjunct2] that(2) that(1) \<open>sq \<in> set ?act\<close>])
    ultimately have "(\<exists>t. dict_get sampled (seq_id sq) = Some t) \<longleftrightarrow> taken ?act ?cap ?c sq = int (length (pending_tokens sq))"
      using H(4)[OF _ refl, of "seq_id sq"] that by blast
    moreover have "seq_id sq \<in> set (keys sampled) \<longleftrightarrow> (\<exists>t. dict_get sampled (seq_id sq) = Some t)"
      using dict_get_eq_None[of sampled "seq_id sq"] by (metis not_None_eq)
    ultimately show ?thesis unfolding due_marks_def by metis
  qed
  have len: "int (length rows) \<le> rt_capacity (sv_runtime s)"
    unfolding rows cap using build_batch_capacity[OF c, of ?cap] wf cap by (simp add: runtime_wf_def)
  note R = decode_result[OF ok wf len d]
  have other: "?C' sid = ?C sid" if "sid \<in> set (sv_free_slots s)" for sid
  proof (rule R(4))
    have "sid \<notin> seq_id ` set ?act" using D(3) that by (auto simp: slots_inv_def)
    then show "sid \<notin> row_seq_id ` set rows" using batch_seq_ids[OF c dist, of ?cap] rows by blast
  qed
  show "tick_inv lib cells lm clk ?mk ?s"
  proof -
    have kA: "keys (sv_active ?s) = keys ?A" by (simp add: comp_def case_prod_beta)
    have vA: "map seq_id (vals (sv_active ?s)) = map seq_id ?act" by (simp add: comp_def case_prod_beta)
    have gA: "dict_get (sv_active ?s) r = map_option ?adv (dict_get ?A r)" for r by (simp add: dict_get_map)
    have LI: "live_inv ?mk ?C' clk (sv_clock s) (sv_trace s) (block_table (sv_kv s)) (kv_block_size (sv_settings s))
        (sv_active ?s) (sv_requests s)"
      unfolding live_inv_def
    proof (intro allI impI)
      fix r a st assume 1: "dict_get (sv_active ?s) r = Some a" and 2: "dict_get (sv_requests s) r = Some st"
      then obtain sq where sq: "dict_get ?A r = Some sq" "a = ?adv sq" unfolding gA by auto
      have m: "sq \<in> set ?act" using dict_getD[OF sq(1)] by force
      have "live_req clean ?C clk (sv_clock s) (sv_trace s) (block_table (sv_kv s)) (kv_block_size (sv_settings s)) r sq st"
        using D(4) sq(1) 2 by (simp add: live_inv_def)
      then show "live_req ?mk ?C' clk (sv_clock s) (sv_trace s) (block_table (sv_kv s)) (kv_block_size (sv_settings s)) r a st"
        unfolding sq(2) using taken_bounds[OF c dist m, of ?cap] hist[OF m] mk[OF m] by (intro live_req_advance) auto
    qed
    have PI: "prefix_inv (kv_block_size (sv_settings s)) (sv_trace s) (sv_active ?s) (sv_prefix s)"
    proof -
      have "claim_ok bs tr (sv_active ?s) cl" if cl: "claim_ok bs tr ?A cl" for bs tr cl
      proof -
        from cl obtain r b p m where "dict_get ?A r = Some b" "seq_id b = fst cl" "acc r tr = Some (p, m)" "snd cl = blocks bs p"
          by (auto simp: claim_ok_def)
        then show ?thesis unfolding claim_ok_def gA by (intro exI[of _ r] exI[of _ "?adv b"]) auto
      qed
      with D(7) show ?thesis unfolding prefix_inv_def by (auto split: option.splits)
    qed
    have SI: "static_inv lib (sv_settings s) rt' (sv_kv s)" using D(1) R(1-3) by (auto simp: static_inv_def)
    have II: "ids_inv (sv_active ?s) (sv_requests s) (sv_queue s) (block_table (sv_kv s))"
      using D(2) unfolding ids_inv_def dict_wf_def kA .
    have FI: "free_inv ?C' (sv_free_slots s)" using D(6) other by (simp add: free_inv_def holds_def)
    have LS: "slots_inv (sv_active ?s) (sv_free_slots s) (n_seq_max (sv_settings s))"
      using D(3) unfolding slots_inv_def vA .
    have li: "live_ids ?s = live_ids s" by (simp only: kA) simp
    show ?thesis
      unfolding tick_inv_def li kA using SI II LS LI D(5) FI PI D(8-11) by simp
  qed
  show "\<exists>rid sq p m. dict_get (sv_active s) rid = Some sq \<and> seq_id sq = sid
        \<and> acc rid (sv_trace s) = Some (p, m) \<and> t = greedy lm (p @ toks rid (sv_trace s))" if x: "(sid, t) \<in> set sampled"
  proof -
    have "dict_get sampled sid = Some t" by (rule dict_get_in[OF wfs x])
    then obtain sq where sq: "sq \<in> set ?act" "seq_id sq = sid" "t = greedy lm (h sq @ pending_tokens sq)"
      using H(4)[OF _ refl] by blast
    from live[OF sq(1)] obtain rid st p m where r: "dict_get ?A rid = Some sq" "acc rid (sv_trace s) = Some (p, m)"
      "holds ?C (seq_id sq) (take (nat (n_past sq)) (p @ toks rid (sv_trace s)))"
      "pending_tokens sq = drop (nat (n_past sq)) (p @ toks rid (sv_trace s))" by (auto simp: live_req_def)
    have "h sq = take (nat (n_past sq)) (p @ toks rid (sv_trace s))" using holds_unique[OF _ r(3)] h[OF sq(1)] by blast
    then have "t = greedy lm (p @ toks rid (sv_trace s))" using sq(3) r(4) by (simp only: append_take_drop_id)
    with r sq show ?thesis by blast
  qed
qed


lemma rio_of_live:
  assumes I: "tick_inv lib cells lm clk mk s" and sq: "dict_get (sv_active s) rid = Some sq"
  shows "dict_get (foldl (\<lambda>d (rid, st). dict_set (rs_seq_id st) rid d) [] (sv_requests s)) (seq_id sq) = Some rid"
proof -
  note D = tick_invD[OF I]
  let ?A = "sv_active s" and ?R = "sv_requests s"
  have wfA: "dict_wf ?A" and K: "keys ?A = keys ?R" using D(2) by (auto simp: ids_inv_def)
  then have wfR: "dict_wf ?R" unfolding dict_wf_def by simp
  have sids: "rs_seq_id st = seq_id a" if "dict_get ?A r = Some a" "dict_get ?R r = Some st" for r a st
    using D(4) that unfolding live_inv_def live_req_def by blast
  have "rs_seq_id (snd (?R ! i)) = seq_id (snd (?A ! i))" if i: "i < length ?A" for i
  proof -
    have iR: "i < length ?R" using i K by (metis length_map)
    have "fst (?A ! i) = fst (?R ! i)" using K i iR by (metis nth_map)
    moreover have "dict_get ?A (fst (?A ! i)) = Some (snd (?A ! i))" using i by (intro dict_get_in[OF wfA]) simp
    moreover have "dict_get ?R (fst (?R ! i)) = Some (snd (?R ! i))" using iR by (intro dict_get_in[OF wfR]) simp
    ultimately show ?thesis using sids by simp
  qed
  then have "map (\<lambda>e. rs_seq_id (snd e)) ?R = map (\<lambda>e. seq_id (snd e)) ?A"
    using arg_cong[OF K, of length] by (intro nth_equalityI) simp_all
  then have dist: "distinct (map (\<lambda>e. rs_seq_id (snd e)) ?R)" using D(3) by (simp add: slots_inv_def comp_def)
  obtain st where st: "dict_get ?R rid = Some st" using keys_eq_get[OF K sq] by blast
  show ?thesis using request_id_of_get[OF dist dict_getD[OF st], of "[]"] sids[OF sq st] by simp
qed

lemma after_decode_inv:
  assumes ok: "llama_ok lib cells lm" and clk: "strict_mono clk" and I: "tick_inv lib cells lm clk clean s"
    and rows: "rows = build_batch (vals (sv_active s)) (n_ctx (sv_settings s)) (chunk_size (sv_settings s))"
    and d: "decode lib rows (sv_runtime s) = (Inr sampled, rt')"
  obtains s' where "after_decode lib clk rows t0 sampled (s\<lparr>sv_runtime := rt'\<rparr>) = (Inr (), s')"
    "tick_inv lib cells lm clk clean s'" "steps_on s s'"
proof -
  note D = tick_invD[OF I] and dec = decoded_inv[OF ok I rows d]
  let ?st = "sv_settings s" and ?A = "sv_active s"
  let ?rio = "foldl (\<lambda>d (rid, st). dict_set (rs_seq_id st) rid d) [] (sv_requests s)"
  let ?adv = "map (\<lambda>(r, sq). (r, advanced (vals ?A) (n_ctx ?st) (chunk_size ?st) sq)) ?A"
  have c: "0 < chunk_size ?st" and n: "0 < n_ctx ?st" and wf: "runtime_wf (sv_runtime s)" and cap: "rt_capacity (sv_runtime s) = n_ctx ?st"
    using D(1) by (auto simp: static_inv_def config_ok_def)
  have len: "int (length rows) \<le> rt_capacity (sv_runtime s)"
    unfolding rows cap using build_batch_capacity[OF c, of "n_ctx ?st"] n by simp
  have cap': "rt_capacity rt' = n_ctx ?st" using decode_result(2)[OF ok wf len d] cap by simp
  have wfA: "dict_wf ?A" and dist: "distinct (map seq_id (vals ?A))" using D(2,3) by (auto simp: ids_inv_def slots_inv_def)
  define ms where "ms = sv_metrics s @ [MObserve ''decode_step_duration_seconds'' (fsub (clk (sv_clock s)) t0),
     MObserve ''batch_size_tokens'' (of_nat (length rows)), MObserve ''batch_size_requests'' (of_nat (length (remdups (map row_seq_id rows)))),
     MObserve ''batch_utilization'' (fl (of_nat (length rows) / of_int (n_ctx ?st)))]"
  let ?s1 = "s\<lparr>sv_runtime := rt', sv_clock := Suc (sv_clock s), sv_metrics := ms\<rparr>"
  have adv: "for_each (remdups (map row_seq_id rows)) (advance_seq ?rio rows) ?s1 = (Inr (), ?s1\<lparr>sv_active := ?adv\<rparr>)"
    using advance_all_run[of ?s1 "chunk_size ?st" rows "n_ctx ?st" ?rio, OF _ _ c] wfA dist rows rio_of_live[OF I] by simp
  let ?s3 = "?s1\<lparr>sv_active := ?adv, sv_clock := Suc (Suc (sv_clock s))\<rparr>"
  let ?s2 = "s\<lparr>sv_runtime := rt', sv_active := ?adv\<rparr>"
  have mok: "list_all event_ok ms" using D(11) by (simp add: ms_def)
  have "queue_inv (sv_queue ?s2)" using D(2) by (simp add: ids_inv_def)
  from tick_inv_cong[OF dec(1) _ mok this refl, where k = "Suc (Suc (sv_clock s))" and l = "sv_loop s" and p = "sv_policy s"]
  have "tick_inv lib cells lm clk (due_marks (set (keys sampled))) (?s2\<lparr>sv_clock := Suc (Suc (sv_clock s)), sv_metrics := ms\<rparr>)"
    by (simp del: set_map)
  moreover have "?s2\<lparr>sv_clock := Suc (Suc (sv_clock s)), sv_metrics := ms\<rparr> = ?s3" by (intro server.equality) simp_all
  ultimately have I3: "tick_inv lib cells lm clk (due_marks (set (keys sampled))) ?s3" by (simp only:)
  have P: "\<forall>x \<in> set sampled. pending_sample lm ?rio ?s3 x"
  proof
    fix x assume x: "x \<in> set sampled"
    obtain sid t where st: "x = (sid, t)" by force
    from dec(3)[OF x[unfolded st]] obtain rid sq p m where "dict_get ?A rid = Some sq" "seq_id sq = sid"
      "acc rid (sv_trace s) = Some (p, m)" "t = greedy lm (p @ toks rid (sv_trace s))" by blast
    with rio_of_live[OF I] show "pending_sample lm ?rio ?s3 x"
      unfolding st pending_sample_def by (auto simp: dict_get_map)
  qed
  obtain s' where s': "for_each sampled (handle_token lib clk ?rio (clk (Suc (sv_clock s)))) ?s3 = (Inr (), s')"
    "tick_inv lib cells lm clk clean s'" "thins ?s3 s'"
    by (rule tokens_inv[OF ok clk I3 dec(2) P]) (rule that; assumption)
  have "after_decode lib clk rows t0 sampled (s\<lparr>sv_runtime := rt'\<rparr>) = (Inr (), s')"
    using n cap' s'(1)[unfolded ms_def] by (simp add: after_decode_def Let_def run_asks[where y = "fl (of_nat (length rows) / of_int (n_ctx ?st))"]
      batch_capacity_def fdiv_def bnd_Inr[of "for_each (remdups (map row_seq_id rows)) (advance_seq ?rio rows)", OF adv[unfolded ms_def]])
  moreover have "steps_on s s'"
  proof -
    have "n_past (advanced (vals ?A) (n_ctx ?st) (chunk_size ?st) a) > n_past a" if "dict_get ?A r = Some a" for r a
      using every_sequence_served[OF I that] by (simp add: advanced_def)
    then show ?thesis using s'(3) unfolding thins_def steps_on_def by (simp add: dict_get_map) metis
  qed
  ultimately show thesis using s' by (intro that[of s'])
qed

section \<open>After a failed decode\<close>

lemma torn_inv:
  assumes ok: "llama_ok lib cells lm" and I: "tick_inv lib cells lm clk clean s"
    and rows: "rows = build_batch (vals (sv_active s)) (n_ctx (sv_settings s)) (chunk_size (sv_settings s))"
    and d: "decode lib rows (sv_runtime s) = (r, rt')"
  shows "tick_inv lib cells lm clk (\<lambda>_. Torn) (s\<lparr>sv_runtime := rt'\<rparr>)"
proof -
  note D = tick_invD[OF I]
  let ?cap = "n_ctx (sv_settings s)" and ?act = "vals (sv_active s)"
  have c: "0 < chunk_size (sv_settings s)" and n: "0 < ?cap" and wf: "runtime_wf (sv_runtime s)" and cap: "rt_capacity (sv_runtime s) = ?cap"
    using D(1) by (auto simp: static_inv_def config_ok_def)
  have dist: "distinct (map seq_id ?act)" using D(3) by (simp add: slots_inv_def)
  have len: "int (length rows) \<le> rt_capacity (sv_runtime s)"
    unfolding rows cap using build_batch_capacity[OF c, of ?cap] n by simp
  note R = decode_result[OF ok wf len d]
  have "cells (rt_ctx rt') sid = cells (rt_ctx (sv_runtime s)) sid" if "sid \<in> set (sv_free_slots s)" for sid
  proof (rule R(4))
    have "sid \<notin> seq_id ` set ?act" using D(3) that by (auto simp: slots_inv_def)
    then show "sid \<notin> row_seq_id ` set rows" using batch_seq_ids[OF c dist, of ?cap] rows by blast
  qed
  then have FI: "free_inv (cells (rt_ctx rt')) (sv_free_slots s)" using D(6) by (simp add: free_inv_def holds_def)
  have LI: "live_inv (\<lambda>_. Torn) (cells (rt_ctx rt')) clk (sv_clock s) (sv_trace s) (block_table (sv_kv s))
      (kv_block_size (sv_settings s)) (sv_active s) (sv_requests s)"
    using D(4) unfolding live_inv_def live_req_def by fastforce
  have SI: "static_inv lib (sv_settings s) rt' (sv_kv s)" using D(1) R(1-3) by (auto simp: static_inv_def)
  show ?thesis unfolding tick_inv_def using SI D(2,3) LI D(5) FI D(7-11) by simp
qed

lemma finish_all_inv:
  assumes ok: "llama_ok lib cells lm" and clk: "strict_mono clk" and I: "tick_inv lib cells lm clk mk s"
  obtains s' where "for_each (keys (sv_requests s)) (\<lambda>rid. finish lib clk rid (Some why)) s = (Inr (), s')"
    "tick_inv lib cells lm clk clean s'" "sv_active s' = []" "thins s s'"
proof -
  let ?I = "\<lambda>ys u. (\<exists>mk. tick_inv lib cells lm clk mk u) \<and> keys (sv_requests u) = ys \<and> thins s u"
  have "?I (keys (sv_requests s)) s" using I by auto
  then have "\<exists>s'. for_each (keys (sv_requests s)) (\<lambda>rid. finish lib clk rid (Some why)) s = (Inr (), s') \<and> ?I [] s'"
  proof (rule for_each_invariant)
    fix rid ys u assume i: "?I (rid # ys) u"
    then obtain mk where T: "tick_inv lib cells lm clk mk u" by blast
    have K: "keys (sv_active u) = rid # ys" and wf: "dict_wf (sv_active u)" and KR: "keys (sv_requests u) = rid # ys"
      using i tick_invD(2)[OF T] by (simp_all add: ids_inv_def)
    obtain sq st where g: "dict_get (sv_active u) rid = Some sq" "dict_get (sv_requests u) rid = Some st"
      using K KR by (metis dict_get_eq_None list.set_intros(1) not_Some_eq)
    obtain u' where u': "finish lib clk rid (Some why) (u\<lparr>sv_requests := dict_set rid st (sv_requests u)\<rparr>) = (Inr (), u')"
      "tick_inv lib cells lm clk (mk(seq_id sq := Clean)) u'" "sv_requests u' = dict_del rid (sv_requests u)"
      "sv_settings u' = sv_settings u" "sv_queue u' = sv_queue u" "sv_active u' = dict_del rid (sv_active u)"
      "sv_trace u' = sv_trace u @ [Closed rid (Some why)]"
      by (rule finish_inv[OF ok clk T g refl refl refl, where why = "Some why"], simp) (rule that; assumption)
    have "distinct (rid # ys)" using wf unfolding dict_wf_def K .
    then have "keys (dict_del rid (sv_requests u)) = ys" unfolding keys_del KR by (auto intro!: filter_True)
    moreover have "u\<lparr>sv_requests := dict_set rid st (sv_requests u)\<rparr> = u" using dict_set_same[OF g(2)] by simp
    moreover have "thins u u'" unfolding thins_def by (simp add: u' dict_get_del)
    moreover have "thins s u" using i by blast
    ultimately show "\<exists>u'. finish lib clk rid (Some why) u = (Inr (), u') \<and> ?I ys u'"
      using u' thins_trans by (intro exI[of _ u']) auto
  qed
  then obtain s' mk' where s': "for_each (keys (sv_requests s)) (\<lambda>rid. finish lib clk rid (Some why)) s = (Inr (), s')"
    "tick_inv lib cells lm clk mk' s'" "keys (sv_requests s') = []" "thins s s'" by blast
  then have "sv_active s' = []" "sv_requests s' = []" using tick_invD(2)[OF s'(2)] by (simp_all add: ids_inv_def)
  moreover from this have "tick_inv lib cells lm clk clean s'" using s'(2) unfolding tick_inv_def live_inv_def by simp
  ultimately show thesis using s' by (intro that[of s'])
qed

lemma loop_decoded_inv:
  assumes ok: "llama_ok lib cells lm" and clk: "strict_mono clk" and I: "tick_inv lib cells lm clk clean s"
    and rows: "rows = build_batch (vals (sv_active s)) (n_ctx (sv_settings s)) (chunk_size (sv_settings s))"
  obtains s' where "loop_decoded lib clk rows t0 s = (Inr (), s')" "server_inv lib cells lm clk s'"
    "sv_loop s' = AtTop" "steps_on s s'"
proof -
  obtain r rt' where d: "decode lib rows (sv_runtime s) = (r, rt')" by force
  let ?s = "s\<lparr>sv_runtime := rt'\<rparr>"
  have res: "(\<exists>rc. r = Inl (RuntimeError rc)) \<or> (\<exists>sampled. r = Inr sampled)"
    by (rule decode_outcome[OF ok I rows d])
  define after where "after = (case r of Inl MemoryFault \<Rightarrow> raise MemoryFault
           | Inl e \<Rightarrow> bnd (gets (\<lambda>s. keys (sv_requests s))) (\<lambda>rids. for_each rids (\<lambda>rid. finish lib clk rid (Some ''decode_error'')))
           | Inr sampled \<Rightarrow> after_decode lib clk rows t0 sampled)"
  have "\<exists>u. after ?s = (Inr (), u) \<and> tick_inv lib cells lm clk clean u \<and> steps_on s u"
    using res
  proof
    assume "\<exists>rc. r = Inl (RuntimeError rc)"
    then obtain rc where r: "r = Inl (RuntimeError rc)" by blast
    obtain u where "for_each (keys (sv_requests ?s)) (\<lambda>rid. finish lib clk rid (Some ''decode_error'')) ?s = (Inr (), u)"
      "tick_inv lib cells lm clk clean u" "sv_active u = []" "thins ?s u"
      by (rule finish_all_inv[OF ok clk torn_inv[OF ok I rows d]]) (rule that; assumption)
    moreover from this have "steps_on s u" unfolding thins_def steps_on_def by simp
    ultimately show ?thesis using r by (intro exI[of _ u]) (simp add: after_def)
  next
    assume "\<exists>sampled. r = Inr sampled"
    then obtain sampled where r: "r = Inr sampled" by blast
    obtain u where "after_decode lib clk rows t0 sampled ?s = (Inr (), u)" "tick_inv lib cells lm clk clean u" "steps_on s u"
      by (rule after_decode_inv[OF ok clk I rows d[unfolded r]]) (rule that; assumption)
    then show ?thesis using r by (intro exI[of _ u]) (simp add: after_def)
  qed
  then obtain u where u: "after ?s = (Inr (), u)" "tick_inv lib cells lm clk clean u" "steps_on s u" by blast
  have "loop_decoded lib clk rows t0 s = (Inr (), u\<lparr>sv_loop := AtTop\<rparr>)"
    unfolding loop_decoded_def run_call d prod.case after_def[symmetric] bnd_Inr[of after, OF u(1)] by simp
  moreover have "steps_on s (u\<lparr>sv_loop := AtTop\<rparr>)" using u(3) by (simp add: steps_on_def)
  ultimately show thesis using tick_inv_simps(3)[OF u(2)]
    by (intro that[of "u\<lparr>sv_loop := AtTop\<rparr>"]) (simp_all add: server_inv_def loop_inv_def)
qed

end
