(* ===== verification/Server_Steps.thy ===== *)
theory Server_Steps
  imports Server_Tick
begin

text \<open>
  The remaining steps of the server: a request is accepted or rejected, a consumer takes an item, a
  client disconnects, the policy is swapped. Together with the loop they give that every reachable
  state satisfies the invariant (\<open>reachable_inv\<close>).
\<close>

section \<open>A request is accepted\<close>

lemma acc_new: "acc rid tr = None \<Longrightarrow> acc rid (tr @ [Accepted rid p m]) = Some (p, m)"
  and acc_old: "acc r tr2 = Some v \<Longrightarrow> acc r (tr2 @ es) = Some v"
  and acc_diff: "r \<noteq> rid \<Longrightarrow> acc r (tr3 @ [Accepted rid p m]) = acc r tr3"
  by (auto simp: acc_append split: option.splits)

lemma live_inv_accept:
  assumes L: "live_inv mk c clk k tr tbl bs A R" and k: "k \<le> k'" and new: "rid \<notin> set (keys tbl)"
  shows "live_inv mk c clk k' (tr @ [Accepted rid p m]) (tbl @ [(rid, b)]) bs A R"
  unfolding live_inv_def
proof (intro allI impI)
  fix r sq st assume "dict_get A r = Some sq" "dict_get R r = Some st"
  with L have l: "live_req mk c clk k tr tbl bs r sq st" by (simp add: live_inv_def)
  then obtain q n b' where a: "acc r tr = Some (q, n)" "dict_get tbl r = Some b'" by (auto simp: live_req_def)
  have "dict_get (tbl @ [(rid, b)]) r = Some b'" using a(2) by (simp add: map_add_def)
  with l a acc_old[OF a(1), of "[Accepted rid p m]"] k show "live_req mk c clk k' (tr @ [Accepted rid p m]) (tbl @ [(rid, b)]) bs r sq st"
    unfolding live_req_def by (auto intro: less_le_trans)
qed

lemma wait_inv_accept:
  assumes W: "wait_inv tr tbl bs Q" and new: "rid \<notin> set (keys tbl)" "rid \<notin> queued_ids Q" "acc rid tr = None" "toks rid tr = []"
    and r: "req_id r = rid" "int (length (prompt_tokens r)) + max_tokens r \<le> b * bs"
  shows "wait_inv (tr @ [Accepted rid (prompt_tokens r) (max_tokens r)]) (tbl @ [(rid, b)]) bs (push r Q)"
proof -
  have w: "waiting (push r Q) = waiting Q @ [r]" using push_new[of r Q] new(2) r(1) by (simp add: waiting_def)
  have g: "dict_get (tbl @ [(rid, b)]) x = (if x = rid then Some b else dict_get tbl x)" for x
    using new(1) dict_get_eq_None[of tbl rid] by (auto simp: map_add_def split: option.splits)
  have "req_id x \<noteq> rid" if "x \<in> set (waiting Q)" for x using W new(3) that by (auto simp: wait_inv_def)
  with W show ?thesis unfolding wait_inv_def w using r new(3,4)
    by (auto simp: g acc_new acc_diff simp del: map_of_append)
qed

lemma prefix_inv_accept:
  assumes "prefix_inv bs tr A pc"
  shows "prefix_inv bs (tr @ es) A pc"
proof -
  have "claim_ok bs (tr @ es) A cl" if "claim_ok bs tr A cl" for cl
    using that unfolding claim_ok_def by (metis acc_old)
  with assms show ?thesis unfolding prefix_inv_def by (auto split: option.splits)
qed

lemma hist_inv_accept:
  assumes H: "hist_inv lm eos tr live" and new: "acc rid tr = None" and p: "p \<noteq> []" "list_all int32 p" "0 < m"
  shows "hist_inv lm eos (tr @ [Accepted rid p m]) (insert rid live)"
proof -
  have n: "toks rid tr = []" "\<forall>r. Closed rid r \<notin> set tr" using H new by (auto simp: hist_inv_def)
  have a: "acc r (tr @ [Accepted rid p m]) = (if r = rid then Some (p, m) else acc r tr)" for r
    using new by (simp add: acc_new acc_diff)
  have "legal_history lm eos (tr @ [Accepted rid p m])" using H new p by (auto simp: hist_inv_def intro!: legal_snoc)
  with H n p show ?thesis unfolding hist_inv_def a by auto
qed

lemma bytes_of_Nil: "bytes_of lib [] = []"
  by (simp add: bytes_of_def)

lemma str_inv_accept:
  assumes S: "str_inv lib tr live m" and H: "hist_inv lm eos tr live" and new: "acc rid tr = None"
  shows "str_inv lib (tr @ [Accepted rid p n]) (insert rid live) (stream_create rid m)"
proof -
  have n: "toks rid tr = []" "reads rid tr = []" "StreamEnded rid \<notin> set tr" using H new by (auto simp: hist_inv_def)
  have a: "acc r (tr @ [Accepted rid p n]) = (if r = rid then Some (p, n) else acc r tr)" for r
    using new by (simp add: acc_new acc_diff)
  show ?thesis using S n unfolding str_inv_def a stream_create_def
    by (auto simp: new_stream_ok bytes_of_Nil)
qed

lemma spans_inv_accept:
  assumes "spans_inv t act que" "rid \<notin> act" "rid \<notin> que"
  shows "spans_inv (start_span rid ''queue_wait'' (end_span rid ''admission'' (start_span rid ''admission'' (start_request rid as t))))
      act (insert rid que)"
    and "spans_inv (end_request rid as' (end_span rid ''admission'' (start_span rid ''admission'' (start_request rid as t)))) act que"
  using assms unfolding spans_inv_def
  by (auto simp: dom_simps tracer_frames intro!: start_span_inv end_span_inv end_request_inv start_request_inv)

lemma accept_inv:
  assumes I: "tick_inv lib cells lm clk mk s" and new: "acc rid (sv_trace s) = None" and p: "p \<noteq> []" "list_all int32 p" "0 < m"
    and room: "cover (kv_block_size (sv_settings s)) (int (length p) + m) \<le> free_blocks (sv_kv s)"
    and s': "sv_settings s' = sv_settings s" "sv_runtime s' = sv_runtime s" "sv_prefix s' = sv_prefix s"
      "sv_active s' = sv_active s" "sv_requests s' = sv_requests s" "sv_free_slots s' = sv_free_slots s"
      "sv_kv s' = (sv_kv s)\<lparr>free_blocks := free_blocks (sv_kv s) - cover (kv_block_size (sv_settings s)) (int (length p) + m),
         block_table := block_table (sv_kv s) @ [(rid, cover (kv_block_size (sv_settings s)) (int (length p) + m))]\<rparr>"
      "sv_tracer s' = start_span rid ''queue_wait'' (end_span rid ''admission'' (start_span rid ''admission'' (start_request rid as (sv_tracer s))))"
      "sv_streams s' = stream_create rid (sv_streams s)"
      "sv_queue s' = push r (sv_queue s)" "req_id r = rid" "prompt_tokens r = p" "max_tokens r = m"
      "sv_clock s \<le> sv_clock s'" "sv_trace s' = sv_trace s @ [Accepted rid p m]" "list_all event_ok (sv_metrics s')"
  shows "tick_inv lib cells lm clk mk s'"
proof -
  note D = tick_invD[OF I]
  let ?bs = "kv_block_size (sv_settings s)" and ?b = "cover (kv_block_size (sv_settings s)) (int (length p) + m)"
  have toksN: "toks rid (sv_trace s) = []" using D(8) new by (simp add: hist_inv_def)
  have live: "rid \<notin> live_ids s" using D(8) new unfolding hist_inv_def by blast
  then have ra: "rid \<notin> set (keys (sv_active s))" and rq: "rid \<notin> queued_ids (sv_queue s)"
    and rt: "rid \<notin> set (keys (block_table (sv_kv s)))" using D(2) unfolding ids_inv_def by blast+
  have bs: "0 < ?bs" "kv_inv (sv_kv s)" "block_size (sv_kv s) = ?bs" using D(1) by (auto simp: static_inv_def config_ok_def)
  have b: "int (length p) + m \<le> ?b * ?bs" "0 \<le> ?b"
    using cover_bounds(1)[OF bs(1), of "int (length p) + m"] cover_nonneg[OF bs(1), of "int (length p) + m"] p(3)
    by (simp_all add: mult.commute)
  have q: "waiting_d (sv_queue s') = waiting_d (sv_queue s) @ [(rid, r)]" using push_new[of r] s'(10,11) rq by simp
  then have Q: "queued_ids (sv_queue s') = insert rid (queued_ids (sv_queue s))" by auto
  have li: "live_ids s' = insert rid (live_ids s)" unfolding Q s'(4) by blast
  show ?thesis unfolding tick_inv_def li
  proof (intro conjI)
    show "static_inv lib (sv_settings s') (sv_runtime s') (sv_kv s')"
      using D(1) b(2) room rt unfolding static_inv_def s' by (auto simp: kv_inv_def dict_wf_def)
    show "ids_inv (sv_active s') (sv_requests s') (sv_queue s') (block_table (sv_kv s'))"
      using D(2) ra push_inv[of "sv_queue s" r] Q[unfolded s'(10)] unfolding ids_inv_def s' by (auto simp del: set_map)
    show "slots_inv (sv_active s') (sv_free_slots s') (n_seq_max (sv_settings s'))" unfolding s' by (rule D(3))
    show "live_inv mk (cells (rt_ctx (sv_runtime s'))) clk (sv_clock s') (sv_trace s')
        (block_table (sv_kv s')) (kv_block_size (sv_settings s')) (sv_active s') (sv_requests s')"
      using live_inv_accept[OF D(4) s'(14) rt] by (simp add: s')
    show "wait_inv (sv_trace s') (block_table (sv_kv s')) (kv_block_size (sv_settings s')) (sv_queue s')"
      using wait_inv_accept[OF D(5) rt rq new toksN s'(11)] b(1) by (simp add: s')
    show "free_inv (cells (rt_ctx (sv_runtime s'))) (sv_free_slots s')" unfolding s' by (rule D(6))
    show "prefix_inv (kv_block_size (sv_settings s')) (sv_trace s') (sv_active s') (sv_prefix s')"
      unfolding s' by (rule prefix_inv_accept[OF D(7)])
    show "hist_inv lm (lib_token_eos lib) (sv_trace s') (insert rid (live_ids s))"
      unfolding s' by (rule hist_inv_accept[OF D(8) new p])
    show "str_inv lib (sv_trace s') (insert rid (live_ids s)) (sv_streams s')"
      unfolding s' by (rule str_inv_accept[OF D(9,8) new])
    show "spans_inv (sv_tracer s') (set (keys (sv_active s'))) (queued_ids (sv_queue s'))"
      unfolding Q s'(4,8) by (rule spans_inv_accept(1)[OF D(10) ra rq])
    show "list_all event_ok (sv_metrics s')" by (rule s')
  qed
qed

lemma tokenize_result:
  assumes "llama_ok lib cells lm" "generate_request_valid body"
  shows "tokenize lib (gr_prompt body) = Inl ValueError \<or> (\<exists>p. tokenize lib (gr_prompt body) = Inr p \<and> p \<noteq> [] \<and> list_all int32 p)"
proof -
  have "utf8_encode (gr_prompt body) \<noteq> []"
    using assms(2) by (cases "gr_prompt body") (auto simp: generate_request_valid_def utf8_encode_def utf8_char_def)
  with llama_okD(8,9)[OF assms(1)] show ?thesis by (simp add: tokenize_def)
qed

text \<open>
  The whole handler, branch by branch: an invalid body, a prompt that cannot be encoded, a full queue,
  a full cache, and acceptance. Nothing else can happen, and the invariant holds after each.
\<close>

lemma generate_cases:
  assumes ok: "llama_ok lib cells lm" and I: "tick_inv lib cells lm clk mk s" and new: "acc rid (sv_trace s) = None"
    and g: "generate lib clk rid body s = (r, s')"
  obtains (invalid) "\<not> generate_request_valid body" "r = UnprocessableEntity" "s' = s"
  | (unencodable) "generate_request_valid body" "tokenize lib (gr_prompt body) = Inl ValueError"
      "r = InternalServerError ValueError" "s' = s"
  | (rejected) p why where "generate_request_valid body" "tokenize lib (gr_prompt body) = Inr p" "r = ServiceUnavailable why"
      "why = (if max_queue_depth (sv_settings s) \<le> queue_depth (sv_queue s) then ''queue_full'' else ''kv_cache_full'')"
      "why = ''kv_cache_full'' \<longrightarrow> free_blocks (sv_kv s) < cover (kv_block_size (sv_settings s)) (int (length p) + gr_max_tokens body)"
      "s' = s\<lparr>sv_metrics := sv_metrics s @ [MInc ''admission_rejected_total'' [why] 1], sv_tracer := sv_tracer s'\<rparr>"
      "tick_inv lib cells lm clk mk s'"
  | (accepted) p where "generate_request_valid body" "tokenize lib (gr_prompt body) = Inr p"
      "r = (if gr_stream body then StreamingBody rid else CollectedBody rid)"
      "queue_depth (sv_queue s) < max_queue_depth (sv_settings s)"
      "cover (kv_block_size (sv_settings s)) (int (length p) + gr_max_tokens body) \<le> free_blocks (sv_kv s)"
      "s' = s\<lparr>sv_queue := push \<lparr>req_id = rid, prompt_tokens = p, max_tokens = gr_max_tokens body, priority = gr_priority body,
             arrival_ts = clk (sv_clock s)\<rparr> (sv_queue s),
           sv_streams := stream_create rid (sv_streams s), sv_kv := sv_kv s',
           sv_metrics := sv_metrics s @ [MInc ''admission_accepted_total'' [] 1], sv_tracer := sv_tracer s',
           sv_clock := Suc (sv_clock s), sv_trace := sv_trace s @ [Accepted rid p (gr_max_tokens body)]\<rparr>"
      "tick_inv lib cells lm clk mk s'"
      "free_blocks (sv_kv s') = free_blocks (sv_kv s) - cover (kv_block_size (sv_settings s)) (int (length p) + gr_max_tokens body)"
proof -
  show thesis
  proof (cases "generate_request_valid body")
    case False
    then show thesis using g by (intro invalid) (simp_all add: generate_def)
  next
    case True
    from tokenize_result[OF ok True] show thesis
    proof (elim disjE exE conjE)
      assume "tokenize lib (gr_prompt body) = Inl ValueError"
      with True g show thesis by (intro unencodable) (simp_all add: generate_def generate_body_def bnd_def)
    next
      fix p assume tk: "tokenize lib (gr_prompt body) = Inr p" and p: "p \<noteq> []" "list_all int32 p"
      note D = tick_invD[OF I]
      let ?m = "gr_max_tokens body" and ?bs = "kv_block_size (sv_settings s)"
      let ?as = "[(''prompt_tokens'', AInt (int (length p))), (''max_tokens'', AInt ?m)]"
      let ?s1 = "s\<lparr>sv_tracer := start_request rid ?as (sv_tracer s)\<rparr>"
      have m: "0 < ?m" using True by (simp add: generate_request_valid_def)
      have nl: "rid \<notin> live_ids s" using D(8) new unfolding hist_inv_def by blast
      then have ra: "rid \<notin> set (keys (sv_active s))" and rq: "rid \<notin> queued_ids (sv_queue s)" by blast+
      let ?b = "cover ?bs (int (length p) + ?m)"
      let ?full = "max_queue_depth (sv_settings s) \<le> queue_depth (sv_queue s)" and ?kvfull = "free_blocks (sv_kv s) < ?b"
      have S: "kv_inv (sv_kv s)" "block_size (sv_kv s) = ?bs" "total_blocks_f (sv_kv s) * block_size (sv_kv s) < 2 ^ 53 - 1"
        using D(1) by (auto simp: static_inv_def config_ok_def)
      have k: "rid \<notin> set (keys (block_table (sv_kv s)))" using D(2) nl unfolding ids_inv_def by blast
      note R = reserve_bounded[OF S(1,3) _ k, of "int (length p) + ?m"]
      let ?tr = "end_span rid ''admission'' (start_span rid ''admission'' (start_request rid ?as (sv_tracer s)))"
      show thesis
      proof (cases "?full \<or> ?kvfull")
        case True
        let ?why = "if ?full then ''queue_full'' else ''kv_cache_full''"
        let ?s2 = "s\<lparr>sv_metrics := sv_metrics s @ [MInc ''admission_rejected_total'' [?why] 1],
            sv_tracer := end_request rid [(''rejected'', ABool True)] ?tr\<rparr>"
        have "generate_body lib clk rid body s = (Inr (ServiceUnavailable ?why), ?s2)"
          using True m R S(2) by (auto simp: generate_body_def tk run_admission_span run_call admit_request_def Let_def)
        with g \<open>generate_request_valid body\<close> have r: "r = ServiceUnavailable ?why" "s' = ?s2" by (simp_all add: generate_def)
        have "tick_inv lib cells lm clk mk ?s2"
          using D spans_inv_accept(2)[OF D(10) ra rq] unfolding tick_inv_def by simp
        with r True tk \<open>generate_request_valid body\<close> show thesis by (intro rejected[of p ?why]) auto
      next
        case False
        let ?r = "\<lparr>req_id = rid, prompt_tokens = p, max_tokens = gr_max_tokens body, priority = gr_priority body,
             arrival_ts = clk (sv_clock s)\<rparr>"
        let ?s2 = "s\<lparr>sv_queue := push ?r (sv_queue s), sv_streams := stream_create rid (sv_streams s),
           sv_kv := (sv_kv s)\<lparr>free_blocks := free_blocks (sv_kv s) - ?b, block_table := block_table (sv_kv s) @ [(rid, ?b)]\<rparr>,
           sv_metrics := sv_metrics s @ [MInc ''admission_accepted_total'' [] 1],
           sv_tracer := start_span rid ''queue_wait'' ?tr, sv_clock := Suc (sv_clock s),
           sv_trace := sv_trace s @ [Accepted rid p ?m]\<rparr>"
        have "generate_body lib clk rid body s = (Inr (if gr_stream body then StreamingBody rid else CollectedBody rid), ?s2)"
          using False m R S(2) by (simp add: generate_body_def tk run_admission_span enqueue_def run_call admit_request_def Let_def)
        with g \<open>generate_request_valid body\<close> have r: "r = (if gr_stream body then StreamingBody rid else CollectedBody rid)" "s' = ?s2"
          by (simp_all add: generate_def)
        have "tick_inv lib cells lm clk mk ?s2"
          by (rule accept_inv[OF I new p m, where r = ?r and as = ?as]) (use False D(11) in simp_all)
        with r False tk \<open>generate_request_valid body\<close> show thesis by (intro accepted[of p]) auto
      qed
    qed
  qed
qed


section \<open>Consumers\<close>

lemma tick_inv_streams:
  assumes I: "tick_inv lib cells lm clk mk s"
    and tr: "\<And>r. acc r tr = acc r (sv_trace s)" "\<And>r. toks r tr = toks r (sv_trace s)"
    and H: "hist_inv lm (lib_token_eos lib) tr (live_ids s)" and S: "str_inv lib tr (live_ids s) m"
  shows "tick_inv lib cells lm clk mk (s\<lparr>sv_streams := m, sv_trace := tr\<rparr>)"
  using tick_invD[OF I] H S
  unfolding tick_inv_def live_inv_def live_req_def wait_inv_def prefix_inv_def claim_ok_def
  by (cases "sv_prefix s") (simp_all add: tr del: set_map)

lemma str_inv_read:
  assumes S: "str_inv lib tr live m" and st: "dict_get m rid = Some st" "out_queue st = Text t # q"
  shows "str_inv lib (tr @ [TextRead rid t]) live (dict_set rid (st\<lparr>out_queue := q\<rparr>) m)"
proof -
  have "closed_stream (seen @ t) bs (st\<lparr>out_queue := q\<rparr>)" if c: "closed_stream seen bs st" for seen bs
  proof -
    from c obtain q' where q': "Text t # q = q' @ [EndOfStream]" "seen @ texts q' = fst (utf8_decode True bs)"
      "\<forall>x \<in> set q'. \<exists>t. x = Text t \<and> t \<noteq> []" unfolding closed_stream_def st(2) by blast
    then obtain q'' where "q' = Text t # q''" "q = q'' @ [EndOfStream]" by (cases q') auto
    with q' show ?thesis by (auto simp: closed_stream_def)
  qed
  moreover have "stream_ok (seen @ t) bs (st\<lparr>out_queue := q\<rparr>)" if "stream_ok seen bs st" for seen bs
    using that st(2) by (simp add: stream_ok_def)
  ultimately show ?thesis using S st unfolding str_inv_def by (auto split: if_splits)
qed

lemma str_inv_end:
  assumes S: "str_inv lib tr live m" and st: "dict_get m rid = Some st" "out_queue st = EndOfStream # q"
  shows "str_inv lib (tr @ [StreamEnded rid]) live (subscribe_exit rid (dict_set rid (st\<lparr>out_queue := q\<rparr>) m))"
proof -
  have nl: "rid \<notin> live"
  proof
    assume "rid \<in> live"
    with S st(1) have "stream_ok (reads rid tr) (bytes_of lib (toks rid tr)) st" by (simp add: str_inv_def)
    with st(2) show False by (simp add: stream_ok_def)
  qed
  with S st(1) have "closed_stream (reads rid tr) (bytes_of lib (toks rid tr)) st" by (simp add: str_inv_def)
  then obtain q' where q': "EndOfStream # q = q' @ [EndOfStream]" "reads rid tr @ texts q' = fst (utf8_decode True (bytes_of lib (toks rid tr)))"
    "\<forall>x \<in> set q'. \<exists>t. x = Text t \<and> t \<noteq> []" unfolding closed_stream_def st(2) by blast
  then have "q' = []" by (cases q') auto
  with q'(2) have "reads rid tr = fst (utf8_decode True (bytes_of lib (toks rid tr)))" by simp
  with S nl show ?thesis unfolding str_inv_def subscribe_exit_def by (auto simp: dict_get_del split: if_splits)
qed

lemma str_inv_cancel:
  assumes S: "str_inv lib tr live m"
  shows "str_inv lib tr live (cancel rid m)" "str_inv lib tr live (subscribe_exit rid m)"
proof -
  have "stream_ok seen bs (st\<lparr>cancelled := c\<rparr>) = stream_ok seen bs st" "closed_stream seen bs (st\<lparr>cancelled := c\<rparr>) = closed_stream seen bs st"
    for seen bs st c by (simp_all add: stream_ok_def closed_stream_def)
  with S show "str_inv lib tr live (cancel rid m)" unfolding str_inv_def cancel_def by (auto split: option.splits)
  from S show "str_inv lib tr live (subscribe_exit rid m)"
    unfolding str_inv_def subscribe_exit_def by (auto simp: dict_get_del split: if_splits)
qed

lemma hist_inv_read:
  assumes "hist_inv lm eos tr live" "acc rid tr \<noteq> None"
  shows "hist_inv lm eos (tr @ [TextRead rid t]) live" "hist_inv lm eos (tr @ [StreamEnded rid]) live"
proof -
  have "legal_history lm eos (tr @ [TextRead rid t])" "legal_history lm eos (tr @ [StreamEnded rid])"
    using assms by (auto simp: hist_inv_def intro!: legal_snoc)
  with assms show "hist_inv lm eos (tr @ [TextRead rid t]) live" "hist_inv lm eos (tr @ [StreamEnded rid]) live"
    unfolding hist_inv_def by auto
qed

lemma consume_inv:
  assumes I: "tick_inv lib cells lm clk mk s"
  shows "tick_inv lib cells lm clk mk (consume rid s)"
proof (cases "dict_get (sv_streams s) rid")
  case None
  with I show ?thesis by (simp add: consume_def subscribe_step_def)
next
  case (Some st)
  note D = tick_invD[OF I]
  have a: "acc rid (sv_trace s) \<noteq> None" using D(9) Some unfolding str_inv_def by blast
  note H = hist_inv_read[OF D(8) a]
  show ?thesis
  proof (cases "out_queue st")
    case Nil
    with Some I show ?thesis by (simp add: consume_def subscribe_step_def)
  next
    case (Cons x q)
    show ?thesis
    proof (cases x)
      case (Text t)
      have "tick_inv lib cells lm clk mk (s\<lparr>sv_streams := dict_set rid (st\<lparr>out_queue := q\<rparr>) (sv_streams s), sv_trace := sv_trace s @ [TextRead rid t]\<rparr>)"
        by (rule tick_inv_streams[OF I _ _ H(1) str_inv_read[OF D(9) Some Cons[unfolded Text]]]) simp_all
      with Some Cons Text show ?thesis by (simp add: consume_def subscribe_step_def)
    next
      case EndOfStream
      have "tick_inv lib cells lm clk mk (s\<lparr>sv_streams := subscribe_exit rid (dict_set rid (st\<lparr>out_queue := q\<rparr>) (sv_streams s)),
          sv_trace := sv_trace s @ [StreamEnded rid]\<rparr>)"
        by (rule tick_inv_streams[OF I _ _ H(2) str_inv_end[OF D(9) Some Cons[unfolded EndOfStream]]]) simp_all
      with Some Cons EndOfStream show ?thesis by (simp add: consume_def subscribe_step_def)
    qed
  qed
qed

lemma consume_frame:
  "sv_active (consume rid s) = sv_active s" "sv_queue (consume rid s) = sv_queue s"
  "sv_settings (consume rid s) = sv_settings s" "sv_loop (consume rid s) = sv_loop s"
  by (auto simp: consume_def split: sum.splits prod.splits consumer.splits)

lemma disconnect_inv:
  assumes I: "tick_inv lib cells lm clk mk s"
  shows "tick_inv lib cells lm clk mk (s\<lparr>sv_streams := cancel rid (sv_streams s)\<rparr>)"
    "tick_inv lib cells lm clk mk (s\<lparr>sv_streams := subscribe_exit rid (sv_streams s)\<rparr>)"
  using tick_inv_streams[OF I refl refl tick_invD(8)[OF I] str_inv_cancel(1)[OF tick_invD(9)[OF I]], of rid]
    tick_inv_streams[OF I refl refl tick_invD(8)[OF I] str_inv_cancel(2)[OF tick_invD(9)[OF I]], of rid] by simp_all

section \<open>Every step keeps the invariant\<close>

lemma loop_inv_push: "loop_inv st A Q l \<Longrightarrow> loop_inv st A (push r Q) l"
  by (auto simp: loop_inv_def push_wakes split: loop_state.splits)

text \<open>
  One step of the loop, from any of its suspension points. Up to the decode call the running requests
  stay as they are; the decode call moves each of them forward. A step that does not end in front of a
  decode call has come from one, or leaves no request behind.
\<close>

lemma loop_step_result:
  assumes ok: "llama_ok lib cells lm" and clk: "strict_mono clk" and I: "server_inv lib cells lm clk s"
  shows "server_inv lib cells lm clk (loop_step lib clk s)"
    and "\<not> (\<exists>rows t. sv_loop s = AwaitDecode rows t) \<Longrightarrow> keeps s (loop_step lib clk s)"
    and "\<not> (\<exists>rows t. sv_loop s = AwaitDecode rows t) \<Longrightarrow> 0 < n_seq_max (sv_settings s) \<Longrightarrow>
      (\<exists>rows t. sv_loop (loop_step lib clk s) = AwaitDecode rows t) \<or> live_ids (loop_step lib clk s) = {}"
    and "sv_loop s = AwaitDecode rows t \<Longrightarrow> steps_on s (loop_step lib clk s) \<and> sv_loop (loop_step lib clk s) = AtTop"
proof -
  have T: "tick_inv lib cells lm clk clean s" and L: "loop_inv (sv_settings s) (sv_active s) (sv_queue s) (sv_loop s)"
    using I by (simp_all add: server_inv_def)
  let ?dec = "\<exists>rows t. sv_loop s = AwaitDecode rows t" and ?s' = "loop_step lib clk s"
  have "server_inv lib cells lm clk ?s' \<and> (\<not> ?dec \<longrightarrow> keeps s ?s')
     \<and> (\<not> ?dec \<longrightarrow> 0 < n_seq_max (sv_settings s) \<longrightarrow> (\<exists>rows t. sv_loop ?s' = AwaitDecode rows t) \<or> live_ids ?s' = {})
     \<and> (?dec \<longrightarrow> steps_on s ?s' \<and> sv_loop ?s' = AtTop)"
  proof (cases "sv_loop s")
    case AtTop
    obtain s' where "loop_top lib clk s = (Inr (), s')" "server_inv lib cells lm clk s'" "keeps s s'"
      "0 < n_seq_max (sv_settings s) \<Longrightarrow> (\<exists>rows t. sv_loop s' = AwaitDecode rows t) \<or> live_ids s' = {}"
      by (rule loop_top_inv[OF ok T]) (rule that; assumption)
    with AtTop show ?thesis by (simp add: loop_step_def run_loop_def del: set_map)
  next
    case AwaitArrival
    with L have A: "sv_active s = []" "waiting_d (sv_queue s) = [] \<or> arrived (sv_queue s)" by (simp_all add: loop_inv_def)
    obtain s' where "wait_pass lib clk s = (Inr (), s')" "server_inv lib cells lm clk s'" "keeps s s'"
      "0 < n_seq_max (sv_settings s) \<Longrightarrow> (\<exists>rows t. sv_loop s' = AwaitDecode rows t) \<or> live_ids s' = {}"
      by (rule wait_pass_inv[OF ok T A(1)]) (rule that; assumption)
    with AwaitArrival I A show ?thesis by (cases "arrived (sv_queue s)") (simp_all add: loop_step_def run_loop_def)
  next
    case (AwaitDecode rows t)
    with L have rows: "rows = build_batch (vals (sv_active s)) (n_ctx (sv_settings s)) (chunk_size (sv_settings s))"
      by (simp add: loop_inv_def)
    obtain s' where "loop_decoded lib clk rows t s = (Inr (), s')" "server_inv lib cells lm clk s'"
      "sv_loop s' = AtTop" "steps_on s s'"
      by (rule loop_decoded_inv[OF ok clk T rows]) (rule that; assumption)
    with AwaitDecode show ?thesis by (simp add: loop_step_def run_loop_def)
  next
    case (Crashed e)
    with L show ?thesis by (simp add: loop_inv_def)
  qed
  then show "server_inv lib cells lm clk ?s'" "\<not> ?dec \<Longrightarrow> keeps s ?s'"
    "\<not> ?dec \<Longrightarrow> 0 < n_seq_max (sv_settings s) \<Longrightarrow> (\<exists>rows t. sv_loop ?s' = AwaitDecode rows t) \<or> live_ids ?s' = {}"
    "sv_loop s = AwaitDecode rows t \<Longrightarrow> steps_on s ?s' \<and> sv_loop ?s' = AtTop" by blast+
qed

lemmas loop_step_inv = loop_step_result(1)

lemma set_policy_inv:
  assumes "server_inv lib cells lm clk s" "set_policy name s = (r, s')"
  shows "server_inv lib cells lm clk s'"
proof -
  have "s' = s \<or> (\<exists>p. s' = s\<lparr>sv_policy := p\<rparr>)"
    using assms(2) by (auto simp: set_policy_def Let_def split: if_splits sum.splits)
  with assms(1) tick_inv_simps(4) show ?thesis by (auto simp: server_inv_def)
qed

lemma generate_inv:
  assumes ok: "llama_ok lib cells lm" and I: "server_inv lib cells lm clk s"
    and new: "rid \<notin> accepted_ids (sv_trace s)" and g: "generate lib clk rid body s = (r, s')"
  shows "server_inv lib cells lm clk s'"
proof -
  have T: "tick_inv lib cells lm clk clean s" and L: "loop_inv (sv_settings s) (sv_active s) (sv_queue s) (sv_loop s)"
    using I by (simp_all add: server_inv_def)
  have a: "acc rid (sv_trace s) = None" using new acc_accepted by blast
  show ?thesis using ok T a g
  proof (cases rule: generate_cases)
    case (rejected p why)
    define tr' where "tr' = sv_tracer s'"
    note E = rejected(6)[folded tr'_def]
    show ?thesis using rejected(7) L unfolding server_inv_def by (simp add: E)
  next
    case (accepted p)
    define kv' tr' where "kv' = sv_kv s'" and "tr' = sv_tracer s'"
    note E = accepted(6)[folded kv'_def tr'_def]
    show ?thesis using accepted(7) loop_inv_push[OF L] unfolding server_inv_def by (simp add: E)
  qed (use I in auto)
qed

lemma client_step_inv:
  assumes ok: "llama_ok lib cells lm" and st: "client_step lib clk s s'" and I: "server_inv lib cells lm clk s"
  shows "server_inv lib cells lm clk s'"
  using st
proof cases
  case (step_generate rid body r)
  then show ?thesis by (intro generate_inv[OF ok I])
next
  case (step_set_policy name r)
  with set_policy_inv[OF I] show ?thesis by blast
next
  case (step_consume rid)
  with consume_inv I show ?thesis by (auto simp: server_inv_def consume_frame)
next
  case (step_disconnect rid)
  with disconnect_inv(1) I show ?thesis by (auto simp: server_inv_def)
next
  case (step_teardown rid)
  with disconnect_inv(2) I show ?thesis by (auto simp: server_inv_def)
qed

text \<open>What a client step leaves alone: the settings, the loop and every running request.\<close>

lemma client_step_frame:
  assumes ok: "llama_ok lib cells lm" and st: "client_step lib clk s s'" and I: "server_inv lib cells lm clk s"
  shows "sv_settings s' = sv_settings s" "sv_loop s' = sv_loop s" "sv_active s' = sv_active s"
    "\<exists>es. sv_trace s' = sv_trace s @ es"
    "rid \<in> accepted_ids (sv_trace s) \<Longrightarrow> rid \<in> live_ids s' \<Longrightarrow> rid \<in> live_ids s"
proof -
  have "sv_settings s' = sv_settings s \<and> sv_loop s' = sv_loop s \<and> sv_active s' = sv_active s \<and> (\<exists>es. sv_trace s' = sv_trace s @ es)
     \<and> (rid \<in> accepted_ids (sv_trace s) \<longrightarrow> rid \<in> live_ids s' \<longrightarrow> rid \<in> live_ids s)"
    using st
  proof cases
    case (step_generate rid' body r)
    have T: "tick_inv lib cells lm clk clean s" using I by (simp add: server_inv_def)
    have a: "acc rid' (sv_trace s) = None" using step_generate(1) acc_accepted by blast
    show ?thesis using ok T a step_generate(2)
    proof (cases rule: generate_cases)
      case (rejected p why)
      define tr' where "tr' = sv_tracer s'"
      note E = rejected(6)[folded tr'_def]
      show ?thesis by (simp add: E)
    next
      case (accepted p)
      define kv' tr' where "kv' = sv_kv s'" and "tr' = sv_tracer s'"
      note E = accepted(6)[folded kv'_def tr'_def]
      show ?thesis using step_generate(1) by (auto simp: E push_def dom_update)
    qed simp_all
  next
    case (step_set_policy name r)
    then have "s' = s \<or> (\<exists>p. s' = s\<lparr>sv_policy := p\<rparr>)" by (auto simp: set_policy_def Let_def split: if_splits sum.splits)
    then show ?thesis by auto
  next
    case (step_consume r)
    have "\<exists>es. sv_trace (consume r s) = sv_trace s @ es" by (auto simp: consume_def split: sum.splits prod.splits consumer.splits)
    with step_consume show ?thesis by (simp add: consume_frame)
  qed simp_all
  then show "sv_settings s' = sv_settings s" "sv_loop s' = sv_loop s" "sv_active s' = sv_active s" "\<exists>es. sv_trace s' = sv_trace s @ es"
    "rid \<in> accepted_ids (sv_trace s) \<Longrightarrow> rid \<in> live_ids s' \<Longrightarrow> rid \<in> live_ids s" by blast+
qed

lemma loop_step_frame:
  assumes ok: "llama_ok lib cells lm" and clk: "strict_mono clk" and I: "server_inv lib cells lm clk s"
  shows "sv_settings (loop_step lib clk s) = sv_settings s" "live_ids (loop_step lib clk s) \<subseteq> live_ids s"
    "acc r (sv_trace (loop_step lib clk s)) = acc r (sv_trace s)"
proof -
  let ?s' = "loop_step lib clk s"
  have "sv_settings ?s' = sv_settings s \<and> live_ids ?s' \<subseteq> live_ids s \<and> acc r (sv_trace ?s') = acc r (sv_trace s)"
  proof (cases "\<exists>rows t. sv_loop s = AwaitDecode rows t")
    case True
    then have st: "steps_on s ?s'" using loop_step_result(4)[OF ok clk I] by blast
    have "set (keys (sv_active ?s')) \<subseteq> set (keys (sv_active s))"
    proof
      fix k assume "k \<in> set (keys (sv_active ?s'))"
      then obtain b where "dict_get (sv_active ?s') k = Some b" by (metis dict_get_eq_None not_None_eq)
      then show "k \<in> set (keys (sv_active s))" using st in_keys unfolding steps_on_def by metis
    qed
    then have "live_ids ?s' \<subseteq> live_ids s" using st unfolding steps_on_def by (simp del: set_map) blast
    with st show ?thesis by (simp add: steps_on_def del: set_map)
  next
    case False
    then have "keeps s ?s'" by (rule loop_step_result(2)[OF ok clk I])
    then show ?thesis by (simp add: keeps_def del: set_map)
  qed
  then show "sv_settings ?s' = sv_settings s" "live_ids ?s' \<subseteq> live_ids s" "acc r (sv_trace ?s') = acc r (sv_trace s)" by blast+
qed

lemma server_step_inv:
  assumes ok: "llama_ok lib cells lm" and clk: "strict_mono clk" and st: "server_step lib clk s s'"
    and I: "server_inv lib cells lm clk s"
  shows "server_inv lib cells lm clk s'" "sv_settings s' = sv_settings s"
  using st by (cases; use loop_step_inv[OF ok clk I] loop_step_frame(1)[OF ok clk I] client_step_inv[OF ok _ I]
      client_step_frame(1)[OF ok _ I] in blast)+

section \<open>Start-up\<close>

lemma lifespan_inv:
  assumes cfg: "config_ok st" and fresh: "\<And>sid. cells ctx sid = Map.empty" and l: "lifespan lib native ctx st = Inr s"
  shows "server_inv lib cells lm clk s"
proof -
  from l obtain kv pol pc where k: "kv_init (n_ctx st) (kv_block_size st) = Inr kv"
    and pc: "(if prefix_cache_enabled st
       then res_bind (create_prefix_cache native (kv_block_size st) True) (\<lambda>c. Inr (Some c)) else Inr None) = Inr pc"
    and s: "s = \<lparr>sv_settings = st, sv_runtime = runtime_init lib ctx (n_ctx st), sv_queue = queue_init,
          sv_streams = [], sv_kv = kv, sv_policy = \<lparr>ap_policy = pol, ap_name = scheduling_policy_name st\<rparr>, sv_prefix = pc,
          sv_metrics = [MSet ''prefix_cache_backend_info'' [case pc of None \<Rightarrow> ''disabled'' | Some c \<Rightarrow> be_name c] 1],
          sv_tracer = tracer_init, sv_active = [], sv_requests = [],
          sv_free_slots = map int [0..<nat (n_seq_max st)], sv_loop = AtTop, sv_clock = 0, sv_trace = []\<rparr>"
    by (auto simp: lifespan_def res_bind_eq_Inr)
  have c: "0 < kv_block_size st" "0 < n_ctx st" using cfg by (auto simp: config_ok_def)
  note K = kv_init_inv[OF c(1) less_imp_le[OF c(2)] k]
  have "n_ctx st div kv_block_size st * kv_block_size st \<le> n_ctx st"
    using c(1) by (metis add.commute div_mult_mod_eq le_add_same_cancel2 pos_mod_sign)
  then have 1: "static_inv lib st (runtime_init lib ctx (n_ctx st)) kv"
    using cfg K c runtime_init_wf[of "n_ctx st" lib ctx] by (auto simp: static_inv_def runtime_init_def)
  have "int ` {0..<nat (n_seq_max st)} = {0..<n_seq_max st}"
    by (cases "0 \<le> n_seq_max st") (auto simp: image_iff intro!: bexI[of _ "nat _"])
  then have 2: "slots_inv [] (map int [0..<nat (n_seq_max st)]) (n_seq_max st)"
    by (simp add: slots_inv_def distinct_map)
  have 3: "prefix_inv (kv_block_size st) [] [] pc"
  proof (cases "prefix_cache_enabled st")
    case True
    with pc obtain c0 where c0: "create_prefix_cache native (kv_block_size st) True = Inr c0" "pc = Some c0"
      by (auto simp: res_bind_eq_Inr)
    have "kv_block_size st < 2 ^ 31" using cfg by (simp add: config_ok_def)
    from create_prefix_cache_rep[OF c0(1) this] c0(2) show ?thesis by (auto simp: prefix_inv_def)
  qed (use pc in \<open>simp add: prefix_inv_def\<close>)
  show ?thesis unfolding server_inv_def tick_inv_def s using 1 2 3 K(2) fresh
    by (simp add: ids_inv_def live_inv_def wait_inv_def free_inv_def holds_Nil hist_inv_def legal_Nil str_inv_def spans_inv_def
        loop_inv_def tracer_init_inv queue_init_def waiting_def runtime_init_def)
       (simp add: tracer_init_def queue_inv_def)
qed

lemma reachable_inv:
  assumes "llama_ok lib cells lm" "strict_mono clk" "server_inv lib cells lm clk s0" "reachable lib clk s0 s"
  shows "server_inv lib cells lm clk s \<and> sv_settings s = sv_settings s0"
  using assms(4)
proof (induction rule: reachable.induct)
  case (reach_step s s')
  with server_step_inv[OF assms(1,2) reach_step(2)] show ?case by simp
qed (use assms(3) in simp)

text \<open>
  A deployment: the library keeps its documented behaviour, the clock advances between two readings,
  the settings make sense, the server started on a fresh context and has reached the state \<open>s\<close>.
\<close>

definition runs :: "'m llama_lib \<Rightarrow> ('m \<Rightarrow> kv_cells) \<Rightarrow> (int list \<Rightarrow> float64 list) \<Rightarrow> (nat \<Rightarrow> float64) \<Rightarrow> 'm \<Rightarrow> settings
    \<Rightarrow> 'm server \<Rightarrow> bool" where
  "runs lib cells lm clk ctx st s \<longleftrightarrow> llama_ok lib cells lm \<and> strict_mono clk \<and> config_ok st
     \<and> (\<forall>sid. cells ctx sid = Map.empty) \<and> (\<exists>native s0. lifespan lib native ctx st = Inr s0 \<and> reachable lib clk s0 s)"

lemma runsD:
  assumes "runs lib cells lm clk ctx st s"
  shows "llama_ok lib cells lm" "strict_mono clk" "config_ok st" "server_inv lib cells lm clk s" "sv_settings s = st"
    "tick_inv lib cells lm clk clean s" "loop_inv st (sv_active s) (sv_queue s) (sv_loop s)"
proof -
  from assms obtain native s0 where r: "llama_ok lib cells lm" "strict_mono clk" "config_ok st" "\<And>sid. cells ctx sid = Map.empty"
    "lifespan lib native ctx st = Inr s0" "reachable lib clk s0 s" by (auto simp: runs_def)
  then show "llama_ok lib cells lm" "strict_mono clk" "config_ok st" by blast+
  have "sv_settings s0 = st" using r(5) by (auto simp: lifespan_def res_bind_eq_Inr)
  then show I: "server_inv lib cells lm clk s" and S: "sv_settings s = st"
    using reachable_inv[OF r(1,2) lifespan_inv[where cells = cells and ctx = ctx, OF r(3) r(4) r(5)] r(6)] by auto
  from I S show "tick_inv lib cells lm clk clean s" "loop_inv st (sv_active s) (sv_queue s) (sv_loop s)"
    by (auto simp: server_inv_def)
qed

end
