(* ===== verification/Server_Progress.thy ===== *)
theory Server_Progress
  imports Server_Steps
begin

text \<open>
  Progress of the server. The position \<open>n_past\<close> of a running request counts the work done for it: the
  steps up to a decode call keep it, every decode call raises it, and the reservation bounds it. So a
  running request leaves after a bounded number of resumptions of the loop, whatever the clients do in
  between (\<open>run_closes\<close>), and the loop alone empties the server (\<open>loop_drains\<close>).
\<close>

section \<open>A running request leaves\<close>

definition awaits_decode :: "'m server \<Rightarrow> int" where
  "awaits_decode s = (case sv_loop s of AwaitDecode _ _ \<Rightarrow> 1 | _ \<Rightarrow> 0)"

definition position :: "string \<Rightarrow> 'm server \<Rightarrow> int option" where
  "position rid s = map_option (\<lambda>sq. 2 * n_past sq + awaits_decode s) (dict_get (sv_active s) rid)"

lemma awaits_decode_eq: "awaits_decode s = (if \<exists>rows t. sv_loop s = AwaitDecode rows t then 1 else 0)"
  by (auto simp: awaits_decode_def split: loop_state.splits)

lemma active_decodes:
  assumes "server_inv lib cells lm clk s" "sv_active s = []"
  shows "\<not> (\<exists>rows t. sv_loop s = AwaitDecode rows t)"
  using assms by (auto simp: server_inv_def loop_inv_def build_batch_def)

lemma loop_step_position:
  assumes ok: "llama_ok lib cells lm" and clk: "strict_mono clk" and I: "server_inv lib cells lm clk s"
    and n: "0 < n_seq_max (sv_settings s)" and q: "position rid s = Some q"
  shows "rid \<notin> live_ids (loop_step lib clk s) \<or> (\<exists>q'. position rid (loop_step lib clk s) = Some q' \<and> q < q')"
proof -
  let ?s' = "loop_step lib clk s"
  from q obtain sq where sq: "dict_get (sv_active s) rid = Some sq" "q = 2 * n_past sq + awaits_decode s"
    by (auto simp: position_def)
  have ra: "rid \<in> set (keys (sv_active s))" by (rule in_keys[OF sq(1)])
  have rq: "rid \<notin> queued_ids (sv_queue s)" using I ra unfolding server_inv_def tick_inv_def ids_inv_def by blast
  show ?thesis
  proof (cases "\<exists>rows t. sv_loop s = AwaitDecode rows t")
    case True
    then have st: "steps_on s ?s'" "sv_loop ?s' = AtTop" using loop_step_result(4)[OF ok clk I] by blast+
    show ?thesis
    proof (cases "dict_get (sv_active ?s') rid")
      case None
      then have "rid \<notin> set (keys (sv_active ?s'))" by (metis dict_get_eq_None)
      moreover have "sv_queue ?s' = sv_queue s" using st(1) unfolding steps_on_def by blast
      ultimately show ?thesis using rq by (simp del: set_map)
    next
      case (Some b)
      then have "n_past sq < n_past b" using st(1) sq(1) unfolding steps_on_def by (metis option.inject)
      with Some st(2) True show ?thesis unfolding sq(2) by (simp add: position_def awaits_decode_eq)
    qed
  next
    case False
    then have k: "keeps s ?s'" by (rule loop_step_result(2)[OF ok clk I])
    then have g: "dict_get (sv_active ?s') rid = Some sq" using sq(1) unfolding keeps_def by blast
    then have "live_ids ?s' \<noteq> {}" using in_keys by fastforce
    then have "\<exists>rows t. sv_loop ?s' = AwaitDecode rows t" using loop_step_result(3)[OF ok clk I False n] by blast
    with g False show ?thesis unfolding sq(2) by (simp add: position_def awaits_decode_eq)
  qed
qed

lemma run_count_position:
  assumes ok: "llama_ok lib cells lm" and clk: "strict_mono clk" and r: "run_count lib clk k s s'"
    and I: "server_inv lib cells lm clk s" and n: "0 < n_seq_max (sv_settings s)" and q: "position rid s = Some q"
  shows "server_inv lib cells lm clk s' \<and> sv_settings s' = sv_settings s \<and> (\<forall>v. acc rid (sv_trace s) = Some v \<longrightarrow> acc rid (sv_trace s') = Some v)
     \<and> (rid \<notin> live_ids s' \<or> (\<exists>q'. position rid s' = Some q' \<and> q + int k \<le> q'))"
  using r I n q
proof (induction rule: run_count.induct)
  case (rc_start s)
  then show ?case by simp
next
  case (rc_loop k s t)
  let ?t' = "loop_step lib clk t"
  have IH: "server_inv lib cells lm clk t" "sv_settings t = sv_settings s" "\<forall>v. acc rid (sv_trace s) = Some v \<longrightarrow> acc rid (sv_trace t) = Some v"
    "rid \<notin> live_ids t \<or> (\<exists>q'. position rid t = Some q' \<and> q + int k \<le> q')" using rc_loop.IH[OF rc_loop.prems] by blast+
  note F = loop_step_frame[OF ok clk IH(1)]
  have "rid \<notin> live_ids ?t' \<or> (\<exists>q'. position rid ?t' = Some q' \<and> q + int (Suc k) \<le> q')"
    using IH(4)
  proof
    assume "rid \<notin> live_ids t"
    with F(2) show ?thesis by blast
  next
    assume "\<exists>q'. position rid t = Some q' \<and> q + int k \<le> q'"
    then obtain q' where q': "position rid t = Some q'" "q + int k \<le> q'" by blast
    with loop_step_position[OF ok clk IH(1) _ q'(1)] rc_loop.prems(2) IH(2) show ?thesis by fastforce
  qed
  with loop_step_inv[OF ok clk IH(1)] F IH show ?case by auto
next
  case (rc_client k s t u)
  have IH: "server_inv lib cells lm clk t" "sv_settings t = sv_settings s" "\<forall>v. acc rid (sv_trace s) = Some v \<longrightarrow> acc rid (sv_trace t) = Some v"
    "rid \<notin> live_ids t \<or> (\<exists>q'. position rid t = Some q' \<and> q + int k \<le> q')" using rc_client.IH[OF rc_client.prems] by blast+
  note F = client_step_frame[OF ok rc_client.hyps(2) IH(1)]
  have pos: "position rid u = position rid t" using F(2,3) by (simp add: position_def awaits_decode_def)
  have acc': "acc rid (sv_trace t) = Some v \<Longrightarrow> acc rid (sv_trace u) = Some v" for v using F(4) acc_old by metis
  have "rid \<in> live_ids s"
    using rc_client.prems(3) in_keys[of "sv_active s" rid] by (auto simp: position_def)
  then obtain v where "acc rid (sv_trace s) = Some v"
    using rc_client.prems(1) unfolding server_inv_def tick_inv_def hist_inv_def by blast
  then have "rid \<in> accepted_ids (sv_trace t)" using IH(3) acc_accepted by (metis option.distinct(1))
  then have "rid \<in> live_ids u \<Longrightarrow> rid \<in> live_ids t" by (rule F(5))
  with IH pos acc' F(1) client_step_inv[OF ok rc_client.hyps(2) IH(1)] show ?case by auto
qed

lemma position_bound:
  assumes I: "server_inv lib cells lm clk s" and a: "acc rid (sv_trace s) = Some (p, m)" and q: "position rid s = Some q"
  shows "0 \<le> q" "q < 2 * (int (length p) + m)"
proof -
  from q obtain sq where sq: "dict_get (sv_active s) rid = Some sq" "q = 2 * n_past sq + awaits_decode s"
    by (auto simp: position_def)
  have T: "tick_inv lib cells lm clk clean s" using I by (simp add: server_inv_def)
  note D = tick_invD[OF T]
  obtain st where "dict_get (sv_requests s) rid = Some st" using keys_eq_get[OF _ sq(1)] D(2) unfolding ids_inv_def by blast
  with D(4) sq(1) have "live_req clean (cells (rt_ctx (sv_runtime s))) clk (sv_clock s) (sv_trace s) (block_table (sv_kv s))
      (kv_block_size (sv_settings s)) rid sq st" by (simp add: live_inv_def)
  then have "0 \<le> n_past sq" "n_past sq \<le> int (length p) + int (length (toks rid (sv_trace s)))"
    using a by (auto simp: live_req_def)
  moreover have "int (length (toks rid (sv_trace s))) < m" using D(8) a unfolding hist_inv_def by blast
  ultimately show "0 \<le> q" "q < 2 * (int (length p) + m)" unfolding sq(2) awaits_decode_eq by auto
qed

lemma closed_if_not_live:
  assumes "server_inv lib cells lm clk s" "acc rid (sv_trace s) = Some (p, m)" "rid \<notin> live_ids s"
  shows "\<exists>why. Closed rid why \<in> set (sv_trace s)"
  using assms unfolding server_inv_def tick_inv_def hist_inv_def by blast

lemma run_closes:
  assumes ok: "llama_ok lib cells lm" and clk: "strict_mono clk" and r: "run_count lib clk k s s'"
    and I: "server_inv lib cells lm clk s" and n: "0 < n_seq_max (sv_settings s)"
    and a: "acc rid (sv_trace s) = Some (p, m)" and live: "rid \<in> set (keys (sv_active s))"
    and k: "2 * (int (length p) + m) \<le> int k"
  shows "server_inv lib cells lm clk s'" "rid \<notin> live_ids s'" "\<exists>why. Closed rid why \<in> set (sv_trace s')"
proof -
  obtain sq where "dict_get (sv_active s) rid = Some sq" using live by (metis dict_get_eq_None not_None_eq)
  then obtain q where q: "position rid s = Some q" by (simp add: position_def)
  note R = run_count_position[OF ok clk r I n q]
  have I': "server_inv lib cells lm clk s'" and a': "acc rid (sv_trace s') = Some (p, m)" using R a by blast+
  show "server_inv lib cells lm clk s'" by (rule I')
  show nl: "rid \<notin> live_ids s'"
    using R position_bound[OF I a q] position_bound(2)[OF I' a'] k by fastforce
  show "\<exists>why. Closed rid why \<in> set (sv_trace s')" by (rule closed_if_not_live[OF I' a' nl])
qed

section \<open>The loop alone empties the server\<close>

lemma loop_steps_inv:
  assumes ok: "llama_ok lib cells lm" and clk: "strict_mono clk" and I: "server_inv lib cells lm clk s"
  shows "run_count lib clk k s ((loop_step lib clk ^^ k) s) \<and> server_inv lib cells lm clk ((loop_step lib clk ^^ k) s)
     \<and> sv_settings ((loop_step lib clk ^^ k) s) = sv_settings s \<and> live_ids ((loop_step lib clk ^^ k) s) \<subseteq> live_ids s
     \<and> (\<forall>r. acc r (sv_trace ((loop_step lib clk ^^ k) s)) = acc r (sv_trace s))"
proof (induction k)
  case (Suc k)
  let ?t = "(loop_step lib clk ^^ k) s"
  have It: "server_inv lib cells lm clk ?t" using Suc by blast
  from Suc loop_step_inv[OF ok clk It] loop_step_frame[OF ok clk It] rc_loop[of lib clk k s ?t] show ?case
    by (auto simp del: set_map)
qed (simp_all add: rc_start I)

lemma loop_drains:
  assumes ok: "llama_ok lib cells lm" and clk: "strict_mono clk" and I: "server_inv lib cells lm clk s" and n: "0 < n_seq_max (sv_settings s)"
  shows "\<exists>k. live_ids ((loop_step lib clk ^^ k) s) = {}"
  using I n
proof (induction "card (live_ids s)" arbitrary: s rule: less_induct)
  case less
  have shrink: ?case if A: "sv_active t \<noteq> []" and t: "t = (loop_step lib clk ^^ j) s" for t j
  proof -
    note T = loop_steps_inv[OF ok clk less.prems(1), of j, folded t]
    obtain rid sq d where "sv_active t = (rid, sq) # d" using A by (metis neq_Nil_conv surj_pair)
    then have rk: "rid \<in> set (keys (sv_active t))" by simp
    then obtain p m where a: "acc rid (sv_trace t) = Some (p, m)"
      using T unfolding server_inv_def tick_inv_def hist_inv_def by fastforce
    let ?k = "nat (2 * (int (length p) + m))"
    let ?u = "(loop_step lib clk ^^ ?k) t"
    have It: "server_inv lib cells lm clk t" and nt: "0 < n_seq_max (sv_settings t)" using T less.prems(2) by auto
    note U = loop_steps_inv[OF ok clk It, of ?k]
    have "rid \<notin> live_ids ?u" by (rule run_closes(2)[OF ok clk _ It nt a rk]) (use U in auto)
    moreover have "rid \<in> live_ids s" "live_ids ?u \<subseteq> live_ids s" using rk T U by blast+
    ultimately have "live_ids ?u \<subset> live_ids s" by blast
    then have "card (live_ids ?u) < card (live_ids s)" by (intro psubset_card_mono) simp_all
    moreover have "server_inv lib cells lm clk ?u" "0 < n_seq_max (sv_settings ?u)" using U nt by auto
    ultimately obtain k where "live_ids ((loop_step lib clk ^^ k) ?u) = {}" using less.hyps by blast
    then show ?case unfolding t by (intro exI[of _ "k + (?k + j)"]) (simp add: funpow_add)
  qed
  show ?case
  proof (cases "sv_active s = []")
    case False
    then show ?thesis by (intro shrink[of s 0]) simp_all
  next
    case True
    let ?t = "loop_step lib clk s"
    have "(\<exists>rows t. sv_loop ?t = AwaitDecode rows t) \<or> live_ids ?t = {}"
      by (rule loop_step_result(3)[OF ok clk less.prems(1) active_decodes[OF less.prems(1) True] less.prems(2)])
    then show ?thesis
    proof
      assume "live_ids ?t = {}"
      then show ?thesis by (intro exI[of _ 1]) simp
    next
      assume "\<exists>rows t. sv_loop ?t = AwaitDecode rows t"
      then have "sv_active ?t \<noteq> []" using active_decodes[OF loop_step_inv[OF ok clk less.prems(1)]] by blast
      then show ?thesis by (intro shrink[of ?t 1]) simp_all
    qed
  qed
qed

end
