(* ===== verification/Server_Demo.thy ===== *)
theory Server_Demo
  imports Server_Progress
begin

text \<open>
  A small deployment on the simulated library, used to show that the hypotheses of the theorems about
  the server can hold. One request goes through the whole server: accepted (\<open>demo_queued\<close>), admitted to
  a slot (\<open>demo_active\<close>), one token streamed (\<open>demo_first\<close>), the next batch prepared (\<open>demo_second\<close>), the
  end token sampled and the stream closed (\<open>demo_done\<close>), the answer read to its end (\<open>demo_read\<close>). Every
  step is evaluated by the simplifier.
\<close>

section \<open>The deployment\<close>

text \<open>A model that answers token 3 until the history has six tokens, and then the end token 2.\<close>

definition chat_lm :: "int list \<Rightarrow> float64 list" where
  "chat_lm h = (if length h < 6 then [0, 0, 0, 1] else [0, 0, 1, 0])"

definition demo_lib :: "sim_context llama_lib" where
  "demo_lib = sim_llama chat_lm (\<lambda>_. 0)"

definition demo_clk :: "nat \<Rightarrow> float64" where
  "demo_clk n = of_nat n"

definition demo_settings :: settings where
  "demo_settings = (default_settings ''demo.gguf'')\<lparr>n_ctx := 16, n_seq_max := 2, kv_block_size := 4, chunk_size := 8,
     scheduling_policy_name := ''fifo''\<rparr>"

definition demo_request :: generate_request where
  "demo_request = (default_generate_request [72, 105, 33, 33])\<lparr>gr_max_tokens := 6\<rparr>"

definition demo_pending :: pending_request where
  "demo_pending = \<lparr>req_id = ''r'', prompt_tokens = [1, 72, 105, 33, 33], max_tokens = 6, priority = 1, arrival_ts = 0\<rparr>"

definition demo_cache :: py_cache where
  "demo_cache = projr (pc_init 4)"

definition demo_claimed :: py_cache where
  "demo_claimed = snd (pc_insert [1, 72, 105, 33, 33] 1 demo_cache)"

definition demo_rows :: prepared_batch where
  "demo_rows =
     [\<lparr>row_seq_id = 1, row_token = 1, row_pos = 0, needs_logits = False\<rparr>,
      \<lparr>row_seq_id = 1, row_token = 72, row_pos = 1, needs_logits = False\<rparr>,
      \<lparr>row_seq_id = 1, row_token = 105, row_pos = 2, needs_logits = False\<rparr>,
      \<lparr>row_seq_id = 1, row_token = 33, row_pos = 3, needs_logits = False\<rparr>,
      \<lparr>row_seq_id = 1, row_token = 33, row_pos = 4, needs_logits = True\<rparr>]"

definition demo_started :: "sim_context server" where
  "demo_started = projr (lifespan demo_lib None sim_context_init demo_settings)"

definition demo_queued :: "sim_context server" where
  "demo_queued = snd (generate demo_lib demo_clk ''r'' demo_request demo_started)"

definition demo_active :: "sim_context server" where
  "demo_active = loop_step demo_lib demo_clk demo_queued"

definition demo_first :: "sim_context server" where
  "demo_first = loop_step demo_lib demo_clk demo_active"

definition demo_second :: "sim_context server" where
  "demo_second = loop_step demo_lib demo_clk demo_first"

definition demo_done :: "sim_context server" where
  "demo_done = loop_step demo_lib demo_clk demo_second"

definition demo_read :: "sim_context server" where
  "demo_read = consume ''r'' (consume ''r'' demo_done)"

abbreviation demo_runs :: "sim_context server \<Rightarrow> bool" where
  "demo_runs \<equiv> runs demo_lib sim_cells chat_lm demo_clk sim_context_init demo_settings"

section \<open>Start-up\<close>

lemma demo_lib_ok: "llama_ok demo_lib sim_cells chat_lm"
  unfolding demo_lib_def by (rule sim_llama_ok) (simp add: chat_lm_def)

lemma demo_clk_mono: "strict_mono demo_clk"
  by (simp add: strict_mono_def demo_clk_def)

lemma demo_settings_fields:
  "n_ctx demo_settings = 16" "n_seq_max demo_settings = 2" "kv_block_size demo_settings = 4" "chunk_size demo_settings = 8"
  "max_queue_depth demo_settings = 128" "queue_timeout_seconds demo_settings = 30"
  "generation_timeout_seconds demo_settings = 120" "scheduling_policy_name demo_settings = ''fifo''"
  "prefix_cache_enabled demo_settings = True"
  by (simp_all add: demo_settings_def default_settings_def)

lemma demo_config: "config_ok demo_settings"
  by (simp add: config_ok_def demo_settings_fields)

lemma demo_lib_fields:
  "lib_decode demo_lib = sim_decode chat_lm (\<lambda>_. 0)" "lib_logits_ith demo_lib = (\<lambda>m i. sim_logits m ! i)"
  "lib_token_eos demo_lib = 2" "lib_detokenize demo_lib ts = map (\<lambda>t. nat (t mod 256)) ts"
  "lib_seq_rm demo_lib s a b m = m\<lparr>sim_kv := filter (\<lambda>((s', p), t). s' \<noteq> s \<or> 0 \<le> a \<and> p < a \<or> 0 \<le> b \<and> b \<le> p) (sim_kv m)\<rparr>"
  by (simp_all add: demo_lib_def sim_llama_def)

lemma demo_cache_init: "pc_init 4 = Inr demo_cache"
  by (simp add: demo_cache_def pc_init_def)

lemma demo_cache_fields: "pc_block_size demo_cache = 4" "\<not> is_hit (match_for_reuse pc_match 4 t demo_cache)"
proof -
  show b: "pc_block_size demo_cache = 4" by (rule pc_init_rep(2)[OF demo_cache_init])
  show "\<not> is_hit (match_for_reuse pc_match 4 t demo_cache)"
    using pc.reuse_sound[OF pc_init_rep(1)[OF demo_cache_init], of t] unfolding b by auto
qed

lemma demo_lifespan:
  "lifespan demo_lib None sim_context_init demo_settings = Inr demo_started"
  and demo_started_eq:
  "demo_started = \<lparr>sv_settings = demo_settings, sv_runtime = runtime_init demo_lib sim_context_init 16, sv_queue = queue_init,
     sv_streams = [], sv_kv = \<lparr>block_size = 4, total_blocks_f = 4, free_blocks = 4, block_table = []\<rparr>,
     sv_policy = \<lparr>ap_policy = FIFOPolicy, ap_name = ''fifo''\<rparr>, sv_prefix = Some (Python demo_cache),
     sv_metrics = [MSet ''prefix_cache_backend_info'' [''python''] 1], sv_tracer = tracer_init, sv_active = [],
     sv_requests = [], sv_free_slots = [0, 1], sv_loop = AtTop, sv_clock = 0, sv_trace = []\<rparr>"
  by (simp_all add: demo_started_def lifespan_def demo_settings_fields kv_init_def create_policy_def demo_cache_init
      create_prefix_cache_def native_init_def numeral_2_eq_2 upt_rec)

lemma runs_step:
  assumes "runs lib cells lm clk ctx st s" "server_step lib clk s s'"
  shows "runs lib cells lm clk ctx st s'"
  using assms reach_step unfolding runs_def by blast

lemma demo_started_runs: "demo_runs demo_started"
proof -
  have "sim_cells sim_context_init sid = Map.empty" for sid by (simp add: sim_cells_def sim_context_init_def fun_eq_iff)
  then show ?thesis unfolding runs_def using demo_lib_ok demo_clk_mono demo_config demo_lifespan reach_init by blast
qed

section \<open>The request arrives\<close>

lemma demo_request_fields:
  "generate_request_valid demo_request" "gr_max_tokens demo_request = 6" "gr_priority demo_request = 1"
  "gr_stream demo_request = False" "tokenize demo_lib (gr_prompt demo_request) = Inr [1, 72, 105, 33, 33]"
  by (simp_all add: demo_request_def default_generate_request_def generate_request_valid_def tokenize_def demo_lib_def
      sim_llama_def scalar_def utf8_encode_def utf8_char_def)

lemmas demo_generate_eval = demo_started_eq generate_def generate_body_def demo_request_fields run_admission_span run_call
  admit_request_def reserve_def enqueue_def push_def demo_settings_fields queue_init_def queue_depth_def stream_create_def
  Let_def demo_clk_def demo_pending_def

lemma demo_queued_fields:
  "sv_settings demo_queued = demo_settings" "sv_runtime demo_queued = runtime_init demo_lib sim_context_init 16"
  "sv_queue demo_queued = \<lparr>waiting_d = [(''r'', demo_pending)], arrived = True\<rparr>" "sv_streams demo_queued = [(''r'', new_stream)]"
  "sv_kv demo_queued = \<lparr>block_size = 4, total_blocks_f = 4, free_blocks = 1, block_table = [(''r'', 3)]\<rparr>"
  "sv_policy demo_queued = \<lparr>ap_policy = FIFOPolicy, ap_name = ''fifo''\<rparr>" "sv_prefix demo_queued = Some (Python demo_cache)"
  "sv_active demo_queued = []" "sv_requests demo_queued = []" "sv_free_slots demo_queued = [0, 1]" "sv_loop demo_queued = AtTop"
  "sv_clock demo_queued = 1" "sv_trace demo_queued = [Accepted ''r'' [1, 72, 105, 33, 33] 6]"
  and demo_generate: "fst (generate demo_lib demo_clk ''r'' demo_request demo_started) = CollectedBody ''r''"
proof -
  have need: "blocks_needed kv 11 = Inr 3" if "block_size kv = 4" for kv
    using that by (simp add: blocks_needed_cover cover_def)
  show "sv_settings demo_queued = demo_settings" "sv_runtime demo_queued = runtime_init demo_lib sim_context_init 16"
    "sv_queue demo_queued = \<lparr>waiting_d = [(''r'', demo_pending)], arrived = True\<rparr>" "sv_streams demo_queued = [(''r'', new_stream)]"
    "sv_kv demo_queued = \<lparr>block_size = 4, total_blocks_f = 4, free_blocks = 1, block_table = [(''r'', 3)]\<rparr>"
    "sv_policy demo_queued = \<lparr>ap_policy = FIFOPolicy, ap_name = ''fifo''\<rparr>" "sv_prefix demo_queued = Some (Python demo_cache)"
    "sv_active demo_queued = []" "sv_requests demo_queued = []" "sv_free_slots demo_queued = [0, 1]" "sv_loop demo_queued = AtTop"
    "sv_clock demo_queued = 1" "sv_trace demo_queued = [Accepted ''r'' [1, 72, 105, 33, 33] 6]"
    "fst (generate demo_lib demo_clk ''r'' demo_request demo_started) = CollectedBody ''r''"
    by (simp_all add: demo_queued_def demo_generate_eval need)
qed

text \<open>The state does not depend on how the answer is returned.\<close>

lemma demo_generate_streaming:
  "generate demo_lib demo_clk ''r'' (demo_request\<lparr>gr_stream := True\<rparr>) demo_started = (StreamingBody ''r'', demo_queued)"
proof -
  have need: "blocks_needed kv 11 = Inr 3" if "block_size kv = 4" for kv
    using that by (simp add: blocks_needed_cover cover_def)
  have "generate_request_valid (demo_request\<lparr>gr_stream := True\<rparr>)"
    using demo_request_fields(1) by (simp add: generate_request_valid_def)
  then show ?thesis unfolding demo_queued_def by (simp add: demo_generate_eval need)
qed

lemma demo_queued_runs: "demo_runs demo_queued"
proof (rule runs_step[OF demo_started_runs step_client[OF step_generate]])
  show "''r'' \<notin> accepted_ids (sv_trace demo_started)" by (simp add: accepted_ids_def demo_started_eq)
  show "generate demo_lib demo_clk ''r'' demo_request demo_started = (CollectedBody ''r'', demo_queued)"
    by (simp add: prod_eq_iff demo_generate demo_queued_def)
qed

section \<open>The request is admitted\<close>

lemma fl_small: "fl 1 = 1" "(numeral k :: int) \<le> 2 ^ 53 \<Longrightarrow> fl (numeral k) = numeral k"
  using fl_of_int[of 1] fl_of_int[of "numeral k"] by simp_all

lemma event_ok_prefill: "event_ok (MInc ''prefill_tokens_total'' [] (numeral k))"
  using event_oks(15)[of "numeral k"] by simp

lemma demo_rows_facts: "length demo_rows = 5" "map row_seq_id demo_rows = [1, 1, 1, 1, 1]" "row_count demo_rows 1 = 5"
  by (simp_all add: demo_rows_def row_count_def)

lemmas demo_top_eval = loop_step_def run_loop_def loop_top_def expire_stale_waiters_def waiting_def expire_waiter_def
  demo_settings_fields demo_clk_def fsub_def fl_small queue_depth_def start_tick_def set_gauges_def schedule_def run_policy_def
  bnd_def[of run_policy] select_def fifo_select_def admit_chosen_def remove_waiting_def queue_remove_def dict_pop_def admit_def
  bnd_def[of "remove_waiting x" for x] bnd_def[of pop_slot] pop_slot_def claim_prefix_def publish_prefix_def Let_def
  demo_cache_fields batch_capacity_def build_batch_def slice_rows_def event_ok_prefill demo_pending_def

lemma demo_active_fields:
  "sv_active demo_active = [(''r'', \<lparr>seq_id = 1, pending_tokens = [1, 72, 105, 33, 33], n_past = 0\<rparr>)]"
  "sv_requests demo_active = [(''r'', \<lparr>rs_seq_id = 1, remaining_tokens = 6, rs_arrival_ts = 0, admitted_ts = 2,
     tokens_emitted = 0, last_token_ts = None\<rparr>)]"
  "sv_settings demo_active = demo_settings" "sv_runtime demo_active = runtime_init demo_lib sim_context_init 16"
  "sv_queue demo_active = \<lparr>waiting_d = [], arrived = True\<rparr>" "sv_streams demo_active = [(''r'', new_stream)]"
  "sv_kv demo_active = \<lparr>block_size = 4, total_blocks_f = 4, free_blocks = 1, block_table = [(''r'', 3)]\<rparr>"
  "sv_policy demo_active = \<lparr>ap_policy = FIFOPolicy, ap_name = ''fifo''\<rparr>" "sv_prefix demo_active = Some (Python demo_claimed)"
  "sv_free_slots demo_active = [0]" "sv_loop demo_active = AwaitDecode demo_rows 3" "sv_clock demo_active = 4"
  "sv_trace demo_active = [Accepted ''r'' [1, 72, 105, 33, 33] 6]"
  by (simp_all add: demo_active_def demo_queued_fields demo_top_eval runtime_init_def demo_claimed_def demo_rows_def numeral_eq_Suc)

lemma demo_active_runs: "demo_runs demo_active"
  unfolding demo_active_def by (rule runs_step[OF demo_queued_runs step_loop])

section \<open>The first token\<close>

lemma chat_answer: "argmax (chat_lm (history_of c s p)) = Inr (if p < 5 then 3 else 2)"
  by (auto simp: chat_lm_def history_of_def argmax_def)

lemma demo_decode:
  assumes "runtime_wf rt" "int (length rows) \<le> rt_capacity rt"
  obtains b where "decode demo_lib rows rt = (sample_rows demo_lib (snd (sim_decode chat_lm (\<lambda>_. 0) b (rt_ctx rt))) 0 rows [],
     rt\<lparr>rt_batch := b, rt_ctx := snd (sim_decode chat_lm (\<lambda>_. 0) b (rt_ctx rt))\<rparr>)" "batch_rows b = rows"
proof -
  obtain b where b: "write_rows 0 rows ((rt_batch rt)\<lparr>b_n_tokens := length rows\<rparr>) = Inr b" "batch_rows b = rows"
    using staged_rows[OF assms] by blast
  then show thesis by (intro that[of b]) (simp_all add: decode_def demo_lib_fields sim_decode_def Let_def)
qed

lemma demo_prefill:
  assumes "runtime_wf rt" "rt_capacity rt = 16" "rt_ctx rt = sim_context_init"
  obtains b c where "decode demo_lib demo_rows rt = (Inr [(1, 3)], rt\<lparr>rt_batch := b, rt_ctx := c\<rparr>)"
proof -
  have "int (length demo_rows) \<le> rt_capacity rt" using assms by (simp add: demo_rows_def)
  from demo_decode[OF assms(1) this] obtain b where b:
    "decode demo_lib demo_rows rt = (sample_rows demo_lib (snd (sim_decode chat_lm (\<lambda>_. 0) b (rt_ctx rt))) 0 demo_rows [],
     rt\<lparr>rt_batch := b, rt_ctx := snd (sim_decode chat_lm (\<lambda>_. 0) b (rt_ctx rt))\<rparr>)" "batch_rows b = demo_rows" by blast
  moreover have "sample_rows demo_lib (snd (sim_decode chat_lm (\<lambda>_. 0) b (rt_ctx rt))) 0 demo_rows [] = Inr [(1, 3)]"
    by (simp add: sim_decode_def Let_def b(2) demo_lib_fields assms(3) sample_greedy_def chat_answer demo_rows_def)
  ultimately show thesis by (intro that) simp
qed

lemma demo_step:
  assumes "runtime_wf rt" "rt_capacity rt = 16"
  obtains b c where "decode demo_lib [\<lparr>row_seq_id = 1, row_token = 3, row_pos = 5, needs_logits = True\<rparr>] rt
     = (Inr [(1, 2)], rt\<lparr>rt_batch := b, rt_ctx := c\<rparr>)"
proof -
  let ?rows = "[\<lparr>row_seq_id = 1, row_token = 3, row_pos = 5, needs_logits = True\<rparr>]"
  have "int (length ?rows) \<le> rt_capacity rt" using assms by simp
  from demo_decode[OF assms(1) this] obtain b where b:
    "decode demo_lib ?rows rt = (sample_rows demo_lib (snd (sim_decode chat_lm (\<lambda>_. 0) b (rt_ctx rt))) 0 ?rows [],
     rt\<lparr>rt_batch := b, rt_ctx := snd (sim_decode chat_lm (\<lambda>_. 0) b (rt_ctx rt))\<rparr>)" "batch_rows b = ?rows" by blast
  moreover have "sample_rows demo_lib (snd (sim_decode chat_lm (\<lambda>_. 0) b (rt_ctx rt))) 0 ?rows [] = Inr [(1, 2)]"
    by (simp add: sim_decode_def Let_def b(2) demo_lib_fields sample_greedy_def chat_answer)
  ultimately show thesis by (intro that) simp
qed

lemma utf8_3: "utf8_decode f [3] = ([3], [])"
  using utf8_roundtrip[of "[3]" f] by (simp add: utf8_encode_def utf8_char_def scalar_def)

lemmas demo_decode_eval = loop_step_def run_loop_def loop_decoded_def run_call after_decode_def Let_def demo_settings_fields
  demo_clk_def fsub_def fl_small batch_capacity_def run_asks fdiv_def advance_seq_def dict_item_def handle_token_def
  is_cancelled_def new_stream_def push_sampled_def push_token_def push_stream_def decoder_decode_def put_nowait_def utf8_3
  detokenize_def demo_lib_fields asks_def demo_rows_facts

lemma demo_first_fields:
  "sv_active demo_first = [(''r'', \<lparr>seq_id = 1, pending_tokens = [3], n_past = 5\<rparr>)]"
  "sv_requests demo_first = [(''r'', \<lparr>rs_seq_id = 1, remaining_tokens = 5, rs_arrival_ts = 0, admitted_ts = 2,
     tokens_emitted = 1, last_token_ts = Some 5\<rparr>)]"
  "sv_settings demo_first = demo_settings" "sv_queue demo_first = \<lparr>waiting_d = [], arrived = True\<rparr>"
  "sv_streams demo_first = [(''r'', \<lparr>out_queue = [Text [3]], decoder_buffer = [], cancelled = False\<rparr>)]"
  "sv_kv demo_first = \<lparr>block_size = 4, total_blocks_f = 4, free_blocks = 1, block_table = [(''r'', 3)]\<rparr>"
  "sv_policy demo_first = \<lparr>ap_policy = FIFOPolicy, ap_name = ''fifo''\<rparr>" "sv_prefix demo_first = Some (Python demo_claimed)"
  "sv_free_slots demo_first = [0]" "sv_loop demo_first = AtTop" "sv_clock demo_first = 6"
  "sv_trace demo_first = [Accepted ''r'' [1, 72, 105, 33, 33] 6, TokenPushed ''r'' 3]"
  "rt_capacity (sv_runtime demo_first) = 16" "rt_eos (sv_runtime demo_first) = 2"
proof -
  have rt: "runtime_wf (sv_runtime demo_active)" "rt_capacity (sv_runtime demo_active) = 16"
    "rt_ctx (sv_runtime demo_active) = sim_context_init" "rt_eos (sv_runtime demo_active) = 2"
    by (simp_all add: demo_active_fields runtime_init_wf) (simp_all add: runtime_init_def demo_lib_fields)
  obtain b c where d: "decode demo_lib demo_rows (sv_runtime demo_active) = (Inr [(1, 3)], (sv_runtime demo_active)\<lparr>rt_batch := b, rt_ctx := c\<rparr>)"
    by (rule demo_prefill[OF rt(1-3)])
  note E = demo_first_def demo_decode_eval demo_active_fields(1-3,5-) d rt
  show "sv_active demo_first = [(''r'', \<lparr>seq_id = 1, pending_tokens = [3], n_past = 5\<rparr>)]"
    "sv_requests demo_first = [(''r'', \<lparr>rs_seq_id = 1, remaining_tokens = 5, rs_arrival_ts = 0, admitted_ts = 2,
       tokens_emitted = 1, last_token_ts = Some 5\<rparr>)]"
    "sv_settings demo_first = demo_settings" "sv_queue demo_first = \<lparr>waiting_d = [], arrived = True\<rparr>"
    "sv_streams demo_first = [(''r'', \<lparr>out_queue = [Text [3]], decoder_buffer = [], cancelled = False\<rparr>)]"
    "sv_kv demo_first = \<lparr>block_size = 4, total_blocks_f = 4, free_blocks = 1, block_table = [(''r'', 3)]\<rparr>"
    "sv_policy demo_first = \<lparr>ap_policy = FIFOPolicy, ap_name = ''fifo''\<rparr>" "sv_prefix demo_first = Some (Python demo_claimed)"
    "sv_free_slots demo_first = [0]" "sv_loop demo_first = AtTop" "sv_clock demo_first = 6"
    "sv_trace demo_first = [Accepted ''r'' [1, 72, 105, 33, 33] 6, TokenPushed ''r'' 3]"
    "rt_capacity (sv_runtime demo_first) = 16" "rt_eos (sv_runtime demo_first) = 2"
    by (simp_all add: E)
qed

lemma demo_first_runs: "demo_runs demo_first"
  unfolding demo_first_def by (rule runs_step[OF demo_active_runs step_loop])

section \<open>The end of the answer\<close>

lemma demo_second_fields:
  "sv_active demo_second = sv_active demo_first" "sv_requests demo_second = sv_requests demo_first"
  "sv_settings demo_second = demo_settings" "sv_queue demo_second = sv_queue demo_first"
  "sv_streams demo_second = sv_streams demo_first" "sv_kv demo_second = sv_kv demo_first"
  "sv_policy demo_second = sv_policy demo_first" "sv_prefix demo_second = Some (Python demo_claimed)" "sv_free_slots demo_second = [0]"
  "sv_loop demo_second = AwaitDecode [\<lparr>row_seq_id = 1, row_token = 3, row_pos = 5, needs_logits = True\<rparr>] 7"
  "sv_clock demo_second = 8" "sv_trace demo_second = sv_trace demo_first" "sv_runtime demo_second = sv_runtime demo_first"
  by (simp_all add: demo_second_def demo_first_fields demo_top_eval numeral_eq_Suc)

lemma demo_second_runs: "demo_runs demo_second"
  unfolding demo_second_def by (rule runs_step[OF demo_first_runs step_loop])

lemma demo_second_gauge: "gauge_value ''kv_blocks_used'' (sv_metrics demo_second) = Some 3"
  and demo_second_depth: "gauge_value ''queue_depth'' (sv_metrics demo_second) = Some 0"
  by (simp_all add: gauge_value_def demo_second_def demo_first_fields demo_top_eval total_blocks_def available_blocks_def numeral_eq_Suc)

lemma demo_done_fields:
  "sv_active demo_done = []" "sv_queue demo_done = \<lparr>waiting_d = [], arrived = True\<rparr>"
  "sv_streams demo_done = [(''r'', \<lparr>out_queue = [Text [3], EndOfStream], decoder_buffer = [], cancelled = False\<rparr>)]"
  "sv_trace demo_done = [Accepted ''r'' [1, 72, 105, 33, 33] 6, TokenPushed ''r'' 3, Closed ''r'' None]"
  "sv_loop demo_done = AtTop" "sv_settings demo_done = demo_settings"
  "sv_kv demo_done = \<lparr>block_size = 4, total_blocks_f = 4, free_blocks = 4, block_table = []\<rparr>"
  "gauge_value ''kv_blocks_used'' (sv_metrics demo_done) = Some 3"
proof -
  have "static_inv demo_lib demo_settings (sv_runtime demo_second) (sv_kv demo_second)"
    using tick_invD(1)[OF runsD(6)[OF demo_second_runs]] unfolding demo_second_fields(3) .
  then have rt: "runtime_wf (sv_runtime demo_second)" by (simp add: static_inv_def)
  obtain b c where d: "decode demo_lib [\<lparr>row_seq_id = 1, row_token = 3, row_pos = 5, needs_logits = True\<rparr>] (sv_runtime demo_second)
     = (Inr [(1, 2)], (sv_runtime demo_second)\<lparr>rt_batch := b, rt_ctx := c\<rparr>)"
    by (rule demo_step[OF rt]) (simp_all add: demo_second_fields demo_first_fields)
  note E = demo_done_def demo_decode_eval demo_second_fields(1-12) d[unfolded demo_second_fields(13)] demo_second_fields(13) demo_first_fields row_count_def
    finish_def pop_request_def dict_pop_def bnd_def[of "pop_request x" for x] evict_prefix_def bnd_def[of "pop_active x" for x] pop_active_def
    free_sequence_def stream_close_def close_stream_def
  show "sv_active demo_done = []" "sv_queue demo_done = \<lparr>waiting_d = [], arrived = True\<rparr>"
    "sv_streams demo_done = [(''r'', \<lparr>out_queue = [Text [3], EndOfStream], decoder_buffer = [], cancelled = False\<rparr>)]"
    "sv_trace demo_done = [Accepted ''r'' [1, 72, 105, 33, 33] 6, TokenPushed ''r'' 3, Closed ''r'' None]"
    "sv_loop demo_done = AtTop" "sv_settings demo_done = demo_settings"
    "sv_kv demo_done = \<lparr>block_size = 4, total_blocks_f = 4, free_blocks = 4, block_table = []\<rparr>"
    by (simp_all add: E release_def)
  show "gauge_value ''kv_blocks_used'' (sv_metrics demo_done) = Some 3"
    using demo_second_gauge by (simp add: E gauge_value_def)
qed

lemma demo_done_runs: "demo_runs demo_done"
  unfolding demo_done_def by (rule runs_step[OF demo_second_runs step_loop])

lemma demo_read_runs: "demo_runs demo_read"
  unfolding demo_read_def by (rule runs_step[OF runs_step[OF demo_done_runs step_client[OF step_consume]] step_client[OF step_consume]])

lemma demo_read_trace:
  "sv_trace demo_read = [Accepted ''r'' [1, 72, 105, 33, 33] 6, TokenPushed ''r'' 3, Closed ''r'' None, TextRead ''r'' [3], StreamEnded ''r'']"
  by (simp add: demo_read_def consume_def subscribe_step_def subscribe_exit_def demo_done_fields)

section \<open>Waking up\<close>

text \<open>The loop goes to sleep on the empty server, and then the request arrives.\<close>

definition demo_asleep :: "sim_context server" where
  "demo_asleep = loop_step demo_lib demo_clk demo_started"

definition demo_woken :: "sim_context server" where
  "demo_woken = snd (generate demo_lib demo_clk ''r'' demo_request demo_asleep)"

lemma demo_asleep_eq: "demo_asleep = demo_started\<lparr>sv_clock := 1, sv_loop := AwaitArrival\<rparr>"
  by (simp add: demo_asleep_def demo_started_eq demo_top_eval queue_init_def wait_pass_def run_call wait_check_def)

lemma demo_woken_fields:
  "sv_queue demo_woken = \<lparr>waiting_d = [(''r'', demo_pending\<lparr>arrival_ts := 1\<rparr>)], arrived = True\<rparr>" "sv_loop demo_woken = AwaitArrival"
proof -
  have need: "blocks_needed kv 11 = Inr 3" if "block_size kv = 4" for kv
    using that by (simp add: blocks_needed_cover cover_def)
  show "sv_queue demo_woken = \<lparr>waiting_d = [(''r'', demo_pending\<lparr>arrival_ts := 1\<rparr>)], arrived = True\<rparr>" "sv_loop demo_woken = AwaitArrival"
    by (simp_all add: demo_woken_def demo_asleep_eq demo_generate_eval need)
qed

lemma demo_woken_runs: "demo_runs demo_woken"
proof (rule runs_step[OF _ step_client[OF step_generate]])
  show "demo_runs demo_asleep" unfolding demo_asleep_def by (rule runs_step[OF demo_started_runs step_loop])
  show "''r'' \<notin> accepted_ids (sv_trace demo_asleep)" by (simp add: accepted_ids_def demo_asleep_eq demo_started_eq)
  show "generate demo_lib demo_clk ''r'' demo_request demo_asleep
      = (fst (generate demo_lib demo_clk ''r'' demo_request demo_asleep), demo_woken)" by (simp add: demo_woken_def)
qed

section \<open>A second prompt\<close>

text \<open>A prompt that shares the first block is offered the running request as donor.\<close>

lemma demo_claimed_hit: "is_hit (match_for_reuse pc_match (pc_block_size demo_claimed) [1, 72, 105, 33, 64] demo_claimed)"
proof -
  note R = pc_init_rep(1)[OF demo_cache_init]
  have rep: "pc_rep demo_claimed (spec_insert 4 [1, 72, 105, 33, 33] 1 [])" and b: "pc_block_size demo_claimed = 4"
    using pc.insert_rep[OF R, of "[1, 72, 105, 33, 33]" 1] pc.insert_bsize[OF R, of "[1, 72, 105, 33, 33]" 1]
    unfolding demo_claimed_def by (simp_all add: demo_cache_fields)
  have "pc_match [1, 72, 105, 33, 64] demo_claimed = spec_match 4 [1, 72, 105, 33, 64] (spec_insert 4 [1, 72, 105, 33, 33] 1 [])"
    using pc.match_rep[OF rep, of "[1, 72, 105, 33, 64]"] b by simp
  also have "\<dots> = PrefixMatch 4 1"
    by (simp add: spec_match_def spec_insert_def spec_evict_def blocks_def spec_depth_def sharing_def Let_def)
  finally show ?thesis using b by (simp add: match_for_reuse_def is_hit_def)
qed

section \<open>The gauges of an idle server\<close>

text \<open>After the answer the loop goes to sleep, with the gauges of the last tick.\<close>

definition demo_idle :: "sim_context server" where
  "demo_idle = loop_step demo_lib demo_clk demo_done"

lemma demo_idle_runs: "demo_runs demo_idle"
  unfolding demo_idle_def by (rule runs_step[OF demo_done_runs step_loop])

lemma demo_idle_fields:
  "sv_loop demo_idle = AwaitArrival" "sv_active demo_idle = []" "queue_depth (sv_queue demo_idle) = 0"
  "sv_kv demo_idle = \<lparr>block_size = 4, total_blocks_f = 4, free_blocks = 4, block_table = []\<rparr>"
  "gauge_value ''kv_blocks_used'' (sv_metrics demo_idle) = Some 3"
  using demo_done_fields(8)
  by (simp_all add: demo_idle_def demo_done_fields demo_top_eval wait_pass_def run_call wait_check_def)

end
