(* ===== verification/Server_Shutdown.thy ===== *)
theory Server_Shutdown
  imports Server_Steps
begin

text \<open>
  What clients see after \<open>lifespan_exit\<close>: the handlers and consumers go on, but the batch loop does not. No
  handler looks at the state of the loop, so a run after the shutdown is a run without loop steps, with the
  loop marked as cancelled; the invariants of the running server carry over.
\<close>

lemma generate_body_loop:
  "generate_body lib clk rid body (s\<lparr>sv_loop := l\<rparr>)
     = (case generate_body lib clk rid body s of (r, s') \<Rightarrow> (r, s'\<lparr>sv_loop := l\<rparr>))"
  by (simp add: generate_body_def bnd_def lift_def trace_op_def upd_def admission_span_def in_span_def finallyp_def
      emit_def enqueue_def monotonic_def note_event_def ret_def call_def raise_def gets_def Let_def
      split: sum.split prod.split if_splits)

lemma generate_loop:
  "generate lib clk rid body s = (r, s') \<Longrightarrow> generate lib clk rid body (s\<lparr>sv_loop := l\<rparr>) = (r, s'\<lparr>sv_loop := l\<rparr>)"
  by (auto simp: generate_def generate_body_loop split: if_splits sum.splits prod.splits)

lemma set_policy_loop:
  "set_policy name s = (r, s') \<Longrightarrow> set_policy name (s\<lparr>sv_loop := l\<rparr>) = (r, s'\<lparr>sv_loop := l\<rparr>)"
  by (auto simp: set_policy_def get_config_def Let_def split: if_splits sum.splits)

lemma client_step_loop:
  assumes "client_step lib clk s s'"
  shows "client_step lib clk (s\<lparr>sv_loop := l\<rparr>) (s'\<lparr>sv_loop := l\<rparr>)" and "sv_loop s' = sv_loop s"
proof -
  have consume: "consume rid (s\<lparr>sv_loop := l\<rparr>) = (consume rid s)\<lparr>sv_loop := l\<rparr>" for rid
    by (simp add: consume_def split: sum.split prod.split consumer.split)
  have swap: "s\<lparr>sv_streams := m, sv_loop := l\<rparr> = s\<lparr>sv_loop := l, sv_streams := m\<rparr>" for m
    by (cases s) simp
  show "client_step lib clk (s\<lparr>sv_loop := l\<rparr>) (s'\<lparr>sv_loop := l\<rparr>)" using assms
  proof cases
    case (step_generate rid body r)
    with generate_loop[OF step_generate(2), of l] show ?thesis by (intro client_step.step_generate) auto
  next
    case (step_set_policy name r)
    with set_policy_loop show ?thesis by (intro client_step.step_set_policy)
  next
    case (step_consume rid)
    with client_step.step_consume[of lib clk "s\<lparr>sv_loop := l\<rparr>" rid] show ?thesis by (simp add: consume)
  next
    case (step_disconnect rid)
    with client_step.step_disconnect[of lib clk "s\<lparr>sv_loop := l\<rparr>" rid] show ?thesis by (simp add: swap)
  next
    case (step_teardown rid)
    with client_step.step_teardown[of lib clk "s\<lparr>sv_loop := l\<rparr>" rid] show ?thesis by (simp add: swap)
  qed
  have same: "sv_loop s' = sv_loop s" if "s' = s'\<lparr>sv_loop := sv_loop s\<rparr>" by (subst that) simp
  show "sv_loop s' = sv_loop s" using assms
  proof cases
    case (step_generate rid body r)
    from generate_loop[OF this(2), of "sv_loop s"] this(2) show ?thesis by (intro same) simp
  next
    case (step_set_policy name r)
    from set_policy_loop[OF this, of "sv_loop s"] this show ?thesis by (intro same) simp
  qed (simp_all add: consume_frame)
qed

text \<open>The history only grows, and only the loop adds tokens and closings to it.\<close>

definition by_client :: "event \<Rightarrow> bool" where
  "by_client e = (case e of TokenPushed _ _ \<Rightarrow> False | Closed _ _ \<Rightarrow> False | _ \<Rightarrow> True)"

lemma by_client_events:
  assumes "list_all by_client es"
  shows "toks rid es = []" "Closed rid why \<notin> set es"
  using assms by (induction rid es rule: toks.induct) (auto simp: by_client_def)

lemma generate_body_events:
  "\<exists>es. sv_trace (snd (generate_body lib clk rid body s)) = sv_trace s @ es \<and> list_all by_client es"
  by (auto simp: generate_body_def bnd_def lift_def trace_op_def upd_def admission_span_def in_span_def finallyp_def
      emit_def enqueue_def monotonic_def note_event_def ret_def call_def raise_def gets_def by_client_def Let_def
      split: sum.split prod.split)

lemma client_step_events:
  assumes "client_step lib clk s s'"
  shows "\<exists>es. sv_trace s' = sv_trace s @ es \<and> list_all by_client es"
  using assms
proof cases
  case (step_generate rid body r)
  then show ?thesis using generate_body_events[of lib clk rid body s]
    by (auto simp: generate_def split: if_splits sum.splits prod.splits)
next
  case (step_set_policy name r)
  then show ?thesis by (auto simp: set_policy_def Let_def split: if_splits sum.splits)
next
  case (step_consume rid)
  then show ?thesis
    by (auto simp: consume_def by_client_def split: sum.splits prod.splits consumer.splits)
qed simp_all

text \<open>A run after the shutdown, seen as a run without loop steps.\<close>

lemma after_exit:
  assumes "reachable lib clk (lifespan_exit s) s'" "\<forall>e. sv_loop s \<noteq> Crashed e"
  shows "\<exists>t es. reachable lib clk s t \<and> s' = t\<lparr>sv_loop := Crashed CancelledError\<rparr>
     \<and> sv_trace t = sv_trace s @ es \<and> list_all by_client es"
  using assms(1)
proof (induction rule: reachable.induct)
  case reach_init
  have "lifespan_exit s = s\<lparr>sv_loop := Crashed CancelledError\<rparr>" using assms(2) by (auto simp: lifespan_exit_def split: loop_state.split)
  then show ?case using reachable.reach_init[of lib clk s] by (intro exI[of _ s] exI[of _ "[]"]) simp
next
  case (reach_step s1 s2)
  then obtain t es where t: "reachable lib clk s t" "s1 = t\<lparr>sv_loop := Crashed CancelledError\<rparr>"
    "sv_trace t = sv_trace s @ es" "list_all by_client es" by blast
  from reach_step(2) show ?case
  proof cases
    case step_loop
    with t show ?thesis by (intro exI[of _ t] exI[of _ es]) (simp add: loop_step_def)
  next
    case step_client
    let ?t = "s2\<lparr>sv_loop := sv_loop t\<rparr>"
    have c: "client_step lib clk t ?t" using client_step_loop(1)[OF step_client, of "sv_loop t"] t(2) by simp
    have "sv_loop s2 = Crashed CancelledError" using client_step_loop(2)[OF step_client] t(2) by simp
    then have "s2 = ?t\<lparr>sv_loop := Crashed CancelledError\<rparr>" by simp
    moreover obtain es' where "sv_trace ?t = sv_trace t @ es'" "list_all by_client es'" using client_step_events[OF c] by blast
    moreover have "reachable lib clk s ?t" using reachable.reach_step[OF t(1) server_step.step_client[OF c]] .
    ultimately show ?thesis using t(3,4) by (intro exI[of _ ?t] exI[of _ "es @ es'"]) simp
  qed
qed

lemma reachable_trans:
  assumes "reachable lib clk s0 s" "reachable lib clk s t"
  shows "reachable lib clk s0 t"
  using assms(2) by (induction rule: reachable.induct) (use assms(1) in \<open>auto intro: reachable.reach_step\<close>)

lemma runs_trans: "runs lib cells lm clk ctx st s \<Longrightarrow> reachable lib clk s t \<Longrightarrow> runs lib cells lm clk ctx st t"
  unfolding runs_def using reachable_trans by blast

end
