(* ===== verification/Server_Books.thy ===== *)
theory Server_Books
  imports Server_Steps
begin

text \<open>
  The counters tell what happened. A ledger gives a weight to every metric event and to every event of the
  history; the locale \<open>ledger\<close> asks that the weights of what the code does together never add up to less than
  nothing (a request is accepted and counted, closed with a reason and counted under it, prompt tokens are
  reused and counted among all prompt tokens). Its lemmas follow the programs of the server and show that no
  step loses weight. The interpretations at the end read off the counters.
\<close>

section \<open>Weights\<close>

definition weigh :: "(metric_event \<Rightarrow> int) \<Rightarrow> (event \<Rightarrow> int) \<Rightarrow> 'm server \<Rightarrow> int" where
  "weigh w v s = sum_list (map w (sv_metrics s)) + sum_list (map v (sv_trace s))"

definition prefix_sane :: "'m server \<Rightarrow> bool" where
  "prefix_sane s \<longleftrightarrow> (\<forall>c. sv_prefix s = Some c \<longrightarrow> 0 < be_block_size c)"

text \<open>A program that returns gains at least \<open>k\<close>.\<close>

definition gains :: "(metric_event \<Rightarrow> int) \<Rightarrow> (event \<Rightarrow> int) \<Rightarrow> int \<Rightarrow> ('m server, 'a) prog \<Rightarrow> bool" where
  "gains w v k m \<longleftrightarrow> (\<forall>s x s'. prefix_sane s \<longrightarrow> m s = (Inr x, s') \<longrightarrow> prefix_sane s' \<and> weigh w v s + k \<le> weigh w v s')"

named_theorems gain_rules

lemma gains_weaken: "gains w v a m \<Longrightarrow> b \<le> a \<Longrightarrow> gains w v b m"
  by (fastforce simp: gains_def)

lemma gains_bnd:
  assumes "gains w v a m" "\<And>x. gains w v b (n x)" "k = a + b"
  shows "gains w v k (bnd m n)"
  unfolding gains_def
proof (intro allI impI)
  fix s x s' assume s: "prefix_sane s" and r: "bnd m n s = (Inr x, s')"
  then obtain y t where t: "m s = (Inr y, t)" "n y t = (Inr x, s')" by (auto simp: bnd_def split: prod.splits sum.splits)
  from assms(1) s t(1) have "prefix_sane t \<and> weigh w v s + a \<le> weigh w v t" by (auto simp: gains_def)
  moreover from this assms(2)[of y] t(2) have "prefix_sane s' \<and> weigh w v t + b \<le> weigh w v s'" by (auto simp: gains_def)
  ultimately show "prefix_sane s' \<and> weigh w v s + k \<le> weigh w v s'" using assms(3) by simp
qed

lemma gains_seq [gain_rules]: "gains w v 0 m \<Longrightarrow> (\<And>x. gains w v k (n x)) \<Longrightarrow> gains w v k (bnd m n)"
  by (rule gains_bnd[of w v 0 m k n]) simp_all

text \<open>Programs that leave the metrics, the history and the prefix cache alone.\<close>

lemma gains_frame:
  assumes "\<And>s x s'. m s = (Inr x, s') \<Longrightarrow> sv_metrics s' = sv_metrics s \<and> sv_trace s' = sv_trace s \<and> sv_prefix s' = sv_prefix s"
  shows "gains w v 0 m"
  using assms by (fastforce simp: gains_def weigh_def prefix_sane_def)

lemma gains_atoms [gain_rules]:
  "gains w v 0 (ret y)" "gains w v 0 (gets g)" "gains w v 0 (lift z)" "gains w v 0 (asks h)" "gains w v k (raise e)"
  "gains w v 0 (monotonic clk)" "gains w v 0 (trace_op tr)" "gains w v 0 pop_slot" "gains w v 0 (pop_request rid)"
  "gains w v 0 (pop_active rid)" "gains w v 0 (remove_waiting rid)" "gains w v 0 run_policy"
  by ((rule gains_frame, auto simp: ret_def gets_def lift_def asks_def monotonic_def trace_op_def upd_def
      pop_slot_def pop_request_def pop_active_def remove_waiting_def run_policy_def split: if_splits sum.splits prod.splits)
    | simp add: gains_def raise_def)+

lemma gains_upd [gain_rules]:
  "(\<And>s. sv_metrics (g s) = sv_metrics s \<and> sv_trace (g s) = sv_trace s \<and> sv_prefix (g s) = sv_prefix s) \<Longrightarrow> gains w v 0 (upd g)"
  by (rule gains_frame) (auto simp: upd_def)

lemma gains_call [gain_rules]:
  "(\<And>s x s'. g s = (x, s') \<Longrightarrow> sv_metrics s' = sv_metrics s \<and> sv_trace s' = sv_trace s \<and> sv_prefix s' = sv_prefix s)
     \<Longrightarrow> gains w v 0 (call g)"
  by (rule gains_frame) (auto simp: call_def split: prod.splits)

lemma gains_emit: "(event_ok e \<Longrightarrow> k \<le> w e) \<Longrightarrow> gains w v k (emit e)"
  by (auto simp: gains_def emit_def weigh_def prefix_sane_def split: if_splits)

lemma gains_note: "k \<le> v e \<Longrightarrow> gains w v k (note_event e)"
  by (auto simp: gains_def note_event_def upd_def weigh_def prefix_sane_def)

lemma gains_for_each [gain_rules]: "(\<And>x. gains w v 0 (f x)) \<Longrightarrow> gains w v 0 (for_each xs f)"
  by (induction xs) (auto intro: gain_rules)

lemma gains_if [gain_rules]: "(b \<Longrightarrow> gains w v k m) \<Longrightarrow> (\<not> b \<Longrightarrow> gains w v k n) \<Longrightarrow> gains w v k (if b then m else n)"
  by simp

section \<open>The block size of the prefix cache\<close>

lemma pc_block_size_kept:
  "pc_block_size (pc_evict sid c) = pc_block_size c" "pc_block_size (snd (pc_insert t sid c)) = pc_block_size c"
proof -
  have node: "pc_block_size (evict_node sid a c) = pc_block_size c" for sid a c
    by (auto simp: evict_node_def Let_def split: option.splits)
  have nodes: "pc_block_size (fold (evict_node sid) as c) = pc_block_size c" for sid as c
    by (induction as arbitrary: c) (auto simp: node)
  have ev: "pc_block_size (pc_evict sid c) = pc_block_size c" for sid c by (auto simp: pc_evict_def nodes split: option.split)
  then show "pc_block_size (pc_evict sid c) = pc_block_size c" .
  have "pc_block_size (fst (insert_path sid a ow bl c)) = pc_block_size c" for a ow bl c
    by (induction sid a ow bl c rule: insert_path.induct) (auto simp: Let_def split: option.splits)
  then show "pc_block_size (snd (pc_insert t sid c)) = pc_block_size c"
    by (auto simp: pc_insert_def Let_def ev split: prod.split) (metis ev fst_conv)
qed

lemma be_block_size_kept:
  "be_evict sid b = Inr b' \<Longrightarrow> be_block_size b' = be_block_size b"
  "be_insert t sid b = Inr (n, b') \<Longrightarrow> be_block_size b' = be_block_size b"
  "be_match_for_reuse t b = Inr (h, b') \<Longrightarrow> be_block_size b' = be_block_size b"
  using pc_block_size_kept(1)[of sid] pc_block_size_kept(2)[of t sid]
  by (auto simp: be_evict_def be_insert_def be_match_for_reuse_def reuse_call_def be_match_def be_block_size_def Let_def
      of_native_def native_evict_def native_insert_def native_match_def res_bind_eq_Inr
      split: backend.splits sum.splits if_splits prod.splits) (metis snd_conv)+

lemma reuse_below_prompt:
  assumes "be_match_for_reuse t b = Inr (h, b')" "0 < be_block_size b" "is_hit h"
  shows "n_tokens h \<le> int (length t)"
proof -
  let ?u = "(int (length t) - 1) div be_block_size b * be_block_size b"
  have "?u \<le> int (length t) - 1" using pos_mod_sign[OF assms(2), of "int (length t) - 1"] by (simp add: minus_mod_eq_div_mult[symmetric])
  with assms show ?thesis
    by (auto simp: be_match_for_reuse_def reuse_call_def Let_def is_hit_def res_bind_eq_Inr split: if_splits)
      (metis order_less_imp_le prefix_match.select_convs(1))
qed

text \<open>Reading and replacing the prefix cache.\<close>

lemma gains_lift: "(\<And>x. r = Inr x \<Longrightarrow> gains w v k (n x)) \<Longrightarrow> gains w v k (bnd (lift r) n)"
  by (cases r) (auto simp: gains_def bnd_def lift_def)

lemma gains_get_prefix:
  assumes "gains w v k (n None)" "\<And>c. 0 < be_block_size c \<Longrightarrow> gains w v k (n (Some c))"
  shows "gains w v k (bnd (gets sv_prefix) n)"
  unfolding gains_def
proof (intro allI impI)
  fix s x s' assume s: "prefix_sane s" and r: "bnd (gets sv_prefix) n s = (Inr x, s')"
  have "gains w v k (n (sv_prefix s))" using assms s by (cases "sv_prefix s") (auto simp: prefix_sane_def)
  with s r show "prefix_sane s' \<and> weigh w v s + k \<le> weigh w v s'" by (simp add: gains_def)
qed

lemma gains_set_prefix: "0 < be_block_size c \<Longrightarrow> gains w v 0 (upd (\<lambda>s. s\<lparr>sv_prefix := Some c\<rparr>))"
  by (auto simp: gains_def upd_def weigh_def prefix_sane_def)

section \<open>The ledger\<close>

locale ledger =
  fixes w :: "metric_event \<Rightarrow> int" and v :: "event \<Rightarrow> int"
  assumes gauge: "0 \<le> w (MSet n ls x)" "0 \<le> w (MObserve n x)"
    and other_counters: "n \<in> {''admission_rejected_total'', ''prefix_cache_lookups_total'', ''scheduler_policy_decision_total''}
      \<Longrightarrow> 0 \<le> w (MInc n ls k)"
    and other_events: "0 \<le> v (TokenPushed r t)" "0 \<le> v (TextRead r u)" "0 \<le> v (StreamEnded r)" "0 \<le> v (Closed r None)"
    and accept: "0 \<le> v (Accepted r p m) + w (MInc ''admission_accepted_total'' [] 1)"
    and cancel: "0 \<le> v (Closed r (Some why)) + w (MInc ''cancellations_total'' [why] 1)"
    and prefill: "0 \<le> k \<Longrightarrow> 0 \<le> w (MInc ''prefill_tokens_total'' [] k)"
    and reuse: "0 \<le> j \<Longrightarrow> j \<le> k \<Longrightarrow> 0 \<le> w (MInc ''prefill_tokens_reused_total'' [] j) + w (MInc ''prefill_tokens_total'' [] k)"
begin

lemma gains_quiet [gain_rules]:
  "gains w v 0 (emit (MSet n ls x))" "gains w v 0 (emit (MObserve n x))"
  "gains w v 0 (emit (MInc ''admission_rejected_total'' ls k))"
  "gains w v 0 (emit (MInc ''prefix_cache_lookups_total'' ls k))"
  "gains w v 0 (emit (MInc ''scheduler_policy_decision_total'' ls k))"
  by (rule gains_emit, use gauge other_counters in simp)+

lemma gains_publish:
  assumes "0 < be_block_size c"
  shows "gains w v 0 (publish_prefix t sid c)"
  unfolding publish_prefix_def
proof (rule gains_lift)
  fix x assume "be_insert t sid c = Inr x"
  then have "0 < be_block_size (snd x)" using be_block_size_kept(2)[of t sid c "fst x" "snd x"] assms by simp
  then show "gains w v 0 (case x of (n, c') \<Rightarrow> seqp (upd (\<lambda>s. s\<lparr>sv_prefix := Some c'\<rparr>))
      (emit (MSet ''prefix_cache_nodes'' [] (of_int (be_node_count c')))))"
    by (simp add: case_prod_beta gains_set_prefix gains_seq gains_quiet)
qed

text \<open>What a prefix hit takes out of the ledger is covered by the count of the whole prompt.\<close>

lemma gains_claim: "gains w v (- w (MInc ''prefill_tokens_total'' [] (int (length (prompt_tokens rq))))) (claim_prefix lib rq sid)"
  (is "gains w v ?k _")
proof -
  have k: "?k \<le> 0" using prefill by simp
  have hit: "gains w v ?k (emit (MInc ''prefill_tokens_reused_total'' [] j))" if "j \<le> int (length (prompt_tokens rq))" for j
    using that reuse[of j "int (length (prompt_tokens rq))"] by (intro gains_emit) (simp add: event_ok.simps instruments_def)
  have none: "gains w v ?k (ret 0)" by (rule gains_weaken[OF gains_atoms(1) k])
  have look: "gains w v ?k (seqp (emit (MInc ''prefix_cache_lookups_total'' ls j)) (ret 0))" for ls j
    by (rule gains_weaken[OF _ k]) (intro gain_rules)
  show ?thesis unfolding claim_prefix_def
  proof (rule gains_get_prefix, goal_cases)
    case 1
    show ?case using none by simp
  next
    case (2 c)
    show ?case unfolding option.case
    proof (rule gains_lift, goal_cases)
      case (1 x)
      obtain h c1 where x: "x = (h, c1)" by force
      note below = reuse_below_prompt[OF 1[unfolded x] 2]
      have c1: "0 < be_block_size c1" using be_block_size_kept(3) 1 2 x by metis
      show ?case unfolding x prod.case
      proof (rule gains_seq[OF gains_set_prefix[OF c1]], rule gains_bnd[where a = ?k and b = 0], goal_cases)
        case 1
        show ?case using below
          by (intro gains_if gains_seq[OF gains_call] look gains_bnd[OF hit] gains_seq[OF gains_quiet(4)] gains_atoms(1))
            (auto simp: gains_atoms(1) split: prod.splits)
      next
        case (2 reused)
        show ?case by (rule gains_seq[OF gains_publish[OF c1] gains_atoms(1)])
      qed simp
    qed
  qed
qed

lemma gains_admit [gain_rules]: "gains w v 0 (admit lib clk rq)"
proof -
  let ?n = "int (length (prompt_tokens rq))"
  have "gains w v (w (MInc ''prefill_tokens_total'' [] ?n)) (emit (MInc ''prefill_tokens_total'' [] ?n))" by (rule gains_emit) simp
  note count = gains_bnd[where b = 0, OF this]
  show ?thesis unfolding admit_def
    by (intro gains_seq[OF gains_atoms(6)] gains_seq[OF gains_atoms(8)] gains_bnd[OF gains_claim]
        gains_seq[OF gains_upd] count gain_rules) auto
qed

lemma gains_evict [gain_rules]: "gains w v 0 (evict_prefix sid)"
  unfolding evict_prefix_def
proof (rule gains_get_prefix, goal_cases)
  case (2 c)
  show ?case unfolding option.case
  proof (rule gains_lift)
    fix c' assume "be_evict sid c = Inr c'"
    with be_block_size_kept(1) 2 have "0 < be_block_size c'" by metis
    then show "gains w v 0 (seqp (upd (\<lambda>s. s\<lparr>sv_prefix := Some c'\<rparr>)) (emit (MSet ''prefix_cache_nodes'' [] (of_int (be_node_count c')))))"
      by (intro gains_seq gains_set_prefix gain_rules)
  qed
qed (simp add: gain_rules)

text \<open>Closing a request and counting why, before whatever follows.\<close>

lemma gains_cancelled:
  assumes "gains w v 0 m"
  shows "gains w v 0 (seqp (note_event (Closed r (Some why))) (seqp (emit (MInc ''cancellations_total'' [why] 1)) m))"
proof (rule gains_bnd[OF gains_note[OF order_refl]])
  have e: "gains w v (w (MInc ''cancellations_total'' [why] 1)) (emit (MInc ''cancellations_total'' [why] 1))" by (rule gains_emit) simp
  have "gains w v (w (MInc ''cancellations_total'' [why] 1)) (seqp (emit (MInc ''cancellations_total'' [why] 1)) m)"
    by (rule gains_bnd[OF e assms]) simp
  then show "gains w v (- v (Closed r (Some why))) (seqp (emit (MInc ''cancellations_total'' [why] 1)) m)"
    by (rule gains_weaken) (use cancel[of r why] in simp)
qed simp

lemma gains_finish [gain_rules]: "gains w v 0 (finish lib clk rid why)"
proof -
  have "gains w v 0 (note_event (Closed rid None))" by (rule gains_note) (rule other_events)
  then show ?thesis unfolding finish_def
    by (cases why) (simp_all, (intro gains_cancelled gain_rules; simp)+)
qed

lemma gains_expire [gain_rules]: "gains w v 0 (expire_stale_waiters clk)"
  unfolding expire_stale_waiters_def expire_waiter_def
  by (intro gains_cancelled gain_rules; simp)

lemma gains_start [gain_rules]: "gains w v 0 (start_tick lib clk)"
  unfolding start_tick_def set_gauges_def schedule_def admit_chosen_def case_prod_beta
  by (intro gain_rules; simp)

lemma gains_wait [gain_rules]: "gains w v 0 (wait_pass lib clk)"
  unfolding wait_pass_def by (intro gain_rules; auto split: prod.splits)

lemma gains_top [gain_rules]: "gains w v 0 (loop_top lib clk)"
  unfolding loop_top_def by (intro gain_rules)

lemma gains_push [gain_rules]: "gains w v 0 (push_sampled lib now rid sq st token)"
proof -
  have gap: "gains w v 0 (case last of None \<Rightarrow> ret () | Some prev \<Rightarrow> emit (MObserve n (fsub now prev)))" for last n
    by (cases last) (simp_all add: gain_rules)
  show ?thesis unfolding push_sampled_def by (intro gain_rules gap gains_note other_events; simp)
qed

lemma gains_handle [gain_rules]: "gains w v 0 (handle_token lib clk rids now x)"
  unfolding handle_token_def case_prod_beta Let_def by (intro gain_rules; simp)

lemma gains_advance [gain_rules]: "gains w v 0 (advance_seq rids prepared sid)"
  unfolding advance_seq_def Let_def by (intro gain_rules; simp)

lemma gains_decoded [gain_rules]: "gains w v 0 (loop_decoded lib clk prepared t)"
proof -
  have a: "gains w v 0 (after_decode lib clk prepared t sampled)" for sampled
    unfolding after_decode_def Let_def by (intro gain_rules)
  have f: "gains w v 0 (bnd (gets (\<lambda>s. keys (sv_requests s))) (\<lambda>rids. for_each rids (\<lambda>rid. finish lib clk rid (Some why))))" for why
    by (intro gain_rules)
  have r: "gains w v 0 (case r of Inl MemoryFault \<Rightarrow> raise MemoryFault
      | Inl e \<Rightarrow> bnd (gets (\<lambda>s. keys (sv_requests s))) (\<lambda>rids. for_each rids (\<lambda>rid. finish lib clk rid (Some ''decode_error'')))
      | Inr sampled \<Rightarrow> after_decode lib clk prepared t sampled)" for r
    using a f gains_atoms(5) by (auto split: sum.split py_error.split)
  show ?thesis unfolding loop_decoded_def by (intro gain_rules r; auto split: prod.splits)
qed

lemma gains_generate [gain_rules]: "gains w v 0 (generate_body lib clk rid body)"
proof -
  have span: "gains w v 0 (admission_span rid n m)" for n m
    by (rule gains_frame) (auto simp: admission_span_def in_span_def finallyp_def bnd_def trace_op_def upd_def split: sum.splits prod.splits)
  have e: "gains w v (w (MInc ''admission_accepted_total'' [] 1)) (emit (MInc ''admission_accepted_total'' [] 1))" by (rule gains_emit) simp
  have q: "gains w v (- w (MInc ''admission_accepted_total'' [] 1)) (enqueue clk rid toks body)" for toks
    unfolding enqueue_def by (intro gain_rules gains_note) (use accept[of rid toks "gr_max_tokens body"] in simp_all)
  show ?thesis unfolding generate_body_def
    by (intro gains_if gains_seq[OF gains_atoms(3)] gains_seq[OF gains_atoms(7)] gains_seq[OF span] gains_bnd[OF e] gains_bnd[OF q, where b = 0]
        gains_seq[OF gains_quiet(3)] gains_atoms) (simp_all split: if_split, linarith?)
qed

text \<open>The steps of the server.\<close>

lemma sane:
  assumes "server_inv lib cells lm clk s"
  shows "prefix_sane s"
proof -
  have T: "tick_inv lib cells lm clk clean s" using assms by (simp add: server_inv_def)
  have "0 < kv_block_size (sv_settings s)" using tick_invD(1)[OF T] by (simp add: static_inv_def config_ok_def)
  with tick_invD(7)[OF T] show ?thesis by (auto simp: prefix_sane_def prefix_inv_def)
qed

lemma loop_step_gains:
  assumes "llama_ok lib cells lm" "strict_mono clk" and I: "server_inv lib cells lm clk s"
  shows "weigh w v s \<le> weigh w v (loop_step lib clk s)"
proof -
  have alive: "sv_loop (loop_step lib clk s) \<noteq> Crashed e" for e
    using loop_step_result(1)[OF assms] by (auto simp: server_inv_def loop_inv_def)
  have run: "weigh w v s \<le> weigh w v (run_loop m s)" if "gains w v 0 m" "\<And>e. sv_loop (run_loop m s) \<noteq> Crashed e" for m
  proof (cases "m s")
    case (Pair r s')
    with that(2) obtain x where "r = Inr x" by (cases r) (auto simp: run_loop_def)
    with Pair that(1) sane[OF I] show ?thesis by (auto simp: run_loop_def gains_def)
  qed
  show ?thesis using alive run gains_top[of lib clk] gains_wait[of lib clk] gains_decoded[of lib clk]
    by (auto simp: loop_step_def split: loop_state.splits if_splits)
qed

lemma client_step_gains:
  assumes ok: "llama_ok lib cells lm" and I: "server_inv lib cells lm clk s" and st: "client_step lib clk s s'"
  shows "weigh w v s \<le> weigh w v s'"
  using st
proof cases
  case (step_generate rid body r)
  have T: "tick_inv lib cells lm clk clean s" using I by (simp add: server_inv_def)
  have a: "acc rid (sv_trace s) = None" using step_generate(1) acc_accepted by blast
  from ok T a step_generate(2) have "s' = s \<or> (\<exists>r. r \<noteq> UnprocessableEntity \<and> (\<forall>e. r \<noteq> InternalServerError e) \<and> generate lib clk rid body s = (r, s'))"
    by (cases rule: generate_cases) (auto simp: step_generate(2) split: if_splits)
  then show ?thesis using gains_generate[of lib clk rid body] sane[OF I]
    by (fastforce simp: gains_def generate_def split: if_splits prod.splits sum.splits)
next
  case (step_set_policy name r)
  then show ?thesis by (auto simp: set_policy_def weigh_def Let_def split: if_splits sum.splits)
next
  case (step_consume rid)
  then show ?thesis using other_events
    by (auto simp: consume_def weigh_def split: sum.splits prod.splits consumer.splits)
qed (simp_all add: weigh_def)

theorem books_balance:
  assumes "runs lib cells lm clk ctx st s"
  shows "0 \<le> weigh w v s"
proof -
  from assms obtain native s0 where r: "llama_ok lib cells lm" "strict_mono clk" "config_ok st" "\<And>sid. cells ctx sid = Map.empty"
    "lifespan lib native ctx st = Inr s0" "reachable lib clk s0 s" by (auto simp: runs_def)
  note I0 = lifespan_inv[where cells = cells and ctx = ctx and lm = lm and clk = clk, OF r(3) r(4) r(5)]
  have "0 \<le> weigh w v s0" using r(5) gauge(1) by (auto simp: lifespan_def res_bind_eq_Inr weigh_def)
  with r(6) show ?thesis
  proof (induction rule: reachable.induct)
    case (reach_step s s')
    have I: "server_inv lib cells lm clk s" using reachable_inv[OF r(1,2) I0 reach_step(1)] by blast
    from reach_step(2) have "weigh w v s \<le> weigh w v s'"
      using loop_step_gains[OF r(1,2) I] client_step_gains[OF r(1) I] by cases auto
    with reach_step show ?case by linarith
  qed
qed

end

section \<open>Reading off the counters\<close>

definition counted :: "string \<Rightarrow> string list \<Rightarrow> metric_event \<Rightarrow> int" where
  "counted n ls e = (case e of MInc n' ls' k \<Rightarrow> if n' = n \<and> ls' = ls then k else 0 | _ \<Rightarrow> 0)"

lemma counter_value_sum: "counter_value n ls es = sum_list (map (counted n ls) es)"
  by (induction n ls es rule: counter_value.induct) (auto simp: counted_def)

definition is_accepted :: "event \<Rightarrow> bool" where
  "is_accepted e = (case e of Accepted _ _ _ \<Rightarrow> True | _ \<Rightarrow> False)"

definition closed_as :: "string \<Rightarrow> event \<Rightarrow> bool" where
  "closed_as why e = (case e of Closed _ (Some r) \<Rightarrow> r = why | _ \<Rightarrow> False)"

lemma sum_of_bool: "sum_list (map (\<lambda>e. of_bool (P e)) es) = int (length (filter P es))"
  by (induction es) auto

lemma sum_minus: "sum_list (map (\<lambda>e. - f e) es) = - sum_list (map f es)" for f :: "'a \<Rightarrow> int"
  by (induction es) auto

lemmas weight_simps = counted_def is_accepted_def closed_as_def

interpretation accepted_le: ledger "counted ''admission_accepted_total'' []" "\<lambda>e. - of_bool (is_accepted e)"
  by unfold_locales (auto simp: weight_simps)

interpretation accepted_ge: ledger "\<lambda>e. - counted ''admission_accepted_total'' [] e" "\<lambda>e. of_bool (is_accepted e)"
  by unfold_locales (auto simp: weight_simps)

interpretation cancelled_le: ledger "counted ''cancellations_total'' [why]" "\<lambda>e. - of_bool (closed_as why e)" for why
  by unfold_locales (auto simp: weight_simps)

interpretation cancelled_ge: ledger "\<lambda>e. - counted ''cancellations_total'' [why] e" "\<lambda>e. of_bool (closed_as why e)" for why
  by unfold_locales (auto simp: weight_simps)

interpretation reused: ledger "\<lambda>e. counted ''prefill_tokens_total'' [] e - counted ''prefill_tokens_reused_total'' [] e" "\<lambda>_. 0"
  by unfold_locales (auto simp: weight_simps)

lemmas balance_simps = weigh_def counter_value_sum sum_of_bool sum_minus sum_list_subtractf

end
