(* ===== verification/Server_Waiting.thy ===== *)
theory Server_Waiting
  imports Server_Progress
begin

text \<open>
  Waiting requests. Between two suspensions the loop only takes requests out of the queue and only reads the
  clock forward, and at the top of the loop it drops every request that has waited too long. So a request
  leaves the queue after as many clock readings as cover the queue timeout, whatever the policy prefers and
  however many other requests arrive, and from then on \<open>Server_Progress\<close> takes over.
\<close>

section \<open>Programs that only move forward\<close>

definition moves :: "('s \<Rightarrow> 's \<Rightarrow> bool) \<Rightarrow> ('s, 'a) prog \<Rightarrow> bool" where
  "moves R m \<longleftrightarrow> (\<forall>s x s'. m s = (Inr x, s') \<longrightarrow> R s s')"

lemma movesD: "moves R m \<Longrightarrow> m s = (Inr x, s') \<Longrightarrow> R s s'"
  by (simp add: moves_def)

lemma bndE:
  assumes "bnd m n s = (Inr x, s')"
  obtains y t where "m s = (Inr y, t)" "n y t = (Inr x, s')"
  using assms by (auto simp: bnd_def split: prod.splits sum.splits)

locale forward =
  fixes R :: "'s \<Rightarrow> 's \<Rightarrow> bool"
  assumes stay: "R s s" and go_on: "R s t \<Longrightarrow> R t u \<Longrightarrow> R s u"
begin

lemma moves_atoms: "moves R (ret x)" "moves R (gets f)" "moves R (lift r)" "moves R (asks g)" "moves R (raise e)"
  by (auto simp: moves_def ret_def gets_def lift_def asks_def raise_def stay)

lemma moves_bnd:
  assumes "moves R m" "\<And>x. moves R (n x)"
  shows "moves R (bnd m n)"
  unfolding moves_def
proof (intro allI impI)
  fix s x s' assume "bnd m n s = (Inr x, s')"
  then obtain y t where "m s = (Inr y, t)" "n y t = (Inr x, s')" by (rule bndE)
  with assms show "R s s'" unfolding moves_def by (metis go_on)
qed

lemma moves_for_each: "(\<And>x. moves R (f x)) \<Longrightarrow> moves R (for_each xs f)"
  by (induction xs) (auto intro: moves_atoms(1) moves_bnd)

end

text \<open>The settings stay, the clock does not run back, the queue does not grow, and the history is only continued.\<close>

definition ages :: "'m server \<Rightarrow> 'm server \<Rightarrow> bool" where
  "ages s s' \<longleftrightarrow> sv_settings s' = sv_settings s \<and> sv_clock s \<le> sv_clock s'
     \<and> set (waiting_d (sv_queue s')) \<subseteq> set (waiting_d (sv_queue s)) \<and> prefix (sv_trace s) (sv_trace s')"

interpretation ages: forward ages
  by unfold_locales (auto simp: ages_def)

named_theorems age_rules

lemmas [age_rules] = ages.moves_atoms ages.moves_bnd ages.moves_for_each

lemma ages_frame:
  assumes "\<And>s x s'. m s = (Inr x, s') \<Longrightarrow> sv_settings s' = sv_settings s \<and> sv_clock s' = sv_clock s \<and> sv_queue s' = sv_queue s
      \<and> sv_trace s' = sv_trace s"
  shows "moves ages m"
  unfolding moves_def ages_def by (metis assms order_refl prefix_order.order_refl)

lemma ages_upd [age_rules]:
  "(\<And>s. sv_settings (g s) = sv_settings s \<and> sv_clock (g s) = sv_clock s \<and> sv_queue (g s) = sv_queue s
     \<and> sv_trace (g s) = sv_trace s) \<Longrightarrow> moves ages (upd g)"
  by (rule ages_frame) (auto simp: upd_def)

lemma ages_atoms [age_rules]:
  "moves ages (emit e)" "moves ages (trace_op tr)" "moves ages pop_slot"
  "moves ages (pop_request rid)" "moves ages (pop_active rid)" "moves ages run_policy"
  by (rule ages_frame, auto simp: emit_def trace_op_def upd_def pop_slot_def pop_request_def pop_active_def
      run_policy_def split: if_splits sum.splits prod.splits)+

lemma ages_note [age_rules]: "moves ages (note_event ev)"
  by (auto simp: moves_def ages_def note_event_def upd_def)

lemma ages_clock [age_rules]: "moves ages (monotonic clk)"
  by (auto simp: moves_def ages_def monotonic_def)

lemma ages_remove [age_rules]: "moves ages (remove_waiting rid)"
  by (auto simp: moves_def ages_def remove_waiting_def queue_remove_def dict_pop_def set_dict_del split: sum.splits option.splits)

lemma ages_if [age_rules]: "(b \<Longrightarrow> moves R m) \<Longrightarrow> (\<not> b \<Longrightarrow> moves R n) \<Longrightarrow> moves R (if b then m else n)"
  by simp

lemma ages_option [age_rules]: "(\<And>x. moves R (m x)) \<Longrightarrow> moves R n \<Longrightarrow> moves R (case p of None \<Rightarrow> n | Some x \<Rightarrow> m x)"
  by (cases p) auto

lemma ages_call [age_rules]:
  "(\<And>s x s'. g s = (x, s') \<Longrightarrow> ages s s') \<Longrightarrow> moves ages (call g)"
  by (auto simp: moves_def call_def split: prod.splits)

lemma ages_admit [age_rules]: "moves ages (admit_chosen lib clk rq)"
  unfolding admit_chosen_def admit_def claim_prefix_def publish_prefix_def case_prod_beta
  by (intro age_rules; simp add: ages_def split: prod.splits)

lemma ages_finish [age_rules]: "moves ages (finish lib clk rid why)"
  unfolding finish_def evict_prefix_def by (intro age_rules; simp)

lemma ages_expire_one [age_rules]: "moves ages (expire_waiter now rq)"
  unfolding expire_waiter_def by (intro age_rules; simp)

lemma ages_start [age_rules]: "moves ages (start_tick lib clk)"
  unfolding start_tick_def set_gauges_def schedule_def case_prod_beta by (intro age_rules; simp)

lemma ages_expire [age_rules]: "moves ages (expire_stale_waiters clk)"
  unfolding expire_stale_waiters_def by (intro age_rules)

lemma ages_wait [age_rules]: "moves ages (wait_pass lib clk)"
  unfolding wait_pass_def by (intro age_rules; auto simp: ages_def wait_check_def split: if_splits)

lemma ages_handle [age_rules]: "moves ages (handle_token lib clk rids now x)"
  unfolding handle_token_def push_sampled_def case_prod_beta Let_def by (intro age_rules; simp)

lemma ages_after [age_rules]: "moves ages (after_decode lib clk prepared t sampled)"
  unfolding after_decode_def advance_seq_def Let_def by (intro age_rules; simp)

lemma ages_decoded [age_rules]: "moves ages (loop_decoded lib clk prepared t)"
proof -
  have "moves ages (case r of Inl MemoryFault \<Rightarrow> raise MemoryFault
      | Inl e \<Rightarrow> bnd (gets (\<lambda>s. keys (sv_requests s))) (\<lambda>rids. for_each rids (\<lambda>rid. finish lib clk rid (Some ''decode_error'')))
      | Inr sampled \<Rightarrow> after_decode lib clk prepared t sampled)" (is "moves ages (?c r)") for r
  proof (cases r)
    case (Inl e)
    then show ?thesis by (cases e) (auto intro!: age_rules)
  qed (auto intro!: age_rules)
  note case_r = this
  show ?thesis unfolding loop_decoded_def by (intro age_rules case_r; auto simp: ages_def split: prod.splits)
qed

lemma ages_top [age_rules]: "moves ages (loop_top lib clk)"
  unfolding loop_top_def by (intro age_rules)

section \<open>Expiry\<close>

lemma queue_keyed:
  "queue_inv (sv_queue s) \<Longrightarrow> ages s t \<Longrightarrow> r \<in> set (waiting (sv_queue t)) \<Longrightarrow> (req_id r, r) \<in> set (waiting_d (sv_queue t))"
  by (fastforce simp: ages_def queue_inv_def waiting_def)

lemma expire_one:
  assumes e: "expire_waiter now r s = (Inr x, s')" and k: "(req_id r, r) \<in> set (waiting_d (sv_queue s'))"
  shows "fsub now (arrival_ts r) \<le> queue_timeout_seconds (sv_settings s)"
proof (rule ccontr)
  assume "\<not> ?thesis"
  then have "expire_waiter now r s = bnd (remove_waiting (req_id r)) (\<lambda>_. seqp (upd (\<lambda>s. s\<lparr>sv_kv := release (req_id r) (sv_kv s)\<rparr>))
         (seqp (upd (\<lambda>s. s\<lparr>sv_streams := stream_close (req_id r) (sv_streams s)\<rparr>))
         (seqp (note_event (Closed (req_id r) (Some ''queue_timeout'')))
         (seqp (emit (MInc ''cancellations_total'' [''queue_timeout''] 1))
         (seqp (trace_op (end_span (req_id r) ''queue_wait''))
               (trace_op (end_request (req_id r) [(''completion_tokens'', AInt 0)]))))))) s" (is "_ = bnd _ (\<lambda>_. ?rest) s")
    by (simp add: expire_waiter_def)
  with e obtain y t where t: "remove_waiting (req_id r) s = (Inr y, t)" "?rest t = (Inr x, s')" by (auto elim: bndE)
  have "(req_id r, r) \<notin> set (waiting_d (sv_queue t))"
    using t(1) by (auto simp: remove_waiting_def queue_remove_def dict_pop_def set_dict_del split: sum.splits option.splits)
  moreover have "moves ages ?rest" by (intro age_rules; simp)
  ultimately show False using k moves_def[of ages ?rest] t(2) unfolding ages_def by blast
qed

lemma expire_each:
  assumes "for_each rs (expire_waiter now) s = (Inr x, s')" "r \<in> set rs" "(req_id r, r) \<in> set (waiting_d (sv_queue s'))"
  shows "fsub now (arrival_ts r) \<le> queue_timeout_seconds (sv_settings s)"
  using assms
proof (induction rs arbitrary: s)
  case (Cons q rs)
  then obtain y t where t: "expire_waiter now q s = (Inr y, t)" "for_each rs (expire_waiter now) t = (Inr x, s')"
    by (auto elim: bndE)
  have a: "ages s t" using movesD[OF ages_expire_one t(1)] .
  have "ages t s'" using movesD[OF ages.moves_for_each[OF ages_expire_one] t(2)] .
  then have "(req_id r, r) \<in> set (waiting_d (sv_queue t))" using Cons.prems(3) by (auto simp: ages_def)
  then show ?case using Cons.IH[OF t(2) _ Cons.prems(3)] Cons.prems(2) expire_one[OF t(1)] a by (cases "r = q") (auto simp: ages_def)
qed simp

lemma expire_stale:
  assumes "expire_stale_waiters clk s = (Inr x, s')" "queue_inv (sv_queue s)" "r \<in> set (waiting (sv_queue s'))"
  shows "fsub (clk (sv_clock s)) (arrival_ts r) \<le> queue_timeout_seconds (sv_settings s)" "sv_clock s < sv_clock s'"
proof -
  let ?s = "s\<lparr>sv_clock := Suc (sv_clock s)\<rparr>"
  have f: "for_each (waiting (sv_queue s)) (expire_waiter (clk (sv_clock s))) ?s = (Inr x, s')"
    using assms(1) by (simp add: expire_stale_waiters_def)
  have a: "ages ?s s'" by (rule movesD[OF ages.moves_for_each[OF ages_expire_one] f])
  have k: "(req_id r, r) \<in> set (waiting_d (sv_queue s'))" using queue_keyed[OF _ a assms(3)] assms(2) by simp
  then have "r \<in> set (waiting (sv_queue s))" using a by (force simp: ages_def waiting_def)
  from expire_each[OF f this k] show "fsub (clk (sv_clock s)) (arrival_ts r) \<le> queue_timeout_seconds (sv_settings s)" by simp
  show "sv_clock s < sv_clock s'" using a by (simp add: ages_def)
qed

text \<open>A request that is still waiting after a step from the top of the loop, or from its sleep, had not timed out.\<close>

lemma loop_step_ages:
  assumes "llama_ok lib cells lm" "strict_mono clk" "server_inv lib cells lm clk s"
  shows "ages s (loop_step lib clk s)"
proof -
  have alive: "sv_loop (loop_step lib clk s) \<noteq> Crashed e" for e
    using loop_step_inv[OF assms] by (auto simp: server_inv_def loop_inv_def)
  have run: "ages s (run_loop m s)" if "moves ages m" "\<And>e. sv_loop (run_loop m s) \<noteq> Crashed e" for m
  proof (cases "m s")
    case (Pair r s')
    with that(2) obtain x where "r = Inr x" by (cases r) (auto simp: run_loop_def)
    with Pair movesD[OF that(1)] show ?thesis by (auto simp: run_loop_def)
  qed
  show ?thesis using alive run[OF ages_top] run[OF ages_wait] run[OF ages_decoded] ages.stay
    by (auto simp: loop_step_def split: loop_state.splits if_splits)
qed

lemma loop_step_expires:
  assumes ok: "llama_ok lib cells lm" and clk: "strict_mono clk" and I: "server_inv lib cells lm clk s"
    and top: "\<not> (\<exists>rows t. sv_loop s = AwaitDecode rows t)" and r: "r \<in> set (waiting (sv_queue (loop_step lib clk s)))"
  shows "\<exists>c \<ge> sv_clock s. fsub (clk c) (arrival_ts r) \<le> queue_timeout_seconds (sv_settings s) \<and> c < sv_clock (loop_step lib clk s)"
proof -
  have q: "queue_inv (sv_queue s)" using I by (auto simp: server_inv_def tick_inv_def ids_inv_def)
  have L: "loop_inv (sv_settings s) (sv_active s) (sv_queue s) (sv_loop s)" using I by (simp add: server_inv_def)
  have I': "\<And>e. sv_loop (loop_step lib clk s) \<noteq> Crashed e" using loop_step_inv[OF ok clk I] by (auto simp: server_inv_def loop_inv_def)
  have w: "waiting_d (sv_queue s) \<noteq> []" using loop_step_ages[OF ok clk I] r by (auto simp: ages_def waiting_def)
  obtain m where m: "loop_step lib clk s = run_loop m s" and mm: "m = loop_top lib clk \<or> m = wait_pass lib clk"
    using top L w by (auto simp: loop_step_def loop_inv_def split: loop_state.splits if_splits)
  obtain x s' where run: "m s = (Inr x, s')" "loop_step lib clk s = s'"
    using I' m by (cases "m s") (auto simp: run_loop_def split: sum.splits)
  have "\<exists>n s1 y. moves ages n \<and> expire_stale_waiters clk s = (Inr y, s1) \<and> n s1 = (Inr x, s')"
    using mm
  proof
    assume "m = loop_top lib clk"
    with run(1) have "loop_top lib clk s = (Inr x, s')" by simp
    then obtain y s1 where "expire_stale_waiters clk s = (Inr y, s1)"
      "bnd (gets (\<lambda>s. sv_active s = [] \<and> queue_depth (sv_queue s) = 0)) (\<lambda>idle. if idle then wait_pass lib clk else start_tick lib clk) s1 = (Inr x, s')"
      unfolding loop_top_def by (rule bndE)
    moreover have "moves ages (bnd (gets (\<lambda>s. sv_active s = [] \<and> queue_depth (sv_queue s) = 0))
        (\<lambda>idle. if idle then wait_pass lib clk else start_tick lib clk))" by (intro age_rules)
    ultimately show ?thesis by blast
  next
    assume "m = wait_pass lib clk"
    then have "seqp (expire_stale_waiters clk) (start_tick lib clk) s = (Inr x, s')"
      using run(1) w by (simp add: wait_pass_def run_call wait_check_def)
    then obtain y s1 where "expire_stale_waiters clk s = (Inr y, s1)" "start_tick lib clk s1 = (Inr x, s')" by (rule bndE)
    then show ?thesis using ages_start by blast
  qed
  then obtain n s1 y where n: "moves ages n" "expire_stale_waiters clk s = (Inr y, s1)" "n s1 = (Inr x, s')" by blast
  have a: "ages s1 s'" by (rule movesD[OF n(1,3)])
  then have "r \<in> set (waiting (sv_queue s1))" using r run(2) by (auto simp: ages_def waiting_def)
  from expire_stale[OF n(2) q this] a run(2) show ?thesis by (intro exI[of _ "sv_clock s"]) (auto simp: ages_def)
qed

section \<open>A waiting request leaves the queue\<close>

text \<open>Arrival times are readings of the clock.\<close>

definition arrivals :: "(nat \<Rightarrow> float64) \<Rightarrow> 'm server \<Rightarrow> bool" where
  "arrivals clk s \<longleftrightarrow> (\<forall>r \<in> set (waiting (sv_queue s)). \<exists>i < sv_clock s. arrival_ts r = clk i)"

lemma arrivals_ages: "arrivals clk s \<Longrightarrow> ages s s' \<Longrightarrow> arrivals clk s'"
proof -
  assume a: "arrivals clk s" "ages s s'"
  show ?thesis unfolding arrivals_def
  proof
    fix r assume "r \<in> set (waiting (sv_queue s'))"
    then have "r \<in> set (waiting (sv_queue s))" using a(2) by (auto simp: ages_def waiting_def)
    then obtain i where "i < sv_clock s" "arrival_ts r = clk i" using a(1) by (auto simp: arrivals_def)
    with a(2) show "\<exists>i < sv_clock s'. arrival_ts r = clk i" by (intro exI[of _ i]) (simp add: ages_def)
  qed
qed

text \<open>A client adds at most one request, which has just arrived.\<close>

lemma client_step_waiting:
  assumes ok: "llama_ok lib cells lm" and I: "server_inv lib cells lm clk s" and st: "client_step lib clk s s'"
  shows "sv_clock s \<le> sv_clock s'" "arrivals clk s \<Longrightarrow> arrivals clk s'"
    "r \<in> set (waiting (sv_queue s)) \<Longrightarrow> r \<in> set (waiting (sv_queue s'))"
proof -
  have "sv_clock s \<le> sv_clock s' \<and> (arrivals clk s \<longrightarrow> arrivals clk s')
     \<and> (r \<in> set (waiting (sv_queue s)) \<longrightarrow> r \<in> set (waiting (sv_queue s')))"
    using st
  proof cases
    case (step_generate rid body r')
    have T: "tick_inv lib cells lm clk clean s" using I by (simp add: server_inv_def)
    have a: "acc rid (sv_trace s) = None" using step_generate(1) acc_accepted by blast
    have new: "rid \<notin> queued_ids (sv_queue s)" using T a unfolding tick_inv_def hist_inv_def by blast
    show ?thesis using ok T a step_generate(2)
    proof (cases rule: generate_cases)
      case (rejected p why)
      define tr' where "tr' = sv_tracer s'"
      note E = rejected(6)[folded tr'_def]
      show ?thesis by (simp add: E arrivals_def)
    next
      case (accepted p)
      define kv' tr' where "kv' = sv_kv s'" and "tr' = sv_tracer s'"
      note E = accepted(6)[folded kv'_def tr'_def]
      have "waiting (sv_queue s') = waiting (sv_queue s) @ [\<lparr>req_id = rid, prompt_tokens = p, max_tokens = gr_max_tokens body,
          priority = gr_priority body, arrival_ts = clk (sv_clock s)\<rparr>]"
        using new by (simp add: E waiting_def push_new)
      then show ?thesis by (auto simp: E arrivals_def less_Suc_eq)
    qed simp_all
  next
    case (step_set_policy name r')
    then have "s' = s \<or> (\<exists>p. s' = s\<lparr>sv_policy := p\<rparr>)" by (auto simp: set_policy_def Let_def split: if_splits sum.splits)
    then show ?thesis by (auto simp: arrivals_def)
  next
    case (step_consume rid)
    then have "sv_clock s' = sv_clock s" "sv_queue s' = sv_queue s"
      by (auto simp: consume_def split: sum.splits prod.splits consumer.splits)
    then show ?thesis by (simp add: arrivals_def)
  qed (simp_all add: arrivals_def)
  then show "sv_clock s \<le> sv_clock s'" "arrivals clk s \<Longrightarrow> arrivals clk s'"
    "r \<in> set (waiting (sv_queue s)) \<Longrightarrow> r \<in> set (waiting (sv_queue s'))" by blast+
qed

lemma reachable_arrivals:
  assumes ok: "llama_ok lib cells lm" and clk: "strict_mono clk" and I0: "server_inv lib cells lm clk s0"
    and "arrivals clk s0" "reachable lib clk s0 s"
  shows "arrivals clk s"
  using assms(5,4)
proof (induction rule: reachable.induct)
  case (reach_step s s')
  have I: "server_inv lib cells lm clk s" using reachable_inv[OF ok clk I0 reach_step(1)] by blast
  from reach_step(2) show ?case
    using reach_step.IH[OF reach_step.prems] arrivals_ages loop_step_ages[OF ok clk I] client_step_waiting(2)[OF ok I] by cases blast+
qed

lemma runs_arrivals:
  assumes "runs lib cells lm clk ctx st s"
  shows "arrivals clk s"
proof -
  from assms obtain native s0 where r: "llama_ok lib cells lm" "strict_mono clk" "config_ok st" "\<And>sid. cells ctx sid = Map.empty"
    "lifespan lib native ctx st = Inr s0" "reachable lib clk s0 s" by (auto simp: runs_def)
  have "arrivals clk s0" using r(5) by (auto simp: lifespan_def res_bind_eq_Inr arrivals_def waiting_def queue_init_def)
  then show ?thesis
    by (rule reachable_arrivals[OF r(1,2) lifespan_inv[where cells = cells and ctx = ctx and lm = lm and clk = clk, OF r(3) r(4) r(5)] _ r(6)])
qed

text \<open>
  Where a request stands after \<open>k\<close> resumptions of the loop: it waits, and every second resumption has read the
  clock, but never past the timeout; or it has left; or it runs and has moved since. \<open>n\<close> readings cover the
  timeout.
\<close>

definition still_waits :: "nat \<Rightarrow> nat \<Rightarrow> pending_request \<Rightarrow> 'm server \<Rightarrow> nat \<Rightarrow> 'm server \<Rightarrow> bool" where
  "still_waits n i r s k t \<longleftrightarrow> r \<in> set (waiting (sv_queue t))
     \<and> 2 * int (sv_clock s) - awaits_decode s + int k \<le> 2 * int (sv_clock t) - awaits_decode t
     \<and> (int k + awaits_decode t \<le> 1
         \<or> 2 * int (sv_clock s) - awaits_decode s + int k + awaits_decode t \<le> 2 * (int i + int n))"

lemma awaits_decode_bounds: "0 \<le> awaits_decode s" "awaits_decode s \<le> 1"
  by (auto simp: awaits_decode_eq)

lemma still_waits_bound:
  assumes "still_waits n i r s k t" "i < sv_clock s"
  shows "int k \<le> 2 * int n + 1"
  using assms awaits_decode_bounds[of s] awaits_decode_bounds[of t] unfolding still_waits_def by auto

definition timeout_covered :: "nat \<Rightarrow> float64 \<Rightarrow> (nat \<Rightarrow> float64) \<Rightarrow> bool" where
  "timeout_covered n timeout clk \<longleftrightarrow> (\<forall>j. timeout < fsub (clk (j + n)) (clk j))"

lemma not_timed_out:
  assumes "timeout_covered n timeout clk" "strict_mono clk" "fsub (clk c) (clk i) \<le> timeout"
  shows "c < i + n"
proof (rule ccontr)
  assume "\<not> c < i + n"
  then have "clk (i + n) \<le> clk c" using strict_mono_mono[OF assms(2)] by (simp add: monoD)
  then have "fsub (clk (i + n)) (clk i) \<le> fsub (clk c) (clk i)" by (simp add: fsub_def fl_mono)
  with assms(1,3) show False unfolding timeout_covered_def by (metis order.trans not_less)
qed

lemma loop_step_waits:
  assumes ok: "llama_ok lib cells lm" and clk: "strict_mono clk" and I: "server_inv lib cells lm clk t"
    and n: "0 < n_seq_max (sv_settings t)" and c: "timeout_covered n (queue_timeout_seconds (sv_settings t)) clk"
    and i: "arrival_ts r = clk i" and w: "still_waits n i r s k t" and r: "r \<in> set (waiting (sv_queue (loop_step lib clk t)))"
  shows "still_waits n i r s (Suc k) (loop_step lib clk t)"
proof -
  let ?t' = "loop_step lib clk t"
  have a: "sv_clock t \<le> sv_clock ?t'" using loop_step_ages[OF ok clk I] by (simp add: ages_def)
  show ?thesis
  proof (cases "\<exists>rows x. sv_loop t = AwaitDecode rows x")
    case True
    then have "sv_loop ?t' = AtTop" using loop_step_result(4)[OF ok clk I] by blast
    then have "awaits_decode ?t' = 0" "awaits_decode t = 1" using True by (simp_all add: awaits_decode_eq)
    with w r a show ?thesis unfolding still_waits_def by auto
  next
    case False
    obtain j where j: "sv_clock t \<le> j" "j < sv_clock ?t'" "fsub (clk j) (clk i) \<le> queue_timeout_seconds (sv_settings t)"
      using loop_step_expires[OF ok clk I False r] i by auto
    have "j < i + n" by (rule not_timed_out[OF c clk j(3)])
    moreover have "live_ids ?t' \<noteq> {}" using r by (auto simp: waiting_def)
    then have "awaits_decode ?t' = 1" using loop_step_result(3)[OF ok clk I False n] by (auto simp: awaits_decode_eq)
    moreover have "awaits_decode t = 0" using False by (simp add: awaits_decode_eq)
    ultimately show ?thesis using w r j unfolding still_waits_def by auto
  qed
qed

lemma run_count_waits:
  assumes ok: "llama_ok lib cells lm" and clk: "strict_mono clk" and r: "run_count lib clk k s s'"
    and I: "server_inv lib cells lm clk s" and n: "0 < n_seq_max (sv_settings s)"
    and c: "timeout_covered n (queue_timeout_seconds (sv_settings s)) clk"
    and q: "r \<in> set (waiting (sv_queue s))" "arrival_ts r = clk i" "i < sv_clock s" and a: "acc (req_id r) (sv_trace s) = Some v"
  shows "server_inv lib cells lm clk s' \<and> sv_settings s' = sv_settings s \<and> acc (req_id r) (sv_trace s') = Some v
     \<and> (still_waits n i r s k s' \<or> req_id r \<notin> live_ids s'
         \<or> (\<exists>q. position (req_id r) s' = Some q \<and> int k - (2 * int n + 2) \<le> q))"
  using r I n c q a
proof (induction rule: run_count.induct)
  case (rc_start s)
  then show ?case using awaits_decode_bounds[of s] by (simp add: still_waits_def)
next
  case (rc_loop k s t)
  let ?t' = "loop_step lib clk t" and ?rid = "req_id r"
  have IH: "server_inv lib cells lm clk t" "sv_settings t = sv_settings s" "acc ?rid (sv_trace t) = Some v"
    "still_waits n i r s k t \<or> ?rid \<notin> live_ids t \<or> (\<exists>q. position ?rid t = Some q \<and> int k - (2 * int n + 2) \<le> q)"
    using rc_loop.IH[OF rc_loop.prems] by blast+
  note F = loop_step_frame[OF ok clk IH(1)] and I' = loop_step_inv[OF ok clk IH(1)]
  have nt: "0 < n_seq_max (sv_settings t)" "timeout_covered n (queue_timeout_seconds (sv_settings t)) clk"
    using rc_loop.prems(2,3) IH(2) by simp_all
  have "still_waits n i r s (Suc k) ?t' \<or> ?rid \<notin> live_ids ?t' \<or> (\<exists>q. position ?rid ?t' = Some q \<and> int (Suc k) - (2 * int n + 2) \<le> q)"
    using IH(4)
  proof (elim disjE exE conjE)
    assume w: "still_waits n i r s k t"
    show ?thesis
    proof (cases "r \<in> set (waiting (sv_queue ?t'))")
      case True
      then show ?thesis using loop_step_waits[OF ok clk IH(1) nt rc_loop.prems(5) w] by blast
    next
      case False
      have qt: "queue_inv (sv_queue t)" "queue_inv (sv_queue ?t')" using IH(1) I' by (auto simp: server_inv_def tick_inv_def ids_inv_def)
      have "?rid \<notin> queued_ids (sv_queue ?t')"
      proof
        assume "?rid \<in> queued_ids (sv_queue ?t')"
        then obtain r' where r': "(?rid, r') \<in> set (waiting_d (sv_queue ?t'))" by auto
        then have "dict_get (waiting_d (sv_queue t)) ?rid = Some r'"
          using loop_step_ages[OF ok clk IH(1)] qt(1) by (auto simp: ages_def queue_inv_def intro: dict_get_in)
        moreover have "dict_get (waiting_d (sv_queue t)) ?rid = Some r" using w qt(1) by (simp add: still_waits_def in_waiting)
        ultimately show False using False r' by (force simp: waiting_def)
      qed
      moreover have "\<exists>q. position ?rid ?t' = Some q \<and> int (Suc k) - (2 * int n + 2) \<le> q" if "?rid \<in> set (keys (sv_active ?t'))"
      proof -
        have "dict_get (sv_active ?t') ?rid \<noteq> None" using that dict_get_eq_None[of "sv_active ?t'" ?rid] by blast
        then obtain sq where "dict_get (sv_active ?t') ?rid = Some sq" by blast
        then obtain q where q: "position ?rid ?t' = Some q" by (simp add: position_def)
        obtain p m where "acc ?rid (sv_trace ?t') = Some (p, m)" using F(3)[of ?rid] IH(3) by (metis surj_pair)
        from position_bound(1)[OF I' this q] still_waits_bound[OF w rc_loop.prems(6)] q show ?thesis by auto
      qed
      ultimately show ?thesis by blast
    qed
  next
    assume "?rid \<notin> live_ids t"
    with F(2) show ?thesis by blast
  next
    fix q assume q: "position ?rid t = Some q" "int k - (2 * int n + 2) \<le> q"
    from loop_step_position[OF ok clk IH(1) nt(1) q(1)]
    have "?rid \<notin> live_ids ?t' \<or> (\<exists>q'. position ?rid ?t' = Some q' \<and> int (Suc k) - (2 * int n + 2) \<le> q')"
      using q(2) by (auto simp del: set_map)
    then show ?thesis by blast
  qed
  with I' F(1,3) IH(2,3) show ?case by (metis (no_types, lifting))
next
  case (rc_client k s t u)
  let ?rid = "req_id r"
  have IH: "server_inv lib cells lm clk t" "sv_settings t = sv_settings s" "acc ?rid (sv_trace t) = Some v"
    "still_waits n i r s k t \<or> ?rid \<notin> live_ids t \<or> (\<exists>q. position ?rid t = Some q \<and> int k - (2 * int n + 2) \<le> q)"
    using rc_client.IH[OF rc_client.prems] by blast+
  note F = client_step_frame[OF ok rc_client.hyps(2) IH(1)] and W = client_step_waiting[OF ok IH(1) rc_client.hyps(2)]
  have aw: "awaits_decode u = awaits_decode t" using F(2) by (simp add: awaits_decode_def)
  have "still_waits n i r s k u" if "still_waits n i r s k t"
    using that W(1) W(3)[of r] unfolding still_waits_def aw by auto
  moreover have "position ?rid u = position ?rid t" using F(2,3) by (simp add: position_def awaits_decode_def)
  moreover have "?rid \<in> live_ids u \<Longrightarrow> ?rid \<in> live_ids t" using F(5)[of ?rid] IH(3) acc_accepted by (metis option.distinct(1))
  moreover have "acc ?rid (sv_trace u) = Some v" using F(4) IH(3) acc_old by metis
  moreover have "server_inv lib cells lm clk u" "sv_settings u = sv_settings s" using client_step_inv[OF ok rc_client.hyps(2) IH(1)] F(1) IH(2) by simp_all
  ultimately show ?case using IH(4) by fastforce
qed

lemma run_count_frame:
  assumes ok: "llama_ok lib cells lm" and clk: "strict_mono clk" and r: "run_count lib clk k s s'"
    and I: "server_inv lib cells lm clk s" and a: "acc rid (sv_trace s) = Some v"
  shows "server_inv lib cells lm clk s' \<and> acc rid (sv_trace s') = Some v \<and> (rid \<in> live_ids s' \<longrightarrow> rid \<in> live_ids s)"
  using r I a
proof (induction rule: run_count.induct)
  case (rc_loop k s t)
  then have t: "server_inv lib cells lm clk t" "acc rid (sv_trace t) = Some v" "rid \<in> live_ids t \<Longrightarrow> rid \<in> live_ids s" by blast+
  note F = loop_step_frame[OF ok clk t(1)]
  have "acc rid (sv_trace (loop_step lib clk t)) = Some v" using F(3)[of rid] t(2) by simp
  with loop_step_inv[OF ok clk t(1)] F(2) t(3) show ?case by blast
next
  case (rc_client k s t u)
  then have t: "server_inv lib cells lm clk t" "acc rid (sv_trace t) = Some v" "rid \<in> live_ids t \<Longrightarrow> rid \<in> live_ids s" by blast+
  note F = client_step_frame[OF ok rc_client.hyps(2) t(1)]
  have "rid \<in> live_ids u \<Longrightarrow> rid \<in> live_ids t" using F(5)[of rid] t(2) acc_accepted by (metis option.distinct(1))
  moreover have "acc rid (sv_trace u) = Some v" using F(4) t(2) acc_old by metis
  ultimately show ?case using client_step_inv[OF ok rc_client.hyps(2) t(1)] t(3) by blast
qed blast

text \<open>Every accepted request is closed in the end.\<close>

lemma every_request_leaves:
  assumes R: "runs lib cells lm clk ctx st s" and n: "0 < n_seq_max st" and a: "acc rid (sv_trace s) = Some (p, m)"
    and c: "timeout_covered n (queue_timeout_seconds st) clk" and r: "run_count lib clk k s s'"
    and k: "2 * int n + 2 + 2 * (int (length p) + m) \<le> int k"
  shows "\<exists>why. Closed rid why \<in> set (sv_trace s')"
proof -
  note ok = runsD(1)[OF R] and clk = runsD(2)[OF R] and I = runsD(4)[OF R] and S = runsD(5)[OF R]
  have n': "0 < n_seq_max (sv_settings s)" using n S by simp
  note G = run_count_frame[OF ok clk r I a]
  have I': "server_inv lib cells lm clk s'" and a': "acc rid (sv_trace s') = Some (p, m)" using G by blast+
  have m: "0 < m" using I a unfolding server_inv_def tick_inv_def hist_inv_def by fastforce
  have "rid \<notin> live_ids s'"
  proof (cases "rid \<in> queued_ids (sv_queue s)")
    case True
    have q: "queue_inv (sv_queue s)" using I by (auto simp: server_inv_def tick_inv_def ids_inv_def)
    from True obtain rq where "(rid, rq) \<in> set (waiting_d (sv_queue s))" by auto
    with q have rq: "rq \<in> set (waiting (sv_queue s))" "req_id rq = rid" by (force simp: waiting_def queue_inv_def)+
    from runs_arrivals[OF R] rq(1) obtain i where i: "i < sv_clock s" "arrival_ts rq = clk i" by (auto simp: arrivals_def)
    note W = run_count_waits[OF ok clk r I n' c[folded S] rq(1) i(2,1), unfolded rq(2), OF a]
    have "\<not> still_waits n i rq s k s'" using still_waits_bound[OF _ i(1)] k m by fastforce
    moreover have "\<not> int k - (2 * int n + 2) \<le> q" if "position rid s' = Some q" for q
      using position_bound(2)[OF I' a' that] k by linarith
    ultimately show ?thesis using W by blast
  next
    case False
    show ?thesis
    proof (cases "rid \<in> set (keys (sv_active s))")
      case True
      show ?thesis by (rule run_closes(2)[OF ok clk r I n' a True]) (use k in linarith)
    next
      case inactive: False
      with False G show ?thesis by blast
    qed
  qed
  then show ?thesis by (rule closed_if_not_live[OF I' a'])
qed

end
