(* ===== verification/Service_Spec.thy ===== *)
theory Service_Spec
  imports Llama_Runtime
begin

text \<open>
  What the server promises its clients, without queue, slots, batches, cache or clock: a set of requests, each
  of which is answered token by token with the greedy continuation of its own prompt and ended once. The steps
  of different requests interleave in any order; a request may be cancelled at any time, but it is ended
  normally only at the end token of the model or one token short of its budget.
\<close>

datatype svc_status = Open | Ended "string option"

record svc_request =
  svc_prompt :: "int list"
  svc_budget :: int
  svc_said :: "int list"
  svc_status :: svc_status

type_synonym service = "string \<rightharpoonup> svc_request"

inductive svc_step :: "(int list \<Rightarrow> float64 list) \<Rightarrow> int \<Rightarrow> service \<Rightarrow> service \<Rightarrow> bool" for lm eos where
  svc_accept: "S rid = None \<Longrightarrow> p \<noteq> [] \<Longrightarrow> 0 < m \<Longrightarrow>
     svc_step lm eos S (S(rid \<mapsto> \<lparr>svc_prompt = p, svc_budget = m, svc_said = [], svc_status = Open\<rparr>))"
| svc_say: "S rid = Some q \<Longrightarrow> svc_status q = Open \<Longrightarrow> t = greedy lm (svc_prompt q @ svc_said q) \<Longrightarrow> t \<noteq> eos \<Longrightarrow>
     int (length (svc_said q)) + 1 < svc_budget q \<Longrightarrow> svc_step lm eos S (S(rid \<mapsto> q\<lparr>svc_said := svc_said q @ [t]\<rparr>))"
| svc_finish: "S rid = Some q \<Longrightarrow> svc_status q = Open \<Longrightarrow>
     greedy lm (svc_prompt q @ svc_said q) = eos \<or> int (length (svc_said q)) + 1 = svc_budget q \<Longrightarrow>
     svc_step lm eos S (S(rid \<mapsto> q\<lparr>svc_status := Ended None\<rparr>))"
| svc_cancel: "S rid = Some q \<Longrightarrow> svc_status q = Open \<Longrightarrow> svc_step lm eos S (S(rid \<mapsto> q\<lparr>svc_status := Ended (Some why)\<rparr>))"

inductive_cases svc_stepE: "svc_step lm eos S S'"

text \<open>A request never changes its prompt or budget, never takes a token back, and stays as it is once ended.\<close>

lemma svc_step_monotone:
  assumes "svc_step lm eos S S'" "S rid = Some q"
  shows "\<exists>q'. S' rid = Some q' \<and> svc_prompt q' = svc_prompt q \<and> svc_budget q' = svc_budget q \<and> prefix (svc_said q) (svc_said q')
     \<and> (svc_status q \<noteq> Open \<longrightarrow> q' = q)"
  using assms by (auto elim!: svc_stepE)

lemma svc_steps_monotone:
  assumes "(svc_step lm eos)\<^sup>*\<^sup>* S S'" "S rid = Some q"
  shows "\<exists>q'. S' rid = Some q' \<and> svc_prompt q' = svc_prompt q \<and> svc_budget q' = svc_budget q \<and> prefix (svc_said q) (svc_said q')
     \<and> (svc_status q \<noteq> Open \<longrightarrow> q' = q)"
  using assms
proof (induction rule: rtranclp_induct)
  case (step T U)
  then obtain q1 where q1: "T rid = Some q1" "svc_prompt q1 = svc_prompt q" "svc_budget q1 = svc_budget q"
    "prefix (svc_said q) (svc_said q1)" "svc_status q \<noteq> Open \<Longrightarrow> q1 = q" by blast
  from svc_step_monotone[OF step.hyps(2) q1(1)] q1 show ?case by (metis prefix_order.trans)
qed auto

end
