(* ===== verification/Server_Refines.thy ===== *)
theory Server_Refines
  imports Server_Waiting Service_Spec
begin

text \<open>
  The server implements the service. \<open>view\<close> reads the abstract state off the history of a server; the legality
  of histories, part of the invariant, makes every event a step of the service or one it does not see.
\<close>

fun closing :: "string \<Rightarrow> event list \<Rightarrow> string option option" where
  "closing r [] = None"
| "closing r (Closed r' why # es) = (if r' = r then Some why else closing r es)"
| "closing r (_ # es) = closing r es"

definition view :: "event list \<Rightarrow> service" where
  "view tr rid = map_option (\<lambda>(p, m). \<lparr>svc_prompt = p, svc_budget = m, svc_said = toks rid tr,
     svc_status = (case closing rid tr of None \<Rightarrow> Open | Some why \<Rightarrow> Ended why)\<rparr>) (acc rid tr)"

lemma closing_append: "closing r (xs @ ys) = (case closing r xs of None \<Rightarrow> closing r ys | Some v \<Rightarrow> Some v)"
  by (induction r xs rule: closing.induct) auto

lemma closing_None: "closing r tr = None \<longleftrightarrow> (\<forall>why. Closed r why \<notin> set tr)"
  by (induction r tr rule: closing.induct) auto

lemma legal_unknown:
  assumes "legal_history lm eos tr" "acc rid tr = None"
  shows "toks rid tr = [] \<and> closing rid tr = None"
  using assms
proof (induction rule: legal_history.induct)
  case (legal_snoc tr e)
  then have "acc rid tr = None" by (auto simp: acc_append split: option.splits)
  with legal_snoc show ?case by (cases e) (auto simp: closing_append)
qed simp

lemma legal_step:
  assumes h: "legal_history lm eos tr" and e: "legal lm eos tr e"
  shows "(svc_step lm eos)\<^sup>=\<^sup>= (view tr) (view (tr @ [e]))"
proof (cases e)
  case (Accepted rid p m)
  with e have a: "acc rid tr = None" "p \<noteq> []" "0 < m" by auto
  note u = legal_unknown[OF h a(1)]
  have "view (tr @ [e]) = (view tr)(rid \<mapsto> \<lparr>svc_prompt = p, svc_budget = m, svc_said = [], svc_status = Open\<rparr>)"
    using a(1) u by (auto simp: Accepted view_def fun_eq_iff acc_append closing_append split: option.splits)
  moreover have "view tr rid = None" using a(1) by (simp add: view_def)
  ultimately show ?thesis using svc_accept[of "view tr" rid p m lm eos] a(2,3) by simp
next
  case (TokenPushed rid t)
  with e obtain p m where a: "acc rid tr = Some (p, m)" "closing rid tr = None" "t = greedy lm (p @ toks rid tr)" "t \<noteq> eos"
    "int (length (toks rid tr)) + 1 < m" by (auto simp: closing_None)
  let ?q = "\<lparr>svc_prompt = p, svc_budget = m, svc_said = toks rid tr, svc_status = Open\<rparr>"
  have q: "view tr rid = Some ?q" using a(1,2) by (simp add: view_def)
  have "view (tr @ [e]) = (view tr)(rid \<mapsto> ?q\<lparr>svc_said := svc_said ?q @ [t]\<rparr>)"
    using a(1,2) by (auto simp: TokenPushed view_def fun_eq_iff closing_append split: option.splits)
  with svc_say[of "view tr" rid ?q t lm eos] q a(3-5) show ?thesis by simp
next
  case (Closed rid why)
  with e obtain p m where a: "acc rid tr = Some (p, m)" "closing rid tr = None"
    "why = None \<Longrightarrow> greedy lm (p @ toks rid tr) = eos \<or> int (length (toks rid tr)) = m - 1" by (auto simp: closing_None)
  let ?q = "\<lparr>svc_prompt = p, svc_budget = m, svc_said = toks rid tr, svc_status = Open\<rparr>"
  have q: "view tr rid = Some ?q" using a(1,2) by (simp add: view_def)
  have "view (tr @ [e]) = (view tr)(rid \<mapsto> ?q\<lparr>svc_status := Ended why\<rparr>)"
    using a(1,2) by (auto simp: Closed view_def fun_eq_iff closing_append split: option.splits)
  with svc_finish[of "view tr" rid ?q lm eos] svc_cancel[of "view tr" rid ?q lm eos] q a(3) show ?thesis by (cases why) auto
qed (auto simp: view_def fun_eq_iff closing_append split: option.splits)

lemma legal_steps: "legal_history lm eos (tr @ es) \<Longrightarrow> (svc_step lm eos)\<^sup>*\<^sup>* (view tr) (view (tr @ es))"
proof (induction es rule: rev_induct)
  case (snoc e es)
  then have "legal_history lm eos (tr @ es)" "legal lm eos (tr @ es) e" using legal_historyD[of lm eos "tr @ es" e] by simp_all
  with snoc.IH legal_step[of lm eos "tr @ es" e] show ?case by (auto intro: rtranclp.rtrancl_into_rtrancl)
qed simp

lemma server_step_trace:
  assumes ok: "llama_ok lib cells lm" and clk: "strict_mono clk" and I: "server_inv lib cells lm clk s" and st: "server_step lib clk s s'"
  shows "prefix (sv_trace s) (sv_trace s')"
  using st
proof cases
  case step_loop
  then show ?thesis using loop_step_ages[OF ok clk I] by (simp add: ages_def)
next
  case step_client
  then show ?thesis using client_step_frame(4)[OF ok _ I] by (auto simp: prefix_def)
qed

lemma server_step_refines:
  assumes R: "runs lib cells lm clk ctx st s" and st: "server_step lib clk s s'"
  shows "(svc_step lm (lib_token_eos lib))\<^sup>*\<^sup>* (view (sv_trace s)) (view (sv_trace s'))"
proof -
  note ok = runsD(1)[OF R] and clk = runsD(2)[OF R] and I = runsD(4)[OF R]
  obtain es where es: "sv_trace s' = sv_trace s @ es" using server_step_trace[OF ok clk I st] by (auto simp: prefix_def)
  have "legal_history lm (lib_token_eos lib) (sv_trace s')"
    using server_step_inv(1)[OF ok clk st I] unfolding server_inv_def tick_inv_def hist_inv_def by blast
  with es legal_steps show ?thesis by metis
qed

lemma runs_refines:
  assumes "runs lib cells lm clk ctx st s"
  shows "(svc_step lm (lib_token_eos lib))\<^sup>*\<^sup>* Map.empty (view (sv_trace s))"
proof -
  have "legal_history lm (lib_token_eos lib) ([] @ sv_trace s)"
    using tick_invD(8)[OF runsD(6)[OF assms]] unfolding hist_inv_def by simp
  moreover have "view [] = Map.empty" by (simp add: view_def fun_eq_iff)
  ultimately show ?thesis using legal_steps[of lm "lib_token_eos lib" "[]"] by simp
qed

lemma view_live:
  assumes "runs lib cells lm clk ctx st s"
  shows "(\<exists>q. view (sv_trace s) rid = Some q \<and> svc_status q = Open) \<longleftrightarrow> rid \<in> live_ids s"
proof -
  note H = tick_invD(8)[OF runsD(6)[OF assms]]
  have "rid \<in> live_ids s \<longleftrightarrow> acc rid (sv_trace s) \<noteq> None \<and> closing rid (sv_trace s) = None"
    unfolding closing_None using H unfolding hist_inv_def by (metis (no_types, lifting) not_None_eq surj_pair)
  then show ?thesis by (auto simp: view_def split: option.splits)
qed

end
