(* ===== verification/Demo_Client.thy ===== *)
theory Demo_Client
  imports Server_Ops
begin

text \<open>
  The script of the demo page, \<^verbatim>\<open>tinyserve/api/static/demo.html\<close>: the cards of a burst (\<open>runBurst\<close>), the request
  a card sends and the life of a card (\<open>streamOne\<close>), the tallies and the statistics over the cards. The frame
  reader itself is in \<open>Sse_Stream\<close>; here it is fed by the browser's \<open>TextDecoder\<close>, so that the body of the response
  is bytes, cut anywhere, also inside a character.

  A card is a small state machine driven by what \<open>fetch\<close> and \<open>reader.read()\<close> give. \<open>card_ok\<close> is its invariant.
  Drawing (\<open>render\<close> apart from the tallies) and the log are left out. A reading of \<open>performance.now()\<close> comes with the
  event after which the code takes it.
\<close>

section \<open>The text decoder\<close>

text \<open>
  \<open>new TextDecoder()\<close> and \<open>decode(chunk, {stream: true})\<close>: UTF-8 with replacement, where a byte order mark is dropped
  if it is the first character of the stream.
\<close>

record text_decoder =
  td_pending :: bytes
  td_bom_seen :: bool

definition text_decoder_init :: text_decoder where
  "text_decoder_init = \<lparr>td_pending = [], td_bom_seen = False\<rparr>"

definition strip_bom :: "bool \<Rightarrow> ustring \<Rightarrow> ustring" where
  "strip_bom seen t = (if seen then t else case t of [] \<Rightarrow> [] | c # u \<Rightarrow> if c = 65279 then u else t)"

definition td_decode :: "bytes \<Rightarrow> text_decoder \<Rightarrow> ustring \<times> text_decoder" where
  "td_decode chunk d =
     (case utf8_decode False (td_pending d @ chunk) of (t, rest) \<Rightarrow>
        (strip_bom (td_bom_seen d) t, \<lparr>td_pending = rest, td_bom_seen = td_bom_seen d \<or> t \<noteq> []\<rparr>))"

section \<open>Cards\<close>

datatype card_state = CardQueued | CardStreaming | CardDone | CardRejected | CardError

record card =
  card_n :: nat
  card_prompt :: ustring
  card_maxTokens :: int
  card_priority :: int
  card_state :: card_state
  card_text :: ustring
  card_tokens :: nat
  card_ttft :: "float64 option"
  card_elapsed :: float64
  card_reason :: string
  card_error :: string

definition LOW_PRIORITY :: int where
  "LOW_PRIORITY = 1"

definition HIGH_PRIORITY :: int where
  "HIGH_PRIORITY = 5"

definition clamp :: "int \<Rightarrow> int \<Rightarrow> int \<Rightarrow> int" where
  "clamp v lo hi = max lo (min hi v)"

record opts =
  opt_n :: int
  opt_maxTokens :: int
  opt_mixed :: bool
  opt_prompt :: ustring
  opt_highLast :: int

definition utext :: "string \<Rightarrow> ustring" where
  "utext s = map of_char s"

text \<open>
  \<open>readOpts\<close>, on what the controls hold: the numbers as \<open>parseInt\<close> reads them (\<open>None\<close> for \<open>NaN\<close>), the prompt as
  \<open>trim\<close> leaves it. \<open>||\<close> takes its right side also for zero and for the empty string.
\<close>

definition or_number :: "int option \<Rightarrow> int \<Rightarrow> int" where
  "or_number v d = (case v of None \<Rightarrow> d | Some x \<Rightarrow> if x = 0 then d else x)"

definition readOpts :: "int option \<Rightarrow> int option \<Rightarrow> bool \<Rightarrow> ustring \<Rightarrow> opts" where
  "readOpts n mt mixed prompt =
     \<lparr>opt_n = clamp (or_number n 1) 1 64, opt_maxTokens = clamp (or_number mt 24) 8 128, opt_mixed = mixed,
      opt_prompt = (if prompt = [] then utext ''Summarize the plot of a {genre} novel in two sentences.'' else prompt),
      opt_highLast = 0\<rparr>"

definition GENRES :: "string list" where
  "GENRES = [''mystery'', ''science fiction'', ''romance'', ''fantasy'', ''horror'', ''western'', ''thriller'',
     ''historical'', ''comedy'', ''adventure'', ''dystopian'', ''spy'', ''crime'', ''fairy-tale'', ''war'',
     ''coming-of-age'']"

text \<open>\<open>s.split(sep).join(by)\<close> for a separator that is not empty.\<close>

function split_join :: "ustring \<Rightarrow> ustring \<Rightarrow> ustring \<Rightarrow> ustring" where
  "split_join sep joint s =
     (case s of [] \<Rightarrow> []
      | c # s' \<Rightarrow>
          if sep \<noteq> [] \<and> take (length sep) s = sep then joint @ split_join sep joint (drop (length sep) s)
          else c # split_join sep joint s')"
  by pat_completeness auto
termination by (relation "measure (\<lambda>(sep, joint, s). length s)") auto

declare split_join.simps [simp del]

definition promptFor :: "ustring \<Rightarrow> nat \<Rightarrow> ustring" where
  "promptFor template i = split_join (utext ''{genre}'') (utext (GENRES ! (i mod length GENRES))) template"

definition card_priority_of :: "opts \<Rightarrow> nat \<Rightarrow> int" where
  "card_priority_of o' i =
     (if opt_highLast o' \<noteq> 0 then (if opt_n o' - opt_highLast o' \<le> int i then HIGH_PRIORITY else LOW_PRIORITY)
      else if opt_mixed o' \<and> i mod 4 = 3 then HIGH_PRIORITY else LOW_PRIORITY)"

definition new_card :: "opts \<Rightarrow> nat \<Rightarrow> card" where
  "new_card o' i =
     \<lparr>card_n = i + 1, card_prompt = promptFor (opt_prompt o') i, card_maxTokens = opt_maxTokens o',
      card_priority = card_priority_of o' i, card_state = CardQueued, card_text = [], card_tokens = 0,
      card_ttft = None, card_elapsed = 0, card_reason = [], card_error = []\<rparr>"

definition burst_cards :: "opts \<Rightarrow> card list" where
  "burst_cards o' = map (new_card o') [0..<nat (opt_n o')]"

section \<open>The life of a card\<close>

text \<open>The body that \<open>streamOne\<close> posts.\<close>

definition card_request :: "card \<Rightarrow> generate_request" where
  "card_request c =
     \<lparr>gr_prompt = card_prompt c, gr_max_tokens = card_maxTokens c, gr_stream = True, gr_priority = card_priority c\<rparr>"

text \<open>
  What \<open>fetch\<close> gives: a failure, or a status, the field \<open>detail.reason\<close> of a JSON body if there is one, and whether
  there is a body.
\<close>

datatype fetch_result = FetchFailed | Fetched (fetch_status: nat) (fetch_reason: "string option") (fetch_body: bool)

datatype read_result = ReadFailed | ReadDone | ReadChunk bytes

fun decimal :: "nat \<Rightarrow> string" where
  "decimal n = (if n < 10 then [char_of (48 + n)] else decimal (n div 10) @ [char_of (48 + n mod 10)])"

declare decimal.simps [simp del]

text \<open>The body of the inner loop for one text; \<open>now\<close> is read only for the first.\<close>

definition show_text :: "float64 \<Rightarrow> float64 \<Rightarrow> ustring \<Rightarrow> card \<Rightarrow> card" where
  "show_text t0 now t c =
     (let c1 = (if card_ttft c = None then c\<lparr>card_ttft := Some (fsub now t0), card_state := CardStreaming\<rparr> else c)
      in c1\<lparr>card_text := card_text c1 @ t, card_tokens := card_tokens c1 + 1\<rparr>)"

record body_reader =
  br_decoder :: text_decoder
  br_buf :: ustring

definition read_chunk :: "float64 \<Rightarrow> float64 \<Rightarrow> bytes \<Rightarrow> body_reader \<times> card \<Rightarrow> body_reader \<times> card" where
  "read_chunk t0 now chunk st =
     (case st of (br, c) \<Rightarrow>
      case td_decode chunk (br_decoder br) of (t, d) \<Rightarrow>
      case read_frames (br_buf br @ t) of (ts, left) \<Rightarrow>
        (\<lparr>br_decoder = d, br_buf = left\<rparr>, fold (show_text t0 now) ts c))"

text \<open>
  The read loop over the results of \<open>reader.read()\<close>, each with the time at which it is handled. When they end
  without \<open>ReadDone\<close> or \<open>ReadFailed\<close>, the card is as it stands while the next one is awaited.
\<close>

fun read_body :: "float64 \<Rightarrow> (float64 \<times> read_result) list \<Rightarrow> body_reader \<times> card \<Rightarrow> card" where
  "read_body t0 [] (br, c) = c"
| "read_body t0 ((now, ReadFailed) # rs) (br, c) = c\<lparr>card_state := CardError, card_error := ''stream interrupted''\<rparr>"
| "read_body t0 ((now, ReadDone) # rs) (br, c) = c\<lparr>card_state := CardDone, card_elapsed := fsub now t0\<rparr>"
| "read_body t0 ((now, ReadChunk chunk) # rs) (br, c) = read_body t0 rs (read_chunk t0 now chunk (br, c))"

definition body_reader_init :: body_reader where
  "body_reader_init = \<lparr>br_decoder = text_decoder_init, br_buf = []\<rparr>"

definition streamOne :: "float64 \<Rightarrow> fetch_result \<Rightarrow> (float64 \<times> read_result) list \<Rightarrow> card \<Rightarrow> card" where
  "streamOne t0 res got c =
     (case res of
        FetchFailed \<Rightarrow> c\<lparr>card_state := CardError, card_error := ''connection failed''\<rparr>
      | Fetched status why body \<Rightarrow>
          if status = 503
          then c\<lparr>card_state := CardRejected,
                 card_reason := (case why of Some r \<Rightarrow> if r = [] then ''rejected'' else r | None \<Rightarrow> ''rejected'')\<rparr>
          else if \<not> (200 \<le> status \<and> status < 300) \<or> \<not> body
          then c\<lparr>card_state := CardError, card_error := ''HTTP '' @ decimal status\<rparr>
          else read_body t0 got (body_reader_init, c))"

text \<open>The status line and the error body that the server's answer to \<open>POST /generate\<close> becomes.\<close>

fun answered :: "response \<Rightarrow> fetch_result" where
  "answered UnprocessableEntity = Fetched 422 None True"
| "answered BadRequest = Fetched 400 None True"
| "answered (ServiceUnavailable why) = Fetched 503 (Some why) True"
| "answered (InternalServerError e) = Fetched 500 None True"
| "answered _ = Fetched 200 None True"

section \<open>Tallies and statistics\<close>

record tallies =
  t_acc :: nat
  t_rej :: nat
  t_str :: nat
  t_done :: nat
  t_tok :: nat

definition tally :: "card \<Rightarrow> tallies \<Rightarrow> tallies" where
  "tally c t =
     (let t1 = (if card_state c = CardRejected then t\<lparr>t_rej := t_rej t + 1\<rparr>
                else if card_state c \<noteq> CardError then t\<lparr>t_acc := t_acc t + 1\<rparr> else t);
          t2 = (if card_state c = CardStreaming then t1\<lparr>t_str := t_str t1 + 1\<rparr> else t1);
          t3 = (if card_state c = CardDone then t2\<lparr>t_done := t_done t2 + 1\<rparr> else t2)
      in t3\<lparr>t_tok := t_tok t3 + card_tokens c\<rparr>)"

definition updateTallies :: "card list \<Rightarrow> tallies" where
  "updateTallies cs = fold tally cs \<lparr>t_acc = 0, t_rej = 0, t_str = 0, t_done = 0, t_tok = 0\<rparr>"

definition mean :: "float64 list \<Rightarrow> float64 option" where
  "mean xs = (if xs = [] then None else Some (fl (foldl fadd 0 xs / of_nat (length xs))))"

record stats =
  stat_policy :: string
  stat_accepted :: nat
  stat_rejected :: nat
  stat_lowMean :: "float64 option"
  stat_highMean :: "float64 option"
  stat_tokens :: nat
  stat_seconds :: float64

definition class_ttfts :: "int \<Rightarrow> card list \<Rightarrow> float64 list" where
  "class_ttfts p cs = map (\<lambda>c. the (card_ttft c)) (filter (\<lambda>c. card_priority c = p \<and> card_ttft c \<noteq> None) cs)"

text \<open>The end of \<open>runBurst\<close>, after all cards have returned.\<close>

definition burst_stats :: "string \<Rightarrow> float64 \<Rightarrow> float64 \<Rightarrow> card list \<Rightarrow> stats" where
  "burst_stats policyName t0 now cs =
     \<lparr>stat_policy = policyName,
      stat_accepted = length (filter (\<lambda>c. card_state c = CardDone \<or> card_state c = CardStreaming) cs),
      stat_rejected = length (filter (\<lambda>c. card_state c = CardRejected) cs),
      stat_lowMean = mean (class_ttfts LOW_PRIORITY cs), stat_highMean = mean (class_ttfts HIGH_PRIORITY cs),
      stat_tokens = sum_list (map card_tokens cs), stat_seconds = fl (fsub now t0 / 1000)\<rparr>"

section \<open>Reading bytes\<close>

lemma strip_bom_append: "strip_bom False (t @ u) = strip_bom False t @ strip_bom (t \<noteq> []) u"
  by (cases t) (auto simp: strip_bom_def)

lemma strip_bom_plain: "take 1 t \<noteq> [65279] \<Longrightarrow> strip_bom seen t = t"
  by (cases t) (auto simp: strip_bom_def)

lemma fold_show_text:
  "card_text (fold (show_text t0 now) ts c) = card_text c @ concat ts"
  "card_tokens (fold (show_text t0 now) ts c) = card_tokens c + length ts"
  "card_ttft (fold (show_text t0 now) ts c) = (if ts = [] \<or> card_ttft c \<noteq> None then card_ttft c else Some (fsub now t0))"
  "card_state (fold (show_text t0 now) ts c) = (if ts = [] \<or> card_ttft c \<noteq> None then card_state c else CardStreaming)"
  by (induction ts arbitrary: c) (auto simp: show_text_def)

text \<open>
  The state of the loop after the bytes \<open>b\<close>, in whatever pieces they came: everything is a function of \<open>b\<close>
  but the times.
\<close>

definition has_read :: "bytes \<Rightarrow> body_reader \<Rightarrow> card \<Rightarrow> bool" where
  "has_read b br c \<longleftrightarrow>
     (case utf8_decode False b of (t, rest) \<Rightarrow> case read_frames (strip_bom False t) of (ts, left) \<Rightarrow>
        br = \<lparr>br_decoder = \<lparr>td_pending = rest, td_bom_seen = (t \<noteq> [])\<rparr>, br_buf = left\<rparr>
        \<and> card_text c = concat ts \<and> card_tokens c = length ts \<and> (card_ttft c = None \<longleftrightarrow> ts = [])
        \<and> card_state c = (if ts = [] then CardQueued else CardStreaming))"

lemma has_read_chunk:
  assumes "has_read b br c" "read_chunk t0 now chunk (br, c) = (br', c')"
  shows "has_read (b @ chunk) br' c'"
proof -
  obtain t rest where t: "utf8_decode False b = (t, rest)" by force
  obtain ts left where f: "read_frames (strip_bom False t) = (ts, left)" by force
  obtain u rest' where u: "utf8_decode False (rest @ chunk) = (u, rest')" by force
  obtain us left' where g: "read_frames (left @ strip_bom (t \<noteq> []) u) = (us, left')" by force
  have d: "utf8_decode False (b @ chunk) = (t @ u, rest')" using utf8_decode_append[of False b chunk] t u by simp
  have r: "read_frames (strip_bom False (t @ u)) = (ts @ us, left')"
    using read_frames_append[of "strip_bom False t" "strip_bom (t \<noteq> []) u"] f g by (simp add: strip_bom_append)
  show ?thesis using assms t f u g
    unfolding has_read_def d r by (auto simp: read_chunk_def td_decode_def d r fold_show_text)
qed

lemma read_body_chunks:
  assumes "has_read b br c"
  shows "\<exists>br' c'. has_read (b @ concat (map snd pieces)) br' c'
     \<and> read_body t0 (map (map_prod id ReadChunk) pieces @ rs) (br, c) = read_body t0 rs (br', c')"
  using assms
proof (induction pieces arbitrary: b br c)
  case Nil
  then show ?case by auto
next
  case (Cons x pieces)
  obtain now chunk where x: "x = (now, chunk)" by force
  obtain br1 c1 where st: "read_chunk t0 now chunk (br, c) = (br1, c1)" by force
  from Cons.IH[OF has_read_chunk[OF Cons.prems st]] show ?case by (simp add: x st)
qed

definition fresh_card :: "card \<Rightarrow> bool" where
  "fresh_card c \<longleftrightarrow> card_state c = CardQueued \<and> card_text c = [] \<and> card_tokens c = 0 \<and> card_ttft c = None"

lemma has_read_init: "fresh_card c \<Longrightarrow> has_read [] body_reader_init c"
  by (simp add: fresh_card_def has_read_def strip_bom_def read_frames.simps[of "[]"] body_reader_init_def text_decoder_init_def)

lemma new_card_fresh [simp]: "fresh_card (new_card o' i)"
  by (simp add: fresh_card_def new_card_def)

text \<open>A body that is read to its end, in pieces cut anywhere.\<close>

lemma streamOne_complete:
  assumes "fresh_card c" "list_all scalar u" "take 1 u \<noteq> [65279]" "concat (map snd pieces) = utf8_encode u"
    and "read_frames u = (ts, left)" "200 \<le> status" "status < 300"
  shows "\<exists>c'. streamOne t0 (Fetched status why True) (map (map_prod id ReadChunk) pieces @ [(now, ReadDone)]) c = c'
     \<and> card_state c' = CardDone \<and> card_text c' = concat ts \<and> card_tokens c' = length ts
     \<and> (card_ttft c' = None \<longleftrightarrow> ts = []) \<and> card_elapsed c' = fsub now t0"
proof -
  obtain br c1 where R: "has_read (utf8_encode u) br c1"
    "read_body t0 (map (map_prod id ReadChunk) pieces @ [(now, ReadDone)]) (body_reader_init, c)
       = read_body t0 [(now, ReadDone)] (br, c1)"
    using read_body_chunks[OF has_read_init[OF assms(1)], of pieces] assms(4) by fastforce
  from R(1) have "card_text c1 = concat ts" "card_tokens c1 = length ts" "card_ttft c1 = None \<longleftrightarrow> ts = []"
    by (simp_all add: has_read_def utf8_roundtrip[OF assms(2)] strip_bom_plain[OF assms(3)] assms(5))
  with R(2) assms(6,7) show ?thesis by (auto simp: streamOne_def)
qed

text \<open>The same for the frames of the server.\<close>

lemma streamOne_frames:
  assumes "fresh_card c" "\<forall>t \<in> set ts. list_all scalar t \<and> 10 \<notin> set t"
    and "concat (map snd pieces) = utf8_encode (concat (map sse_frame ts))"
  shows "\<exists>c'. streamOne t0 (Fetched 200 why True) (map (map_prod id ReadChunk) pieces @ [(now, ReadDone)]) c = c'
     \<and> card_state c' = CardDone \<and> card_text c' = concat ts \<and> card_tokens c' = length (filter (\<lambda>t. t \<noteq> []) ts)
     \<and> (card_ttft c' = None \<longleftrightarrow> concat ts = [])"
proof -
  let ?u = "concat (map sse_frame ts)"
  have s: "list_all scalar ?u" using assms(2) by (auto simp: list_all_iff sse_frame_def scalar_def)
  have h: "take 1 ?u \<noteq> [65279]" by (cases ts) (auto simp: sse_frame_def)
  have r: "read_frames ?u = (filter (\<lambda>t. t \<noteq> []) ts, [])" using assms(2) by (intro read_frames_texts) blast
  have "concat (filter (\<lambda>t. t \<noteq> []) ts) = concat ts" by (induction ts) auto
  with streamOne_complete[OF assms(1) s h assms(3) r, of 200 t0 why now] show ?thesis by (auto simp: filter_empty_conv)
qed

section \<open>States of a card\<close>

text \<open>
  The invariant of a card, kept by every event: texts are only shown once the first one was timed, and a card
  that still waits, or was rejected, shows nothing.
\<close>

definition card_ok :: "card \<Rightarrow> bool" where
  "card_ok c \<longleftrightarrow> (card_ttft c = None \<longleftrightarrow> card_tokens c = 0) \<and> (card_tokens c = 0 \<longrightarrow> card_text c = [])
     \<and> (card_state c = CardStreaming \<longrightarrow> 0 < card_tokens c)
     \<and> (card_state c \<in> {CardQueued, CardRejected} \<longrightarrow> card_tokens c = 0)"

definition card_returned :: "card \<Rightarrow> bool" where
  "card_returned c \<longleftrightarrow> card_state c \<in> {CardDone, CardRejected, CardError}"

lemma card_ok_show:
  assumes "card_ok c" "card_state c \<in> {CardQueued, CardStreaming}"
  shows "card_ok (fold (show_text t0 now) ts c)" "card_state (fold (show_text t0 now) ts c) \<in> {CardQueued, CardStreaming}"
  using assms fold_show_text[of t0 now ts c] unfolding card_ok_def by (cases "ts = []"; cases "card_ttft c"; simp)+

lemma read_body_card_ok:
  assumes "card_ok c" "card_state c \<in> {CardQueued, CardStreaming}"
  shows "card_ok (read_body t0 rs (br, c))"
    and "\<exists>now. (now, ReadDone) \<in> set rs \<or> (now, ReadFailed) \<in> set rs \<Longrightarrow> card_returned (read_body t0 rs (br, c))"
proof -
  have "card_ok (read_body t0 rs (br, c))
     \<and> ((\<exists>now. (now, ReadDone) \<in> set rs \<or> (now, ReadFailed) \<in> set rs) \<longrightarrow> card_returned (read_body t0 rs (br, c)))"
    using assms
  proof (induction t0 rs "(br, c)" arbitrary: br c rule: read_body.induct)
    case (4 t0 now chunk rs br c)
    obtain br' c' where st: "read_chunk t0 now chunk (br, c) = (br', c')" by force
    then obtain ts where "c' = fold (show_text t0 now) ts c" by (auto simp: read_chunk_def split: prod.splits)
    with card_ok_show[OF "4.prems"] have "card_ok c'" "card_state c' \<in> {CardQueued, CardStreaming}" by auto
    from "4.hyps"[OF st this] show ?case by (auto simp: st)
  qed (auto simp: card_ok_def card_returned_def)
  then show "card_ok (read_body t0 rs (br, c))"
    "\<exists>now. (now, ReadDone) \<in> set rs \<or> (now, ReadFailed) \<in> set rs \<Longrightarrow> card_returned (read_body t0 rs (br, c))" by blast+
qed

lemma fresh_card_ok: "fresh_card c \<Longrightarrow> card_ok c \<and> card_state c \<in> {CardQueued, CardStreaming}"
  by (simp add: fresh_card_def card_ok_def)

lemma streamOne_card_ok:
  assumes "fresh_card c"
  shows "card_ok (streamOne t0 res rs c)"
    and "\<exists>now. (now, ReadDone) \<in> set rs \<or> (now, ReadFailed) \<in> set rs \<Longrightarrow> card_returned (streamOne t0 res rs c)"
  using read_body_card_ok[OF fresh_card_ok[OF assms, THEN conjunct1] fresh_card_ok[OF assms, THEN conjunct2]] assms
  by (auto simp: streamOne_def fresh_card_def card_ok_def card_returned_def split: fetch_result.split)

section \<open>Tallies against statistics\<close>

lemma fold_tally:
  "t_acc (fold tally cs t) = t_acc t + length (filter (\<lambda>c. card_state c \<notin> {CardRejected, CardError}) cs)"
  "t_rej (fold tally cs t) = t_rej t + length (filter (\<lambda>c. card_state c = CardRejected) cs)"
  "t_str (fold tally cs t) = t_str t + length (filter (\<lambda>c. card_state c = CardStreaming) cs)"
  "t_done (fold tally cs t) = t_done t + length (filter (\<lambda>c. card_state c = CardDone) cs)"
  "t_tok (fold tally cs t) = t_tok t + sum_list (map card_tokens cs)"
  by (induction cs arbitrary: t) (auto simp: tally_def Let_def)

text \<open>
  While a burst runs, the tally of accepted cards includes those that still wait for an answer; once all cards
  have returned it is the number in the statistics, and all accepted cards are done.
\<close>

lemma tallies_match_stats:
  assumes "list_all card_returned cs"
  shows "t_acc (updateTallies cs) = stat_accepted (burst_stats name t0 now cs)"
    "t_rej (updateTallies cs) = stat_rejected (burst_stats name t0 now cs)"
    "t_tok (updateTallies cs) = stat_tokens (burst_stats name t0 now cs)"
    "t_done (updateTallies cs) = t_acc (updateTallies cs)" "t_str (updateTallies cs) = 0"
proof -
  have e: "filter (\<lambda>c. card_state c \<notin> {CardRejected, CardError}) cs = filter (\<lambda>c. card_state c = CardDone) cs"
    "filter (\<lambda>c. card_state c = CardDone \<or> card_state c = CardStreaming) cs = filter (\<lambda>c. card_state c = CardDone) cs"
    "filter (\<lambda>c. card_state c = CardStreaming) cs = []"
    using assms by (auto simp: list_all_iff card_returned_def filter_empty_conv intro!: filter_cong)
  show "t_acc (updateTallies cs) = stat_accepted (burst_stats name t0 now cs)"
    "t_rej (updateTallies cs) = stat_rejected (burst_stats name t0 now cs)"
    "t_tok (updateTallies cs) = stat_tokens (burst_stats name t0 now cs)"
    "t_done (updateTallies cs) = t_acc (updateTallies cs)" "t_str (updateTallies cs) = 0"
    by (simp_all only: updateTallies_def burst_stats_def fold_tally e stats.select_convs tallies.select_convs list.size add_0)
qed

section \<open>The requests of a burst\<close>

lemma split_join_nonempty: "joint \<noteq> [] \<Longrightarrow> s \<noteq> [] \<Longrightarrow> split_join sep joint s \<noteq> []"
  by (subst split_join.simps) (auto split: list.split)

lemma GENRES_nonempty: "utext (GENRES ! (i mod length GENRES)) \<noteq> []"
proof -
  have "list_all (\<lambda>g. g \<noteq> []) GENRES" by (simp add: GENRES_def)
  moreover have "i mod length GENRES < length GENRES" by (rule mod_less_divisor) (simp add: GENRES_def)
  ultimately show ?thesis by (simp add: list_all_length utext_def)
qed

text \<open>Whatever the controls hold, every request of a burst passes the validation of the server.\<close>

lemma burst_requests_valid:
  assumes "c \<in> set (burst_cards (readOpts n mt mixed prompt))"
  shows "generate_request_valid (card_request c) \<and> card_ok c \<and> card_n c \<le> 64"
proof -
  from assms obtain i where c: "c = new_card (readOpts n mt mixed prompt) i" and i: "int i < 64"
    by (auto simp: burst_cards_def readOpts_def clamp_def)
  have "promptFor (opt_prompt (readOpts n mt mixed prompt)) i \<noteq> []"
    unfolding promptFor_def by (intro split_join_nonempty GENRES_nonempty) (simp add: readOpts_def utext_def)
  then have "generate_request_valid (card_request c)" "card_n c \<le> 64" using i unfolding c
    by (auto simp: generate_request_valid_def card_request_def new_card_def readOpts_def clamp_def Suc_le_eq
        card_priority_of_def HIGH_PRIORITY_def LOW_PRIORITY_def)
  moreover have "card_ok c" unfolding c using fresh_card_ok[OF new_card_fresh] by blast
  ultimately show ?thesis by blast
qed

text \<open>A mixed burst has one card of high priority in four, the comparison exactly the last ones.\<close>

lemma mixed_count: "length (filter (\<lambda>i. i mod 4 = (3::nat)) [0..<n]) = n div 4"
  by (induction n) (auto simp: div_Suc mod_Suc)

lemma burst_high_cards:
  assumes "opt_n o' = int k"
  shows "opt_highLast o' = 0 \<Longrightarrow> length (filter (\<lambda>c. card_priority c = HIGH_PRIORITY) (burst_cards o'))
       = (if opt_mixed o' then k div 4 else 0)"
    and "opt_highLast o' = int h \<Longrightarrow> 0 < h \<Longrightarrow> map card_priority (burst_cards o')
       = map (\<lambda>i. if k \<le> i + h then HIGH_PRIORITY else LOW_PRIORITY) [0..<k]"
  using assms mixed_count[of k]
  by (auto simp: burst_cards_def new_card_def card_priority_of_def filter_map comp_def HIGH_PRIORITY_def LOW_PRIORITY_def)

end
