(* ===== verification/Bench_Common.thy ===== *)
theory Bench_Common
  imports Sse_Stream TS_Float
begin

text \<open>
  The two computations the benchmark scripts share, from \<^verbatim>\<open>benchmarks/_common.py\<close>: the client that reads a
  streamed answer line by line and times it (\<open>stream_generate\<close>), and the interpolated percentile of the
  measured times. The HTTP client is a third-party package: the status and the lines of a response are
  arguments. \<open>clk\<close> gives the readings of \<open>time.perf_counter()\<close> in order.
\<close>

section \<open>Reading a streamed answer\<close>

record request_result =
  rr_index :: int
  status_code :: int
  ttft_seconds :: "float64 option"
  total_seconds :: float64
  rr_tokens_emitted :: int
  rr_priority :: int

definition is_data_line :: "ustring \<Rightarrow> bool" where
  "is_data_line line \<longleftrightarrow> take 5 line = [100, 97, 116, 97, 58]"

text \<open>The loop over the lines; its state is the first-token time, the count and the number of clock readings.\<close>

fun read_lines :: "(nat \<Rightarrow> float64) \<Rightarrow> float64 \<Rightarrow> ustring list \<Rightarrow> float64 option \<times> int \<times> nat \<Rightarrow> float64 option \<times> int \<times> nat" where
  "read_lines clk start [] st = st"
| "read_lines clk start (line # lines) (ttft, tokens, k) =
     (if \<not> is_data_line line then read_lines clk start lines (ttft, tokens, k)
      else if ttft = None then read_lines clk start lines (Some (fsub (clk k) start), tokens + 1, Suc k)
      else read_lines clk start lines (ttft, tokens + 1, k))"

definition stream_generate :: "(nat \<Rightarrow> float64) \<Rightarrow> int \<Rightarrow> ustring list \<Rightarrow> int \<Rightarrow> int \<Rightarrow> request_result" where
  "stream_generate clk status lines prio index =
     (let start = clk 0;
          (ttft, tokens, k) = (if status = 200 then read_lines clk start lines (None, 0, 1) else (None, 0, 1))
      in \<lparr>rr_index = index, status_code = status, ttft_seconds = ttft, total_seconds = fsub (clk k) start,
          rr_tokens_emitted = tokens, rr_priority = prio\<rparr>)"

lemma read_lines_result:
  "read_lines clk start lines (ttft, n, k) =
     (if ttft \<noteq> None \<or> filter is_data_line lines = [] then (ttft, n + int (length (filter is_data_line lines)), k)
      else (Some (fsub (clk k) start), n + int (length (filter is_data_line lines)), Suc k))"
  by (induction lines arbitrary: ttft n k) auto

text \<open>
  The lines of the frames of some texts that contain no line break, as an HTTP client that splits the body
  at line breaks delivers them: a data line and an empty line for each.
\<close>

definition frame_lines :: "ustring list \<Rightarrow> ustring list" where
  "frame_lines ts = concat (map (\<lambda>t. [[100, 97, 116, 97, 58, 32] @ t, []]) ts)"

lemma frame_lines_split:
  "\<forall>t \<in> set ts. 10 \<notin> set t \<Longrightarrow> split_lines (concat (map sse_frame ts)) = frame_lines ts @ [[]]"
proof (induction ts)
  case (Cons t ts)
  have "split_lines (sse_frame t @ r) = [[100, 97, 116, 97, 58, 32] @ t, []] @ split_lines r" for r
    using split_lines_newline[of "[100, 97, 116, 97, 58, 32] @ t" "10 # r"] Cons.prems by (simp add: sse_frame_def)
  with Cons show ?case by (simp add: frame_lines_def)
qed (simp add: frame_lines_def)

lemma filter_frame_lines: "filter is_data_line (frame_lines ts) = map (\<lambda>t. [100, 97, 116, 97, 58, 32] @ t) ts"
  by (induction ts) (auto simp: frame_lines_def is_data_line_def)

text \<open>
  What the benchmark reports as the tokens of an answer is the number of its texts, and the time to the first
  one is missing exactly when there is none and never exceeds the total.
\<close>

theorem bench_counts_texts:
  assumes "mono clk" "r = stream_generate clk 200 (frame_lines ts) prio index"
  shows "rr_tokens_emitted r = int (length ts) \<and> (ttft_seconds r = None) = (ts = [])
     \<and> (\<forall>t. ttft_seconds r = Some t \<longrightarrow> 0 \<le> t \<and> t \<le> total_seconds r)"
proof -
  have "0 \<le> fsub (clk (Suc 0)) (clk 0)" "fsub (clk (Suc 0)) (clk 0) \<le> fsub (clk (Suc (Suc 0))) (clk 0)"
    using monoD[OF assms(1), of 0 "Suc 0"] monoD[OF assms(1), of "Suc 0" "Suc (Suc 0)"]
    by (auto simp: fsub_def intro: fl_nonneg fl_mono)
  then show ?thesis using assms(2) by (auto simp: stream_generate_def read_lines_result filter_frame_lines Let_def)
qed

section \<open>Percentiles\<close>

text \<open>
  \<open>xs[i]\<close> with Python's negative indices, and \<open>int\<close> of a float, which truncates. The \<open>nan\<close> of an empty list is
  \<open>None\<close>.
\<close>

definition py_index :: "'a list \<Rightarrow> int \<Rightarrow> 'a res" where
  "py_index xs i =
     (let j = (if i < 0 then i + int (length xs) else i)
      in if 0 \<le> j \<and> j < int (length xs) then Inr (xs ! nat j) else Inl IndexError)"

definition py_int :: "float64 \<Rightarrow> int" where
  "py_int x = (if x < 0 then \<lceil>x\<rceil> else \<lfloor>x\<rfloor>)"

definition percentile :: "float64 list \<Rightarrow> float64 \<Rightarrow> float64 option res" where
  "percentile values p =
     (if values = [] then Inr None
      else let ordered = sort values;
               rank = fl (fl (of_int (int (length ordered) - 1)) * p);
               lower = py_int rank;
               upper = min (lower + 1) (int (length ordered) - 1)
           in if lower = upper then res_bind (py_index ordered lower) (\<lambda>a. Inr (Some a))
              else res_bind (py_index ordered lower) (\<lambda>a.
                   res_bind (py_index ordered upper) (\<lambda>b.
                   Inr (Some (fadd a (fl (fsub b a * fsub rank (of_int lower))))))))"

text \<open>With at most \<open>2^53\<close> values the rank is exact at both ends and stays inside the list.\<close>

lemma rank_bounds:
  assumes "0 \<le> p" "p \<le> 1" "1 \<le> n" "n \<le> 2 ^ 53"
  defines "rank \<equiv> fl (fl (of_int (n - 1)) * p)"
  shows "0 \<le> rank" "rank \<le> of_int (n - 1)" "0 \<le> py_int rank" "py_int rank \<le> n - 1" "of_int (py_int rank) \<le> rank"
proof -
  have e: "fl (of_int (n - 1)) = of_int (n - 1)" using assms by (intro fl_of_int) auto
  show r0: "0 \<le> rank" unfolding rank_def e using assms by (intro fl_nonneg) auto
  have "of_int (n - 1) * p \<le> (of_int (n - 1) :: rat)" using assms by (intro mult_left_le) auto
  then show r1: "rank \<le> of_int (n - 1)" unfolding rank_def e using fl_mono[of "of_int (n - 1) * p" "of_int (n - 1)"] unfolding e by blast
  show "0 \<le> py_int rank" "of_int (py_int rank) \<le> rank" using r0 by (auto simp: py_int_def)
  have "\<lfloor>rank\<rfloor> \<le> \<lfloor>of_int (n - 1) :: rat\<rfloor>" by (rule floor_mono[OF r1])
  then show "py_int rank \<le> n - 1" using r0 by (simp add: py_int_def)
qed

lemma py_index_ok [simp]: "0 \<le> i \<Longrightarrow> i < int (length xs) \<Longrightarrow> py_index xs i = Inr (xs ! nat i)"
  by (simp add: py_index_def)

lemma sort_ends:
  assumes "values \<noteq> []"
  shows "sort values ! 0 = Min (set values)" "sort values ! (length values - 1) = Max (set values)"
proof -
  have l: "0 < length (sort values)" using assms by simp
  have lo: "sort values ! 0 \<le> x" if "x \<in> set values" for x
    using that sorted_nth_mono[OF sorted_sort, of 0] by (metis in_set_conv_nth le0 set_sort)
  have hi: "x \<le> sort values ! (length values - 1)" if x: "x \<in> set values" for x
  proof -
    obtain i where "i < length (sort values)" "x = sort values ! i" using x by (metis in_set_conv_nth set_sort)
    then show ?thesis using sorted_nth_mono[OF sorted_sort, of i "length values - 1" "values"] by simp
  qed
  have m: "sort values ! 0 \<in> set values" "sort values ! (length values - 1) \<in> set values"
    using nth_mem[OF l] nth_mem[of "length values - 1" "sort values"] assms by simp_all
  show "sort values ! 0 = Min (set values)" "sort values ! (length values - 1) = Max (set values)"
    using lo hi m by (auto intro!: Min_eqI[symmetric] Max_eqI[symmetric])
qed

text \<open>
  \<open>percentile\<close> never raises on a non-empty list and a rank between 0 and 1: it finds neighbours inside the
  sorted list, its value is at least the lower neighbour and at most what adding the whole gap to it gives
  (rounding included), and the ends are exact: \<open>p = 0\<close> is the smallest value and \<open>p = 1\<close> the largest.
\<close>

theorem percentile_interpolates:
  assumes "values \<noteq> []" "int (length values) \<le> 2 ^ 53" "0 \<le> p" "p \<le> 1" "\<forall>v \<in> set values. is_float v"
  shows "\<exists>v i j. percentile values p = Inr (Some v) \<and> i \<le> j \<and> j \<le> Suc i \<and> j < length values
     \<and> sort values ! i \<le> v \<and> v \<le> fadd (sort values ! i) (fsub (sort values ! j) (sort values ! i))
     \<and> (p = 0 \<longrightarrow> v = Min (set values)) \<and> (p = 1 \<longrightarrow> v = Max (set values))"
proof -
  define n rank l where "n = int (length values)" and "rank = fl (fl (of_int (n - 1)) * p)" and "l = py_int rank"
  let ?xs = "sort values" and ?u = "min (l + 1) (n - 1)"
  have n: "1 \<le> n" "n \<le> 2 ^ 53" using assms(1,2) by (auto simp: n_def Suc_le_eq)
  note R = rank_bounds[OF assms(3,4) n, folded rank_def, folded l_def]
  have len: "int (length ?xs) = n" "length ?xs = length values" by (simp_all add: n_def)
  have P: "percentile values p = (if l = ?u then res_bind (py_index ?xs l) (\<lambda>a. Inr (Some a))
      else res_bind (py_index ?xs l) (\<lambda>a. res_bind (py_index ?xs ?u) (\<lambda>b.
           Inr (Some (fadd a (fl (fsub b a * fsub rank (of_int l))))))))"
    using assms(1) unfolding percentile_def Let_def len(1) rank_def l_def by simp
  have ends: "?xs ! 0 = Min (set values)" "?xs ! (length values - 1) = Max (set values)" by (rule sort_ends[OF assms(1)])+
  have F: "is_float (?xs ! nat l)" using assms(5) R(3,4) nth_mem[of "nat l" ?xs] n(1) by (auto simp: n_def)
  have p0: "l = 0 \<and> rank = 0" if "p = 0" using that by (simp add: rank_def l_def py_int_def)
  have p1: "l = n - 1" if "p = 1"
  proof -
    have "fl (of_int (n - 1)) = of_int (n - 1)" using n by (intro fl_of_int) auto
    with that n(1) show ?thesis by (simp add: rank_def l_def py_int_def del: of_int_diff)
  qed
  show ?thesis
  proof (cases "l = n - 1")
    case True
    then have "percentile values p = Inr (Some (?xs ! nat l))" using P R(3) n(1) len by simp
    moreover have "fadd (?xs ! nat l) (fsub (?xs ! nat l) (?xs ! nat l)) = ?xs ! nat l" using F by (simp add: fadd_def fsub_def is_float_def)
    moreover have "nat l = length values - 1" using True by (simp add: n_def nat_diff_distrib)
    moreover have "nat l \<le> nat l" "nat l \<le> Suc (nat l)" "nat l < length values" using R(3,4) n(1) by (auto simp: n_def)
    moreover have "p = 0 \<Longrightarrow> ?xs ! nat l = Min (set values)" using p0 ends(1) by simp
    ultimately show ?thesis using ends(2) by (metis order_refl)
  next
    case False
    let ?a = "?xs ! nat l" and ?b = "?xs ! nat (l + 1)" and ?f = "fsub rank (of_int l)"
    have v: "percentile values p = Inr (Some (fadd ?a (fl (fsub ?b ?a * ?f))))" using P False R(3,4) len by simp
    have ab: "?a \<le> ?b" using False R(3,4) by (intro sorted_nth_mono) (auto simp: n_def)
    have f: "0 \<le> ?f" "?f \<le> 1" using R(1,3,5) fl_mono[of "rank - of_int l" 1] fl_of_int[of 1]
      by (auto simp: fsub_def l_def py_int_def intro: fl_nonneg split: if_splits) linarith+
    have d: "0 \<le> fsub ?b ?a" using ab by (simp add: fsub_def fl_nonneg)
    have "fl (fsub ?b ?a * ?f) \<le> fl (fsub ?b ?a)" using d f by (intro fl_mono mult_left_le) auto
    then have hi: "fadd ?a (fl (fsub ?b ?a * ?f)) \<le> fadd ?a (fsub ?b ?a)" by (auto simp: fadd_def fsub_def intro: fl_mono)
    have lo: "?a \<le> fadd ?a (fl (fsub ?b ?a * ?f))" using d f by (intro fadd_ge[OF F] fl_nonneg) simp
    have "p = 0 \<Longrightarrow> fadd ?a (fl (fsub ?b ?a * ?f)) = Min (set values)"
      using p0 F ends(1) by (simp add: fsub_def fadd_def is_float_def)
    moreover have "nat l \<le> nat (l + 1)" "nat (l + 1) \<le> Suc (nat l)" "nat (l + 1) < length values"
      using False R(3,4) by (auto simp: n_def)
    ultimately show ?thesis using v lo hi p1 False by blast
  qed
qed

theorem percentile_interpolates_witness: "\<exists>v. percentile [3, 1, 2] 1 = Inr (Some v) \<and> v = 3"
proof -
  have "\<forall>v \<in> set [3, 1, 2]. is_float v" using fl_of_int[of 1] fl_of_int[of 2] fl_of_int[of 3] by (simp add: is_float_def)
  with percentile_interpolates[of "[3, 1, 2]" 1] show ?thesis by auto
qed

end
