(* ===== verification/Spec2Isabelle.thy ===== *)
theory Spec2Isabelle
  imports Server_Demo Server_Shutdown Server_Books Server_Refines Demo_Client Bench_Common
begin

text \<open>
  A verification of TinyServe (\<^verbatim>\<open>src/tinyserve\<close>), a server for language models on one machine: HTTP
  clients post prompts, a single batch loop interleaves them on one llama.cpp context with chunked
  prefill and a decode step per tick, and every answer is streamed back as it is generated.

  \<^bold>\<open>The program.\<close> A request enters through \<open>generate\<close> (\<^verbatim>\<open>api/app.py\<close>): the runtime tokenizes the
  prompt, the admission controller (\<^verbatim>\<open>admission/controller.py\<close>) checks the depth of the queue and the
  free blocks of the logical KV cache (\<^verbatim>\<open>kv_cache/manager.py\<close>) and reserves the blocks, the stream
  manager opens a stream, and the request is pushed to the queue (\<^verbatim>\<open>queue/request_queue.py\<close>). The loop
  \<open>batch_loop\<close> sleeps while nothing waits and nothing runs; otherwise it drops expired waiters, lets the
  scheduling policy (\<^verbatim>\<open>scheduler/\<close>, with \<^verbatim>\<open>queue/fairness.py\<close>) choose requests for the free slots, asks the
  prefix cache (\<^verbatim>\<open>prefix/cache.py\<close>) for a running request with the same beginning and copies its cells,
  builds a batch (\<^verbatim>\<open>batch/builder.py\<close>), decodes it in the runtime (\<^verbatim>\<open>runtime/llama_runtime.py\<close>), and pushes
  each sampled token to its stream (\<^verbatim>\<open>streaming/stream_manager.py\<close>) or finishes the request. The
  response body is made by \<open>_sse_events\<close>. Metrics and spans (\<^verbatim>\<open>observability/\<close>) accompany every step.

  \<^bold>\<open>The theories.\<close>

  \<^item> \<open>TS_Prelude\<close>: exceptions as values, dictionaries, slices, strings; \<open>TS_Float\<close>: binary64 rounding.
  \<^item> \<open>KV_Cache\<close>: \<open>KVCacheManager\<close> and the admission controller. The accounting invariant \<open>kv_inv\<close> and
    its preservation; the float ceiling division equals the exact one up to \<open>2^53\<close>.
  \<^item> \<open>Batch_Builder\<close>: \<open>build_batch\<close>; which slices it takes, in which order, and that none is left out
    that would fit.
  \<^item> \<open>Prefix_Spec\<close>: the abstract prefix index, a list of claims (a sequence and its blocks), and the clamp
    \<open>match_for_reuse\<close>, whose hits are sound and longest. The locale \<open>prefix_backend\<close> states what an index that may
    fail promises, \<open>prefix_index\<close> is the case of one that never does (its sublocale \<open>total\<close>). \<open>Prefix_Cache\<close>:
    \<open>PythonPrefixCache\<close> as a tree of mutable nodes in an explicit heap; its interpretation \<open>pc\<close> of \<open>prefix_index\<close>
    is the refinement of the claims.
  \<^item> \<open>Native_Tree\<close>: the C++ tree of \<^verbatim>\<open>native/src/prefix_cache.cpp\<close> over a memory whose cells can be deleted.
    No operation faults, exactly the nodes of the claims are allocated, the teardown deletes all of them.
    \<open>Native_Cache\<close>: the ctypes binding, the search for the library and \<open>create_prefix_cache\<close>; both backends give
    the same answers as long as arguments and counts fit 32 bits. \<open>Prefix_Backend\<close>: the object the server holds,
    one of the two, with the interpretation \<open>be\<close> of \<open>prefix_backend\<close> that the server relies on; reuse is safe and
    longest on both.
  \<^item> \<open>Request_Queue\<close>: the queue and its wake-up event. \<open>Scheduler\<close>: the three policies, the locale
    \<open>scheduling_policy\<close> with the contract of \<open>select\<close>, interpreted for each of them (\<open>fifo\<close>, \<open>prio\<close>,
    \<open>wfq\<close>) and for the one in use (\<open>pol\<close>); bounded unfairness of the fair queue.
  \<^item> \<open>Utf8\<close>, \<open>Stream_Manager\<close>, \<open>Sse_Stream\<close>: the incremental decoder, the streams, and the event frames with
    the frame reader of the demo page (\<^verbatim>\<open>api/static/demo.html\<close>). What is pushed is what is read, however the bytes
    and the frames are cut.
  \<^item> \<open>Llama_Runtime\<close>: \<open>LlamaRuntime\<close>. Staging fills the C arrays within their bounds, a successful decode
    samples the greedy token after each sequence's own history, a prefix copy copies exactly the prefix.
  \<^item> \<open>Observability\<close>: the metric registry and \<open>RequestTracer\<close>.
  \<^item> \<open>Server_Model\<close>: the state \<open>server\<close> (the variables of \<open>lifespan\<close> and of \<open>batch_loop\<close>), every nested
    function of the loop, the handlers, and the step relations. \<open>Server_Inv\<close>: the invariant \<open>server_inv\<close>.
    \<open>Server_Ops\<close>: each program of the loop in closed form. \<open>Server_Preserve\<close>, \<open>Server_Tick\<close>,
    \<open>Server_Steps\<close>: preservation along the two halves of a tick and along the client steps, up to
    \<open>reachable_inv\<close>. \<open>Server_Progress\<close>: a running request gets closer to its end with every decode call.
    \<open>Server_Demo\<close>: a server with one request over a small concrete library, evaluated from its start to
    its end; the witnesses below are about it.
    \<open>Server_Shutdown\<close>: runs after the second half of \<open>lifespan\<close> (\<open>lifespan_exit\<close>), reduced to runs without loop
    steps.
  \<^item> \<open>Server_Waiting\<close>: every accepted request is closed after a bounded number of loop passes, whatever policy is
    set and whatever else arrives: a waiting request can only be passed over until its timeout. The locale
    \<open>forward\<close> states what never goes back between passes; its interpretation is \<open>ages\<close>.
  \<^item> \<open>Service_Spec\<close>: the service a client may rely on, without queue, slots, batches or caches: a request is
    accepted, answered token by token from its own prompt, and ended. \<open>Server_Refines\<close>: the whole server, with all
    interleavings, is a refinement of it through the view of its history.
  \<^item> \<open>Server_Books\<close>: the counters against the history. The locale \<open>ledger\<close> follows weights of events through all
    programs of the server; its interpretations are the counters.
  \<^item> \<open>Demo_Client\<close>: the script of the demo page: the cards of a burst, the life of a card (\<open>streamOne\<close>, over the
    bytes of the response), tallies and statistics. A card keeps its invariant \<open>card_ok\<close>, every request of a
    burst is valid, and the tallies agree with the statistics once all cards have returned.
  \<^item> \<open>Bench_Common\<close>: the line reader and the percentile of \<^verbatim>\<open>benchmarks/_common.py\<close>.
  \<^item> This theory: the properties that span the components.

  \<^bold>\<open>How code becomes definitions.\<close> A class is a record, a method a function from the record to the new
  record, an exception an \<open>Inl\<close>. Code that mutates several objects and may raise is a \<open>('s, 'a) prog\<close>, so that
  the effects before an exception stay. asyncio switches tasks only at an \<open>await\<close> that suspends. The loop is therefore
  cut there: \<open>loop_top\<close>, \<open>loop_wake\<close> and \<open>loop_decoded\<close> are its uninterrupted pieces, \<open>sv_loop\<close> says
  where it is suspended, and \<open>server_step\<close> interleaves \<open>loop_step\<close> with the client steps in any
  order. \<open>time.monotonic()\<close> is a parameter \<open>clk\<close> read once per call. The field \<open>sv_trace\<close> records what
  happened, for the statements only; no definition reads it.

  \<^bold>\<open>Assumptions of the server properties\<close>, all in the predicate \<open>runs\<close>: the state is reachable from the state
  \<open>lifespan\<close> builds; llama.cpp is a parameter \<open>lib\<close> with a view \<open>cells\<close> of its KV memory that obeys its
  documented behaviour (\<open>llama_ok\<close>: removal, copy and decode of sequences, the largest position, the
  logits of a row as a function \<open>lm\<close> of the history of its sequence, a beginning-of-sequence token); the
  context starts empty; the settings are positive and fit the 32-bit integers of the native libraries (\<open>config_ok\<close>,
  which also keeps the float division exact); consecutive clock readings differ (\<open>strict_mono clk\<close>). The last one
  is needed: \<open>finish_divides_by_zero\<close> shows the loop dying without it. Decode calls may fail in any
  state; the properties cover that branch.

  \<^bold>\<open>Loops and bounds.\<close> Every function is total. The endless loops of the program (\<open>batch_loop\<close>, \<open>subscribe\<close>,
  \<open>wait_until_nonempty\<close>) are modelled one pass at a time, so there is no fuel; that passes lead somewhere
  is proved: \<open>2 * (length p + m)\<close> resumptions of the loop close a running request with prompt \<open>p\<close> and
  budget \<open>m\<close>, since each decode call moves it by at least one token and the loop awaits at most one other
  thing between two decode calls; a waiting request is taken or expires first, which \<open>every_request_closes\<close> bounds by
  \<open>2 * n + 2 + 2 * (length p + m)\<close> resumptions, \<open>n\<close> being the clock readings until its timeout; and from every state
  the loop drains the server.

  \<^bold>\<open>Not modelled.\<close> llama.cpp and the model itself (third party; \<open>lib\<close>, \<open>lm\<close>). The loading of the model
  file and the environment variables behind \<open>Settings\<close>. \<open>configure_tracing\<close> and the exposition of
  metrics, which only wire libraries; the flush in \<open>tracer_provider.shutdown()\<close>. Of the demo page the drawing, the log, and the controls that
  poll \<^verbatim>\<open>/metrics\<close> and \<^verbatim>\<open>/config\<close> or run one burst per policy. The load
  generators under \<^verbatim>\<open>benchmarks/\<close> apart from what they share: they run against a live server, read \<^verbatim>\<open>/metrics\<close> and
  print tables. Log output.
  HTTP parsing and transport (FastAPI, uvicorn): a handler starts from the parsed body.
  What ctypes and the dynamic loader do: the library that \<open>load_library\<close> finds is a parameter of \<open>lifespan\<close>.
\<close>

section \<open>The reference the answers are compared with\<close>

text \<open>
  Greedy generation for one prompt in isolation: no batching, no cache, no other request. At most \<open>n\<close>
  tokens, up to the end token.
\<close>

fun greedy_answer :: "(int list \<Rightarrow> float64 list) \<Rightarrow> int \<Rightarrow> nat \<Rightarrow> int list \<Rightarrow> int list" where
  "greedy_answer lm eos 0 h = []"
| "greedy_answer lm eos (Suc n) h = (let t = greedy lm h in if t = eos then [] else t # greedy_answer lm eos n (h @ [t]))"

lemma chain_Cons:
  assumes "chain lm eos p (t # ts)"
  shows "t = greedy lm p" "t \<noteq> eos" "chain lm eos (p @ [t]) ts"
  using assms unfolding chain_def
  by (force dest: spec[of _ 0], force dest: spec[of _ 0], force dest: spec[of _ "Suc i" for i])

lemma chain_prefix:
  assumes "chain lm eos p ts" "length ts \<le> n"
  shows "prefix ts (greedy_answer lm eos n p)"
    and "greedy lm (p @ ts) = eos \<or> length ts = n \<Longrightarrow> ts = greedy_answer lm eos n p"
proof -
  have "prefix ts (greedy_answer lm eos n p) \<and> (greedy lm (p @ ts) = eos \<or> length ts = n \<longrightarrow> ts = greedy_answer lm eos n p)"
    using assms
  proof (induction ts arbitrary: p n)
    case Nil
    then show ?case by (cases n) (auto simp: Let_def)
  next
    case (Cons t ts)
    then obtain k where n: "n = Suc k" by (cases n) auto
    note C = chain_Cons[OF Cons.prems(1)]
    from Cons.IH[OF C(3), of k] Cons.prems(2) n C(1,2) show ?case by (auto simp: Let_def)
  qed
  then show "prefix ts (greedy_answer lm eos n p)"
    "greedy lm (p @ ts) = eos \<or> length ts = n \<Longrightarrow> ts = greedy_answer lm eos n p" by blast+
qed

lemma accepted_acc:
  assumes I: "tick_inv lib cells lm clk mk s" and a: "acc rid (sv_trace s) = Some (p, m)"
  shows "p \<noteq> []" "chain lm (lib_token_eos lib) p (toks rid (sv_trace s))" "int (length (toks rid (sv_trace s))) < m"
    "rid \<in> live_ids s \<or> (\<exists>r. Closed rid r \<in> set (sv_trace s))"
    "Closed rid None \<in> set (sv_trace s) \<Longrightarrow>
       greedy lm (p @ toks rid (sv_trace s)) = lib_token_eos lib \<or> int (length (toks rid (sv_trace s))) = m - 1"
  using tick_invD(8)[OF I] a unfolding hist_inv_def by blast+

lemma demo_acc:
  "acc ''r'' (sv_trace demo_active) = Some ([1, 72, 105, 33, 33], 6)" "acc ''r'' (sv_trace demo_done) = Some ([1, 72, 105, 33, 33], 6)"
  "acc ''r'' (sv_trace demo_read) = Some ([1, 72, 105, 33, 33], 6)" "acc ''r'' (sv_trace demo_queued) = Some ([1, 72, 105, 33, 33], 6)"
  by (simp_all add: demo_queued_fields demo_active_fields demo_done_fields demo_read_trace)

text \<open>What a consumer has read when it has reached the end of its stream.\<close>

lemma reads_decoded:
  assumes "runs lib cells lm clk ctx st s" "acc rid (sv_trace s) = Some (p, m)" "StreamEnded rid \<in> set (sv_trace s)"
  shows "reads rid (sv_trace s) = fst (utf8_decode True (bytes_of lib (toks rid (sv_trace s))))
     \<and> (Closed rid None \<in> set (sv_trace s) \<longrightarrow> reads rid (sv_trace s)
          = fst (utf8_decode True (bytes_of lib (greedy_answer lm (lib_token_eos lib) (nat (m - 1)) p))))"
proof -
  have r: "reads rid (sv_trace s) = fst (utf8_decode True (bytes_of lib (toks rid (sv_trace s))))"
    using tick_invD(9)[OF runsD(6)[OF assms(1)]] assms(3) unfolding str_inv_def by blast
  note A = accepted_acc[OF runsD(6)[OF assms(1)] assms(2)]
  have len: "length (toks rid (sv_trace s)) \<le> nat (m - 1)" using A(3) by linarith
  have "toks rid (sv_trace s) = greedy_answer lm (lib_token_eos lib) (nat (m - 1)) p" if c: "Closed rid None \<in> set (sv_trace s)"
    using A(5)[OF c] by (intro chain_prefix(2)[OF A(2) len]) auto
  with r show ?thesis by simp
qed

lemma reachable_trace:
  assumes "runs lib cells lm clk ctx st s" "reachable lib clk s t"
  shows "prefix (sv_trace s) (sv_trace t)"
  using assms(2)
proof induction
  case (reach_step t u)
  note R = runs_trans[OF assms(1) reach_step.hyps(1)]
  from server_step_trace[OF runsD(1,2,4)[OF R] reach_step.hyps(2)] reach_step.IH show ?case by (rule prefix_order.trans[rotated])
qed simp

lemma streaming_accepted:
  assumes "llama_ok lib cells lm" "tick_inv lib cells lm clk mk s" "acc rid (sv_trace s) = None"
    and "generate lib clk rid body s = (r, s')" "r = StreamingBody rid" "tokenize lib (gr_prompt body) = Inr p"
  shows "acc rid (sv_trace s') = Some (p, gr_max_tokens body)"
  using assms(1-4)
proof (cases rule: generate_cases)
  case (accepted q)
  show ?thesis by (subst accepted(6)) (use accepted(2) assms(3,6) in \<open>simp add: acc_append\<close>)
qed (use assms(5) in auto)

lemma generate_reason:
  assumes "llama_ok lib cells lm" "tick_inv lib cells lm clk mk s" "acc rid (sv_trace s) = None"
    and "generate lib clk rid body s = (ServiceUnavailable why, s')"
  shows "why \<in> {''queue_full'', ''kv_cache_full''}"
  using assms by (cases rule: generate_cases) (auto split: if_splits)

text \<open>The card of the demo page behind the request of \<open>Server_Demo\<close>.\<close>

definition demo_card :: card where
  "demo_card = (new_card (readOpts None None False []) 0)\<lparr>card_prompt := [72, 105, 33, 33], card_maxTokens := 6\<rparr>"

lemma demo_card_facts:
  "fresh_card demo_card" "generate demo_lib demo_clk ''r'' (card_request demo_card) demo_started = (StreamingBody ''r'', demo_queued)"
  "tokenize demo_lib (card_prompt demo_card) = Inr [1, 72, 105, 33, 33]" "card_maxTokens demo_card = 6"
proof -
  have "card_request demo_card = demo_request\<lparr>gr_stream := True\<rparr>"
    by (simp add: demo_card_def card_request_def new_card_def readOpts_def card_priority_of_def LOW_PRIORITY_def
        demo_request_def default_generate_request_def)
  then show "generate demo_lib demo_clk ''r'' (card_request demo_card) demo_started = (StreamingBody ''r'', demo_queued)"
    using demo_generate_streaming by simp
  show "tokenize demo_lib (card_prompt demo_card) = Inr [1, 72, 105, 33, 33]" "card_maxTokens demo_card = 6"
    using demo_request_fields(5) by (simp_all add: demo_card_def demo_request_def default_generate_request_def)
qed (simp add: demo_card_def fresh_card_def new_card_def)

lemma demo_read_reachable: "reachable demo_lib demo_clk demo_queued demo_read"
  unfolding demo_read_def demo_done_def demo_second_def demo_first_def demo_active_def
  by (intro reach_step[OF _ step_client[OF step_consume]] reach_step[OF _ step_loop] reach_init)

section \<open>Properties of the server\<close>

text \<open>
  C1. The answer a client gets does not depend on batching, chunked prefill, prefix reuse or the other
  clients. In every reachable state the tokens streamed for an accepted request are a beginning of the
  greedy answer to its prompt alone, of at most \<open>max_tokens - 1\<close> tokens, and once the request has been
  finished normally they are exactly that answer.
\<close>

theorem answers_are_greedy:
  assumes "runs lib cells lm clk ctx st s" "acc rid (sv_trace s) = Some (p, m)"
  shows "prefix (toks rid (sv_trace s)) (greedy_answer lm (lib_token_eos lib) (nat (m - 1)) p)
     \<and> (Closed rid None \<in> set (sv_trace s) \<longrightarrow>
          toks rid (sv_trace s) = greedy_answer lm (lib_token_eos lib) (nat (m - 1)) p)"
proof -
  note A = accepted_acc[OF runsD(6)[OF assms(1)] assms(2)]
  have "length (toks rid (sv_trace s)) \<le> nat (m - 1)" using A(3) by linarith
  note C = chain_prefix[OF A(2) this]
  have "greedy lm (p @ toks rid (sv_trace s)) = lib_token_eos lib \<or> length (toks rid (sv_trace s)) = nat (m - 1)"
    if "Closed rid None \<in> set (sv_trace s)" using A(5)[OF that] by auto
  with C show ?thesis by blast
qed

theorem answers_are_greedy_witness:
  "toks ''r'' (sv_trace demo_done) = [3] \<and> greedy_answer chat_lm 2 5 [1, 72, 105, 33, 33] = [3]"
  using answers_are_greedy[OF demo_done_runs demo_acc(2)] by (simp add: demo_done_fields demo_lib_fields)

text \<open>
  C2. End to end: when the consumer of a request has reached the end of its stream, the text it has
  read is the UTF-8 decoding of the detokenized tokens streamed for that request, and for a request
  that was finished normally it is the decoding of the whole greedy answer.
\<close>

theorem delivered_text:
  assumes "runs lib cells lm clk ctx st s" "acc rid (sv_trace s) = Some (p, m)" "StreamEnded rid \<in> set (sv_trace s)"
  shows "gresp_text (collected_response (chunks_read rid (sv_trace s))) = fst (utf8_decode True (bytes_of lib (toks rid (sv_trace s))))
     \<and> (Closed rid None \<in> set (sv_trace s) \<longrightarrow> gresp_text (collected_response (chunks_read rid (sv_trace s)))
          = fst (utf8_decode True (bytes_of lib (greedy_answer lm (lib_token_eos lib) (nat (m - 1)) p))))"
  unfolding collected_response_def generate_response.select_convs concat_chunks_read using reads_decoded[OF assms] .

theorem delivered_text_witness:
  "gresp_text (collected_response (chunks_read ''r'' (sv_trace demo_read)))
     = fst (utf8_decode True (bytes_of demo_lib (greedy_answer chat_lm 2 5 [1, 72, 105, 33, 33])))"
  using delivered_text[OF demo_read_runs demo_acc(3)] by (auto simp: demo_read_trace demo_lib_fields)

text \<open>
  C39. From the demo page and back. A card of the page posts its request and is told the outcome: a rejected card
  shows the reason of the admission check, one that is refused otherwise an error. When the server has finished
  the request and the bytes of the response arrive in pieces cut anywhere, also inside characters, the card is
  done and shows the decoding of the whole greedy answer to its own prompt, provided that the answer has no line
  feed; it has counted one token per text the server sent.
\<close>

theorem demo_page_shows_answer:
  assumes "runs lib cells lm clk ctx st s" "rid \<notin> accepted_ids (sv_trace s)" "fresh_card c"
    and "generate lib clk rid (card_request c) s = (r, s1)"
  shows "(\<forall>why rs. r = ServiceUnavailable why \<longrightarrow> card_state (streamOne t0 (answered r) rs c) = CardRejected
         \<and> card_reason (streamOne t0 (answered r) rs c) = why)
     \<and> (\<forall>rs. (\<forall>why. r \<noteq> ServiceUnavailable why) \<and> r \<noteq> StreamingBody rid \<longrightarrow> card_state (streamOne t0 (answered r) rs c) = CardError)
     \<and> (\<forall>t c' answer pieces now p. r = StreamingBody rid \<and> reachable lib clk s1 t
         \<and> StreamEnded rid \<in> set (sv_trace t) \<and> Closed rid None \<in> set (sv_trace t) \<and> tokenize lib (card_prompt c) = Inr p
         \<and> answer = fst (utf8_decode True (bytes_of lib (greedy_answer lm (lib_token_eos lib) (nat (card_maxTokens c - 1)) p)))
         \<and> 10 \<notin> set answer \<and> concat (map snd pieces) = utf8_encode (concat (map sse_frame (chunks_read rid (sv_trace t))))
         \<and> c' = streamOne t0 (answered r) (map (map_prod id ReadChunk) pieces @ [(now, ReadDone)]) c
         \<longrightarrow> card_state c' = CardDone \<and> card_text c' = answer
           \<and> card_tokens c' = length (filter (\<lambda>x. x \<noteq> []) (chunks_read rid (sv_trace t))))"
proof -
  have a: "acc rid (sv_trace s) = None" using assms(2) acc_accepted by blast
  note ok = runsD(1)[OF assms(1)] and I = runsD(6)[OF assms(1)]
  have fin: "card_state c' = CardDone \<and> card_text c' = answer \<and> card_tokens c' = length (filter (\<lambda>x. x \<noteq> []) (chunks_read rid (sv_trace t)))"
    if r: "r = StreamingBody rid" and t: "reachable lib clk s1 t" and e: "StreamEnded rid \<in> set (sv_trace t)" "Closed rid None \<in> set (sv_trace t)"
      and p: "tokenize lib (card_prompt c) = Inr p"
      and ans: "answer = fst (utf8_decode True (bytes_of lib (greedy_answer lm (lib_token_eos lib) (nat (card_maxTokens c - 1)) p)))" "10 \<notin> set answer"
      and pcs: "concat (map snd pieces) = utf8_encode (concat (map sse_frame (chunks_read rid (sv_trace t))))"
      and c': "c' = streamOne t0 (answered r) (map (map_prod id ReadChunk) pieces @ [(now, ReadDone)]) c"
    for t c' answer pieces now p
  proof -
    have R1: "runs lib cells lm clk ctx st s1"
      by (rule runs_step[OF assms(1) step_client[OF step_generate[OF assms(2,4)]]])
    have acc1: "acc rid (sv_trace s1) = Some (p, card_maxTokens c)"
      by (rule streaming_accepted[OF ok I a assms(4) r, unfolded card_request_def generate_request.select_convs, OF p])
    have acct: "acc rid (sv_trace t) = Some (p, card_maxTokens c)"
      using reachable_trace[OF R1 t] acc1 by (auto simp: prefix_def acc_append)
    have cc: "concat (chunks_read rid (sv_trace t)) = answer"
      unfolding concat_chunks_read using reads_decoded[OF runs_trans[OF R1 t] acct e(1)] e(2) ans(1) by blast
    have "list_all scalar answer" unfolding ans(1) by (rule utf8_decode_scalar)
    with cc ans(2) have "\<forall>x \<in> set (chunks_read rid (sv_trace t)). list_all scalar x \<and> 10 \<notin> set x" by (auto simp: list_all_iff)
    from streamOne_frames[OF assms(3) this pcs, of t0 None now] show ?thesis unfolding c' r using cc by simp
  qed
  have rej: "card_state (streamOne t0 (answered r) rs c) = CardRejected \<and> card_reason (streamOne t0 (answered r) rs c) = why"
    if "r = ServiceUnavailable why" for why rs
    using generate_reason[OF ok I a assms(4)[unfolded that]] that by (auto simp: streamOne_def)
  have err: "card_state (streamOne t0 (answered r) rs c) = CardError"
    if "\<forall>why. r \<noteq> ServiceUnavailable why" "r \<noteq> StreamingBody rid" for rs
    using ok I a assms(4) by (cases rule: generate_cases) (use that in \<open>auto simp: streamOne_def card_request_def\<close>)
  show ?thesis using fin rej err by blast
qed

theorem demo_page_shows_answer_witness:
  "card_state (streamOne 0 (Fetched 200 None True) [(3, ReadChunk [100, 97, 116]), (4, ReadChunk [97, 58, 32, 3, 10, 10]), (5, ReadDone)] demo_card)
       = CardDone
     \<and> card_text (streamOne 0 (Fetched 200 None True) [(3, ReadChunk [100, 97, 116]), (4, ReadChunk [97, 58, 32, 3, 10, 10]), (5, ReadDone)] demo_card)
       = [3]"
proof -
  let ?a = "fst (utf8_decode True (bytes_of demo_lib (greedy_answer chat_lm (lib_token_eos demo_lib) (nat (6 - 1)) [1, 72, 105, 33, 33])))"
  let ?ps = "[(3, [100, 97, 116]), (4, [97, 58, 32, 3, 10, 10])] :: (float64 \<times> bytes) list"
  have a: "?a = [3]" using reads_decoded[OF demo_read_runs demo_acc(3)] by (auto simp: demo_read_trace)
  have "''r'' \<notin> accepted_ids (sv_trace demo_started)" by (simp add: accepted_ids_def demo_started_eq)
  note T = demo_page_shows_answer[OF demo_started_runs this demo_card_facts(1) demo_card_facts(2), of 0]
  let ?c' = "streamOne 0 (answered (StreamingBody ''r'')) (map (map_prod id ReadChunk) ?ps @ [(5, ReadDone)]) demo_card"
  have "concat (map snd ?ps) = utf8_encode (concat (map sse_frame (chunks_read ''r'' (sv_trace demo_read))))"
    by (simp add: demo_read_trace sse_frame_def utf8_encode_def utf8_char_def)
  with T[THEN conjunct2, THEN conjunct2, THEN spec[of _ demo_read], THEN spec[of _ ?c'], THEN spec[of _ ?a],
      THEN spec[of _ ?ps], THEN spec[of _ 5], THEN spec[of _ "[1, 72, 105, 33, 33]"]]
  have "card_state ?c' = CardDone \<and> card_text ?c' = ?a"
    by (simp only: demo_card_facts(3,4) demo_read_reachable a) (simp add: demo_read_trace)
  then show ?thesis unfolding a by simp
qed



text \<open>
  C8. Isolation of the KV cache. No two running requests share a slot; the cells of a running request's
  slot hold exactly the first \<open>n_past\<close> tokens of its own prompt and answer, with the rest pending; the
  cells of a free slot are empty.
\<close>

theorem kv_cells_isolated:
  assumes "runs lib cells lm clk ctx st s"
  shows "distinct (map seq_id (vals (sv_active s)) @ sv_free_slots s)
     \<and> (\<forall>sid \<in> set (sv_free_slots s). cells (rt_ctx (sv_runtime s)) sid = Map.empty)
     \<and> (\<forall>rid sq. dict_get (sv_active s) rid = Some sq \<longrightarrow> (\<exists>p m. acc rid (sv_trace s) = Some (p, m)
          \<and> holds (cells (rt_ctx (sv_runtime s))) (seq_id sq) (take (nat (n_past sq)) (p @ toks rid (sv_trace s)))
          \<and> pending_tokens sq = drop (nat (n_past sq)) (p @ toks rid (sv_trace s)) \<and> pending_tokens sq \<noteq> []))"
proof -
  note D = tick_invD[OF runsD(6)[OF assms]]
  have "\<exists>p m. acc rid (sv_trace s) = Some (p, m)
          \<and> holds (cells (rt_ctx (sv_runtime s))) (seq_id sq) (take (nat (n_past sq)) (p @ toks rid (sv_trace s)))
          \<and> pending_tokens sq = drop (nat (n_past sq)) (p @ toks rid (sv_trace s)) \<and> pending_tokens sq \<noteq> []"
    if g: "dict_get (sv_active s) rid = Some sq" for rid sq
  proof -
    obtain t where "dict_get (sv_requests s) rid = Some t" using keys_eq_get[OF _ g] D(2) unfolding ids_inv_def by blast
    with g D(4) have "live_req clean (cells (rt_ctx (sv_runtime s))) clk (sv_clock s) (sv_trace s) (block_table (sv_kv s))
      (kv_block_size (sv_settings s)) rid sq t" by (simp add: live_inv_def)
    then show ?thesis unfolding live_req_def by fastforce
  qed
  with D(3,6) show ?thesis unfolding slots_inv_def free_inv_def holds_Nil by blast
qed

theorem kv_cells_isolated_witness:
  "holds (sim_cells (rt_ctx (sv_runtime demo_first))) 1 [1, 72, 105, 33, 33]
     \<and> sim_cells (rt_ctx (sv_runtime demo_first)) 0 = Map.empty"
  using kv_cells_isolated[OF demo_first_runs]
    kv_cells_isolated[OF demo_first_runs, THEN conjunct2, THEN conjunct2, THEN spec[of _ "''r''"]]
  by (simp add: demo_first_fields)

text \<open>
  C9. The KV cache is never overcommitted: what the running requests hold and have pending fits the
  context, the reservations are exactly those of the waiting and running requests, and free and
  reserved blocks add up to the total.
\<close>

theorem kv_never_overcommitted:
  assumes "runs lib cells lm clk ctx st s"
  shows "(\<Sum>sq\<leftarrow>vals (sv_active s). n_past sq + int (length (pending_tokens sq))) \<le> n_ctx st
     \<and> set (keys (block_table (sv_kv s))) = live_ids s
     \<and> 0 \<le> available_blocks (sv_kv s)
     \<and> available_blocks (sv_kv s) + (\<Sum>e\<leftarrow>block_table (sv_kv s). snd e) = total_blocks (sv_kv s)"
proof -
  note D = tick_invD[OF runsD(6)[OF assms]]
  have kv: "kv_inv (sv_kv s)" and ids: "set (keys (block_table (sv_kv s))) = live_ids s"
    using D(1,2) unfolding static_inv_def ids_inv_def by blast+
  with active_demand[OF runsD(6)[OF assms]] kv_invD(2,5)[OF kv] show ?thesis
    unfolding runsD(5)[OF assms] by (simp add: available_blocks_def total_blocks_def del: set_map)
qed

theorem kv_never_overcommitted_witness:
  "set (keys (block_table (sv_kv demo_queued))) = {''r''} \<and> available_blocks (sv_kv demo_queued) + 3 = 4"
  using kv_never_overcommitted[OF demo_queued_runs] by (simp add: demo_queued_fields available_blocks_def total_blocks_def)

text \<open>
  C10. No running request is ever skipped: the batch handed to a decode call holds, for every running
  request, a whole chunk of its pending tokens and at least one token. In particular the branch of the
  loop for an empty batch is only taken when no request is running.
\<close>

theorem every_request_in_every_batch:
  assumes "runs lib cells lm clk ctx st s" "sv_loop s = AwaitDecode rows t" "dict_get (sv_active s) rid = Some sq"
  shows "row_count rows (seq_id sq) = min (chunk_size st) (int (length (pending_tokens sq))) \<and> 0 < row_count rows (seq_id sq)"
proof -
  have rows: "rows = build_batch (vals (sv_active s)) (n_ctx st) (chunk_size st)"
    using runsD(7)[OF assms(1)] assms(2) by (simp add: loop_inv_def)
  from every_sequence_served[OF runsD(6)[OF assms(1)] assms(3)] show ?thesis
    unfolding rows runsD(5)[OF assms(1)] by (simp add: taken_def)
qed

theorem every_request_in_every_batch_witness: "row_count demo_rows 1 = 5"
  using every_request_in_every_batch[OF demo_active_runs demo_active_fields(11), of "''r''"]
  by (simp add: demo_active_fields demo_settings_fields)





text \<open>
  C6. The server refines the service of \<open>Service_Spec\<close>: every reachable state is seen as a state the service
  can reach from nothing, every step of the server is seen as a sequence of steps of the service, and the
  requests the service holds open are exactly those that wait or run.
\<close>

theorem server_refines_service:
  assumes "runs lib cells lm clk ctx st s" "server_step lib clk s s'"
  shows "(svc_step lm (lib_token_eos lib))\<^sup>*\<^sup>* Map.empty (view (sv_trace s))
     \<and> (svc_step lm (lib_token_eos lib))\<^sup>*\<^sup>* (view (sv_trace s)) (view (sv_trace s'))
     \<and> (\<forall>rid. (\<exists>q. view (sv_trace s) rid = Some q \<and> svc_status q = Open) \<longleftrightarrow> rid \<in> live_ids s)"
  using runs_refines[OF assms(1)] server_step_refines[OF assms] view_live[OF assms(1)] by blast

theorem server_refines_service_witness:
  "(svc_step chat_lm 2)\<^sup>*\<^sup>* (view (sv_trace demo_active)) (view (sv_trace demo_first))
     \<and> (\<exists>q. view (sv_trace demo_active) ''r'' = Some q \<and> svc_status q = Open)"
  using server_refines_service[OF demo_active_runs step_loop, folded demo_first_def] demo_active_fields(1)
  by (auto simp: demo_lib_fields)





text \<open>
  C12. An idle server has leaked nothing: with no waiting or running request all blocks are available,
  all slots are free with empty cells, no span is open and the prefix cache has no node.
\<close>

theorem idle_server_is_clean:
  assumes "runs lib cells lm clk ctx st s" "live_ids s = {}"
  shows "available_blocks (sv_kv s) = total_blocks (sv_kv s) \<and> set (sv_free_slots s) = {0..<n_seq_max st}
     \<and> (\<forall>sid \<in> {0..<n_seq_max st}. cells (rt_ctx (sv_runtime s)) sid = Map.empty)
     \<and> open_spans (sv_tracer s) = [] \<and> (\<forall>c. sv_prefix s = Some c \<longrightarrow> be_node_count c = 0)"
proof -
  note D = tick_invD[OF runsD(6)[OF assms(1)]] and S = runsD(5)[OF assms(1)]
  have A: "sv_active s = []" using assms(2) by simp
  have "block_table (sv_kv s) = []" using D(2) assms(2) unfolding ids_inv_def by auto
  then have 1: "available_blocks (sv_kv s) = total_blocks (sv_kv s)"
    using D(1) kv_invD(5)[of "sv_kv s"] by (simp add: static_inv_def available_blocks_def total_blocks_def)
  have 2: "set (sv_free_slots s) = {0..<n_seq_max st}" using D(3) A S by (simp add: slots_inv_def)
  have 3: "open_spans (sv_tracer s) = []" using D(10) assms(2) by (auto simp: spans_inv_def open_spans_def)
  have "be_node_count c = 0" if c: "sv_prefix s = Some c" for c
  proof -
    obtain cls where r: "be_rep c cls" "\<forall>cl \<in> set cls. claim_ok (kv_block_size st) (sv_trace s) [] cl"
      using D(7) c A S by (auto simp: prefix_inv_def)
    then have "cls = []" by (cases cls) (auto simp: claim_ok_def)
    then show ?thesis using be_node_count_rep[OF r(1)] by (simp add: paths_def)
  qed
  with 1 2 3 D(6) show ?thesis unfolding free_inv_def holds_Nil by simp
qed

theorem idle_server_is_clean_witness:
  "available_blocks (sv_kv demo_done) = total_blocks (sv_kv demo_done) \<and> set (sv_free_slots demo_done) = {0..<2}
     \<and> open_spans (sv_tracer demo_done) = []"
  using idle_server_is_clean[OF demo_done_runs] by (simp add: demo_done_fields demo_settings_fields)




text \<open>
  C13. \<open>POST /generate\<close> on every branch: an invalid body is a 422 and a prompt that cannot be encoded a
  500, both without any effect; a full queue or too few blocks is a 503 that reserves nothing and queues
  nothing; otherwise exactly the covering blocks are reserved and the request is the last of the queue.
\<close>

theorem generate_outcome:
  assumes "runs lib cells lm clk ctx st s" "rid \<notin> accepted_ids (sv_trace s)" "generate lib clk rid body s = (r, s')"
  shows "(\<not> generate_request_valid body \<and> r = UnprocessableEntity \<and> s' = s)
    \<or> (generate_request_valid body \<and> \<not> list_all scalar (gr_prompt body) \<and> r = InternalServerError ValueError \<and> s' = s)
    \<or> (generate_request_valid body \<and> (\<exists>p. tokenize lib (gr_prompt body) = Inr p
        \<and> (if max_queue_depth st \<le> queue_depth (sv_queue s)
           then r = ServiceUnavailable ''queue_full'' \<and> sv_kv s' = sv_kv s \<and> sv_queue s' = sv_queue s
           else if available_blocks (sv_kv s) < cover (kv_block_size st) (int (length p) + gr_max_tokens body)
           then r = ServiceUnavailable ''kv_cache_full'' \<and> sv_kv s' = sv_kv s \<and> sv_queue s' = sv_queue s
           else r = (if gr_stream body then StreamingBody rid else CollectedBody rid)
              \<and> available_blocks (sv_kv s') = available_blocks (sv_kv s) - cover (kv_block_size st) (int (length p) + gr_max_tokens body)
              \<and> waiting (sv_queue s') = waiting (sv_queue s) @ [\<lparr>req_id = rid, prompt_tokens = p, max_tokens = gr_max_tokens body,
                   priority = gr_priority body, arrival_ts = clk (sv_clock s)\<rparr>])))"
proof -
  note D = tick_invD[OF runsD(6)[OF assms(1)]] and S = runsD(5)[OF assms(1)]
  have a: "acc rid (sv_trace s) = None" using assms(2) acc_accepted by blast
  then have nl: "rid \<notin> queued_ids (sv_queue s)" using D(8) unfolding hist_inv_def by blast
  show ?thesis using runsD(1)[OF assms(1)] runsD(6)[OF assms(1)] a assms(3)
  proof (cases rule: generate_cases)
    case invalid
    then show ?thesis by blast
  next
    case unencodable
    then have "\<not> list_all scalar (gr_prompt body)" by (auto simp: tokenize_def split: if_splits)
    with unencodable show ?thesis by blast
  next
    case (rejected p why)
    define tr' where "tr' = sv_tracer s'"
    note E = rejected(6)[folded tr'_def]
    have "sv_kv s' = sv_kv s" "sv_queue s' = sv_queue s" by (subst E, simp)+
    with rejected(1-5) S show ?thesis by (auto simp: available_blocks_def)
  next
    case (accepted p)
    define kv' tr' where "kv' = sv_kv s'" and "tr' = sv_tracer s'"
    note E = accepted(6)[folded kv'_def tr'_def]
    have q: "waiting (sv_queue s') = waiting (sv_queue s) @ [\<lparr>req_id = rid, prompt_tokens = p, max_tokens = gr_max_tokens body,
        priority = gr_priority body, arrival_ts = clk (sv_clock s)\<rparr>]"
      using push_new nl by (subst E) (simp add: waiting_def)
    have "free_blocks (sv_kv s') = free_blocks (sv_kv s) - cover (kv_block_size st) (int (length p) + gr_max_tokens body)"
      using accepted(8) S by simp
    with accepted(1-5) S q show ?thesis by (auto simp: available_blocks_def)
  qed
qed

theorem generate_outcome_witness:
  "\<exists>r s'. generate demo_lib demo_clk ''r'' demo_request demo_started = (r, s') \<and> r \<noteq> UnprocessableEntity
     \<and> r \<noteq> ServiceUnavailable ''queue_full''"
proof -
  obtain r s' where g: "generate demo_lib demo_clk ''r'' demo_request demo_started = (r, s')" by force
  have "''r'' \<notin> accepted_ids (sv_trace demo_started)" by (simp add: accepted_ids_def demo_started_eq)
  from generate_outcome[OF demo_started_runs this g] g show ?thesis
    by (auto simp: demo_request_fields demo_settings_fields demo_started_eq queue_init_def queue_depth_def split: if_splits)
qed

text \<open>
  C25. Shutdown does not wait for anybody. Once \<open>lifespan\<close> has cancelled the loop, a request that was
  accepted and not closed stays so whatever the clients do: no further token is streamed for it, it is
  never closed, and its consumer never reaches the end of its stream.
\<close>

theorem shutdown_strands_requests:
  assumes "runs lib cells lm clk ctx st s" "acc rid (sv_trace s) = Some (p, m)" "\<forall>why. Closed rid why \<notin> set (sv_trace s)"
    and "reachable lib clk (lifespan_exit s) s'"
  shows "sv_loop s' = Crashed CancelledError \<and> toks rid (sv_trace s') = toks rid (sv_trace s)
     \<and> (\<forall>why. Closed rid why \<notin> set (sv_trace s')) \<and> StreamEnded rid \<notin> set (sv_trace s')"
proof -
  have "\<forall>e. sv_loop s \<noteq> Crashed e" using runsD(7)[OF assms(1)] by (auto simp: loop_inv_def)
  from after_exit[OF assms(4) this] obtain t es where t: "reachable lib clk s t" "s' = t\<lparr>sv_loop := Crashed CancelledError\<rparr>"
    "sv_trace t = sv_trace s @ es" "list_all by_client es" by blast
  note I = runsD(6)[OF runs_trans[OF assms(1) t(1)]]
  have open_t: "\<forall>why. Closed rid why \<notin> set (sv_trace t)" using t(3) assms(3) by_client_events(2)[OF t(4)] by auto
  have "acc rid (sv_trace t) = Some (p, m)" using t(3) assms(2) by (simp add: acc_append)
  from accepted_acc(4)[OF I this] open_t have "rid \<in> live_ids t" by blast
  then have "StreamEnded rid \<notin> set (sv_trace t)" using tick_invD(9)[OF I] unfolding str_inv_def by blast
  with t(2,3) open_t by_client_events(1)[OF t(4)] show ?thesis by simp
qed

theorem shutdown_strands_requests_witness:
  "StreamEnded ''r'' \<notin> set (sv_trace (consume ''r'' (lifespan_exit demo_active)))"
proof -
  let ?s = "lifespan_exit demo_active"
  have "reachable demo_lib demo_clk ?s (consume ''r'' ?s)" using reach_step[OF reach_init step_client[OF step_consume]] .
  from shutdown_strands_requests[OF demo_active_runs demo_acc(1) _ this] show ?thesis by (simp add: demo_active_fields)
qed

text \<open>
  C16. The counters tell the truth: in every reachable state \<open>admission_accepted_total\<close> is the number of accepted
  requests, \<open>cancellations_total\<close> counts under each reason exactly the requests closed with that reason, and
  \<open>prefill_tokens_reused_total\<close> never exceeds \<open>prefill_tokens_total\<close>, so that their ratio is a rate.
\<close>

theorem metrics_add_up:
  assumes "runs lib cells lm clk ctx st s"
  shows "counter_value ''admission_accepted_total'' [] (sv_metrics s) = int (length (filter is_accepted (sv_trace s)))
     \<and> counter_value ''cancellations_total'' [why] (sv_metrics s) = int (length (filter (closed_as why) (sv_trace s)))
     \<and> counter_value ''prefill_tokens_reused_total'' [] (sv_metrics s) \<le> counter_value ''prefill_tokens_total'' [] (sv_metrics s)"
  using accepted_le.books_balance[OF assms] accepted_ge.books_balance[OF assms] cancelled_le.books_balance[OF assms, of why]
    cancelled_ge.books_balance[OF assms, of why] reused.books_balance[OF assms]
  by (simp add: balance_simps)

theorem metrics_add_up_witness:
  "counter_value ''admission_accepted_total'' [] (sv_metrics demo_read) = 1
     \<and> counter_value ''cancellations_total'' [''queue_timeout''] (sv_metrics demo_read) = 0"
  using metrics_add_up[OF demo_read_runs, of "''queue_timeout''"] by (simp add: demo_read_trace is_accepted_def closed_as_def)

text \<open>
  C38. The gauges do not: they are set at the top of a tick, before requests are admitted and finished, and a pass
  that finds nothing to do sets none before it goes to sleep. So a server that has answered its only request sleeps
  with every block free while its exported \<open>kv_blocks_used\<close> is still three, until another request arrives.
\<close>

theorem idle_gauges_stale:
  "(\<forall>s. sv_loop s = AtTop \<and> sv_active s = [] \<and> waiting (sv_queue s) = [] \<longrightarrow>
       sv_loop (loop_step lib clk s) = AwaitArrival \<and> sv_metrics (loop_step lib clk s) = sv_metrics s)
   \<and> (\<exists>s. demo_runs s \<and> sv_loop s = AwaitArrival \<and> sv_active s = [] \<and> queue_depth (sv_queue s) = 0
       \<and> available_blocks (sv_kv s) = total_blocks (sv_kv s) \<and> gauge_value ''kv_blocks_used'' (sv_metrics s) = Some 3)"
proof -
  have "sv_loop (loop_step lib clk s) = AwaitArrival \<and> sv_metrics (loop_step lib clk s) = sv_metrics s"
    if "sv_loop s = AtTop" "sv_active s = []" "waiting (sv_queue s) = []" for s
    using that by (simp add: loop_step_def run_loop_def loop_top_def expire_stale_waiters_def run_call wait_pass_def
        wait_check_def waiting_def queue_depth_def)
  moreover have "available_blocks (sv_kv demo_idle) = total_blocks (sv_kv demo_idle)"
    by (simp add: demo_idle_fields available_blocks_def total_blocks_def)
  ultimately show ?thesis using demo_idle_runs demo_idle_fields by blast
qed

theorem idle_gauges_stale_witness: "sv_metrics (loop_step demo_lib demo_clk demo_done) = sv_metrics demo_done"
  using idle_gauges_stale[of demo_lib demo_clk, THEN conjunct1, THEN spec[of _ demo_done]]
  by (simp add: demo_done_fields waiting_def)

text \<open>
  Nor does an empty queue mean that nothing runs: the demo page waits for \<open>queue_depth\<close> zero between two bursts,
  which holds while a request is being answered.
\<close>

theorem queue_empty_while_running:
  "\<exists>s. demo_runs s \<and> queue_depth (sv_queue s) = 0 \<and> gauge_value ''queue_depth'' (sv_metrics s) = Some 0 \<and> sv_active s \<noteq> []"
  using demo_second_runs demo_second_fields(1,4) demo_first_fields(1,4) demo_second_depth
  by (intro exI[of _ demo_second]) (simp add: queue_depth_def)

text \<open>
  \<open>POST /config/policy\<close> on every branch: an empty name is a 422 and an unknown one a 400, both
  without any effect; a known one replaces the policy by a fresh one of that name and nothing else, and
  the answer is the configuration with that name.
\<close>

theorem set_policy_outcome:
  "set_policy name s =
     (if name = [] then (UnprocessableEntity, s)
      else if name \<notin> {''fifo'', ''priority'', ''wfq''} then (BadRequest, s)
      else (Config ((get_config s)\<lparr>cr_scheduling_policy := name\<rparr>),
        s\<lparr>sv_policy := \<lparr>ap_policy = (if name = ''fifo'' then FIFOPolicy else if name = ''priority'' then PriorityPolicy else WFQPolicy []),
            ap_name = name\<rparr>\<rparr>))"
  by (cases name) (auto simp: set_policy_def policy_request_valid_def active_policy_set_def create_policy_def Let_def get_config_def)

text \<open>
  C36. When the clock has not advanced since a request was admitted, finishing it after it has streamed
  a token raises \<open>ZeroDivisionError\<close>. By then the slot, the reservation and the stream are released, but
  the exception leaves the batch loop, which is dead from then on.
\<close>

theorem finish_divides_by_zero:
  assumes "dict_get (sv_requests s) rid = Some rs" "dict_get (sv_active s) rid = Some sq" "0 < tokens_emitted rs"
    and "clk (sv_clock s) = admitted_ts rs" "\<And>c. sv_prefix s = Some c \<Longrightarrow> evict_safe (rs_seq_id rs) c"
  shows "\<exists>s'. finish lib clk rid why s = (Inl ZeroDivisionError, s')
     \<and> sv_free_slots s' = sv_free_slots s @ [rs_seq_id rs] \<and> sv_kv s' = release rid (sv_kv s)
     \<and> sv_streams s' = stream_close rid (sv_streams s)
     \<and> sv_loop (run_loop (finish lib clk rid why) s) = Crashed ZeroDivisionError"
proof -
  have fl0: "fsub (clk (sv_clock s)) (admitted_ts rs) = 0" using assms(4) by (simp add: fsub_def)
  obtain pc ms where e: "evict_prefix (rs_seq_id rs) (s\<lparr>sv_requests := dict_del rid (sv_requests s)\<rparr>)
      = (Inr (), s\<lparr>sv_requests := dict_del rid (sv_requests s), sv_prefix := pc, sv_metrics := ms\<rparr>)"
    by (rule evict_prefix_run[of "s\<lparr>sv_requests := dict_del rid (sv_requests s)\<rparr>" "rs_seq_id rs"]) (use assms(5) in auto)
  have pop: "pop_request rid s = (Inr rs, s\<lparr>sv_requests := dict_del rid (sv_requests s)\<rparr>)"
    using assms(1) by (simp add: pop_request_def dict_pop_def)
  have popA: "pop_active rid u = (Inr (), u\<lparr>sv_active := dict_del rid (sv_active s)\<rparr>)" if "sv_active u = sv_active s" for u :: "'a server"
    using assms(2) that by (simp add: pop_active_def dict_pop_def)
  have "fst (finish lib clk rid why s) = Inl ZeroDivisionError
     \<and> sv_free_slots (snd (finish lib clk rid why s)) = sv_free_slots s @ [rs_seq_id rs]
     \<and> sv_kv (snd (finish lib clk rid why s)) = release rid (sv_kv s)
     \<and> sv_streams (snd (finish lib clk rid why s)) = stream_close rid (sv_streams s)"
    using assms(3) fl0
    unfolding finish_def bnd_Inr[of "pop_request rid", OF pop] bnd_Inr[of "evict_prefix (rs_seq_id rs)", OF e]
    by (cases why) (simp_all add: bnd_Inr[OF popA] fdiv_def run_lift_error)
  then show ?thesis by (cases "finish lib clk rid why s") (auto simp: run_loop_def)
qed

theorem finish_divides_by_zero_witness:
  "\<exists>s'. finish demo_lib (\<lambda>_. 2) ''r'' None demo_first = (Inl ZeroDivisionError, s') \<and> sv_free_slots s' = [0, 1]"
  using finish_divides_by_zero[of demo_first "''r''" "\<lparr>rs_seq_id = 1, remaining_tokens = 5, rs_arrival_ts = 0, admitted_ts = 2,
       tokens_emitted = 1, last_token_ts = Some 5\<rparr>" "\<lparr>seq_id = 1, pending_tokens = [3], n_past = 5\<rparr>" "\<lambda>_. 2" demo_lib None]
  by (auto simp: demo_first_fields evict_safe_def)



text \<open>
  C15. The registries of the server agree with each other: every dictionary has distinct keys, a
  request is running in \<open>active\<close> exactly when it has a record in \<open>requests\<close>, with the same slot in both,
  no request both runs and waits, the queue is keyed by the identifiers of its requests, and the slots of
  the running requests together with the free ones are exactly the configured slots, each once.
\<close>

theorem registries_agree:
  assumes "runs lib cells lm clk ctx st s"
  shows "dict_wf (sv_active s) \<and> dict_wf (sv_streams s) \<and> dict_wf (block_table (sv_kv s)) \<and> queue_inv (sv_queue s)
     \<and> keys (sv_active s) = keys (sv_requests s) \<and> set (keys (sv_active s)) \<inter> queued_ids (sv_queue s) = {}
     \<and> (\<forall>rid sq rs. dict_get (sv_active s) rid = Some sq \<longrightarrow> dict_get (sv_requests s) rid = Some rs \<longrightarrow> rs_seq_id rs = seq_id sq)
     \<and> mset (map seq_id (vals (sv_active s)) @ sv_free_slots s) = mset (map int [0..<nat (n_seq_max st)])"
proof -
  note D = tick_invD[OF runsD(6)[OF assms]]
  let ?slots = "map seq_id (vals (sv_active s)) @ sv_free_slots s"
  have "distinct ?slots" "set ?slots = {0..<n_seq_max st}" using D(3) unfolding slots_inv_def runsD(5)[OF assms] by blast+
  moreover have "distinct (map int [0..<nat (n_seq_max st)])" by (simp add: distinct_map)
  moreover have "set (map int [0..<nat (n_seq_max st)]) = {0..<n_seq_max st}"
    by (cases "0 \<le> n_seq_max st") (auto simp: image_iff intro!: bexI[of _ "nat _"])
  ultimately have m: "mset ?slots = mset (map int [0..<nat (n_seq_max st)])" by (metis set_eq_iff_mset_eq_distinct)
  have "rs_seq_id rs = seq_id sq" if "dict_get (sv_active s) rid = Some sq" "dict_get (sv_requests s) rid = Some rs" for rid sq rs
    using D(4) that unfolding live_inv_def live_req_def by blast
  with D(1,2,9) m show ?thesis unfolding ids_inv_def static_inv_def str_inv_def kv_inv_def by blast
qed

theorem registries_agree_witness:
  "keys (sv_active demo_first) = [''r''] \<and> mset (map seq_id (vals (sv_active demo_first)) @ sv_free_slots demo_first) = {#0, 1#}"
  using registries_agree[OF demo_first_runs] by (simp add: demo_first_fields demo_settings_fields numeral_2_eq_2)

end
